(* ===== verification/Mise_Prelude.thy ===== *)
theory Mise_Prelude
  imports Main
begin

text \<open>
  Shared vocabulary of the development: the collections of rewrite rules that the component
  theories extend, the model of the Rust standard library that the components use (Unicode
  scalar values, string primitives, insertion-ordered maps), and the generic lemmas on
  lists, maps and relations that more than one component needs.
\<close>

named_theorems uchar_simps "evaluation of the character classes of the Rust standard library"
named_theorems dg_simps "field equations of the scheduler operations"
named_theorems str_simps "evaluation of the string primitives of the Rust standard library"

section \<open>Unicode scalar values and strings\<close>

text \<open>
  A Rust \<^verbatim>\<open>char\<close> is a Unicode scalar value and a \<^verbatim>\<open>str\<close> a sequence of them; the model uses the
  scalar value itself, so that the code's tests on characters outside ASCII (white space,
  control characters, the byte-order mark) are the code's own.  Positions in a string are
  counted in characters; where the code reports a byte offset, it is the sum of the UTF-8
  lengths of the characters before the position.
\<close>

type_synonym uchar = nat
type_synonym ustr = "uchar list"

abbreviation (input) NUL :: uchar where "NUL \<equiv> 0"
abbreviation (input) TAB :: uchar where "TAB \<equiv> 9"
abbreviation (input) NL :: uchar where "NL \<equiv> 10"
abbreviation (input) CR :: uchar where "CR \<equiv> 13"
abbreviation (input) SP :: uchar where "SP \<equiv> 32"
abbreviation (input) DQ :: uchar where "DQ \<equiv> 34"
abbreviation (input) HASH :: uchar where "HASH \<equiv> 35"
abbreviation (input) DOLLAR :: uchar where "DOLLAR \<equiv> 36"
abbreviation (input) SQ :: uchar where "SQ \<equiv> 39"
abbreviation (input) STAR :: uchar where "STAR \<equiv> 42"
abbreviation (input) PLUS :: uchar where "PLUS \<equiv> 43"
abbreviation (input) MINUS :: uchar where "MINUS \<equiv> 45"
abbreviation (input) DOT :: uchar where "DOT \<equiv> 46"
abbreviation (input) SLASH :: uchar where "SLASH \<equiv> 47"
abbreviation (input) COLON :: uchar where "COLON \<equiv> 58"
abbreviation (input) EQUALS :: uchar where "EQUALS \<equiv> 61"
abbreviation (input) QUESTION :: uchar where "QUESTION \<equiv> 63"
abbreviation (input) AT :: uchar where "AT \<equiv> 64"
abbreviation (input) BSL :: uchar where "BSL \<equiv> 92"
abbreviation (input) UNDERSCORE :: uchar where "UNDERSCORE \<equiv> 95"
abbreviation (input) LBRACE :: uchar where "LBRACE \<equiv> 123"
abbreviation (input) RBRACE :: uchar where "RBRACE \<equiv> 125"
abbreviation (input) BOM :: uchar where "BOM \<equiv> 65279"

text \<open>A string literal of the source, as scalar values.\<close>

definition lit :: "string \<Rightarrow> ustr" where
  "lit s = map of_char s"

text \<open>\<^verbatim>\<open>char::is_whitespace\<close>: the Unicode property White\_Space.\<close>

definition is_whitespace :: "uchar \<Rightarrow> bool" where
  "is_whitespace c \<longleftrightarrow> (9 \<le> c \<and> c \<le> 13) \<or> c = 32 \<or> c = 133 \<or> c = 160 \<or> c = 5760
     \<or> (8192 \<le> c \<and> c \<le> 8202) \<or> c = 8232 \<or> c = 8233 \<or> c = 8239 \<or> c = 8287 \<or> c = 12288"

text \<open>\<^verbatim>\<open>char::is_control\<close>: the general category Cc.\<close>

definition is_control :: "uchar \<Rightarrow> bool" where
  "is_control c \<longleftrightarrow> c < 32 \<or> (127 \<le> c \<and> c \<le> 159)"

definition is_ascii_digit :: "uchar \<Rightarrow> bool" where
  "is_ascii_digit c \<longleftrightarrow> 48 \<le> c \<and> c \<le> 57"

definition is_ascii_lowercase :: "uchar \<Rightarrow> bool" where
  "is_ascii_lowercase c \<longleftrightarrow> 97 \<le> c \<and> c \<le> 122"

definition is_ascii_uppercase :: "uchar \<Rightarrow> bool" where
  "is_ascii_uppercase c \<longleftrightarrow> 65 \<le> c \<and> c \<le> 90"

definition is_ascii_alphabetic :: "uchar \<Rightarrow> bool" where
  "is_ascii_alphabetic c \<longleftrightarrow> is_ascii_lowercase c \<or> is_ascii_uppercase c"

definition is_ascii_alphanumeric :: "uchar \<Rightarrow> bool" where
  "is_ascii_alphanumeric c \<longleftrightarrow> is_ascii_alphabetic c \<or> is_ascii_digit c"

definition to_ascii_lowercase :: "ustr \<Rightarrow> ustr" where
  "to_ascii_lowercase s = map (\<lambda>c. if is_ascii_uppercase c then c + 32 else c) s"

text \<open>\<^verbatim>\<open>char::len_utf8\<close> and the byte length of a string.\<close>

definition len_utf8 :: "uchar \<Rightarrow> nat" where
  "len_utf8 c = (if c < 128 then 1 else if c < 2048 then 2 else if c < 65536 then 3 else 4)"

definition byte_len :: "ustr \<Rightarrow> nat" where
  "byte_len s = sum_list (map len_utf8 s)"

lemmas [uchar_simps] = is_whitespace_def is_control_def is_ascii_digit_def
  is_ascii_lowercase_def is_ascii_uppercase_def is_ascii_alphabetic_def
  is_ascii_alphanumeric_def len_utf8_def

section \<open>String primitives\<close>

text \<open>\<^verbatim>\<open>str::strip_prefix\<close> and \<^verbatim>\<open>str::starts_with\<close>.\<close>

fun strip_prefix :: "'a list \<Rightarrow> 'a list \<Rightarrow> 'a list option" where
  "strip_prefix [] s = Some s"
| "strip_prefix (p # ps) [] = None"
| "strip_prefix (p # ps) (c # s) = (if p = c then strip_prefix ps s else None)"

definition starts_with :: "'a list \<Rightarrow> 'a list \<Rightarrow> bool" where
  "starts_with p s = (strip_prefix p s \<noteq> None)"

lemma strip_prefix_Some: "strip_prefix p s = Some r \<longleftrightarrow> s = p @ r"
  by (induction p s rule: strip_prefix.induct) auto

lemma strip_prefix_append [simp]: "strip_prefix p (p @ r) = Some r"
  by (simp add: strip_prefix_Some)

lemma starts_with_iff: "starts_with p s \<longleftrightarrow> (\<exists>r. s = p @ r)"
proof -
  have "starts_with p s \<longleftrightarrow> (\<exists>r. strip_prefix p s = Some r)"
    by (simp add: starts_with_def)
  then show ?thesis by (simp add: strip_prefix_Some)
qed

text \<open>\<^verbatim>\<open>str::split_once\<close> on one character.\<close>

fun split_once :: "'a \<Rightarrow> 'a list \<Rightarrow> ('a list \<times> 'a list) option" where
  "split_once d [] = None"
| "split_once d (c # s) =
     (if c = d then Some ([], s)
      else map_option (\<lambda>(a, b). (c # a, b)) (split_once d s))"

lemma split_once_Some: "split_once d s = Some (a, b) \<longleftrightarrow> s = a @ d # b \<and> d \<notin> set a"
proof (induction s arbitrary: a)
  case Nil
  then show ?case by simp
next
  case (Cons c s)
  show ?case
    by (cases a) (auto simp: Cons.IH)
qed

lemma split_once_None: "split_once d s = None \<longleftrightarrow> d \<notin> set s"
  by (induction s) auto

text \<open>\<^verbatim>\<open>str::trim\<close>.\<close>

definition str_trim :: "ustr \<Rightarrow> ustr" where
  "str_trim s = rev (dropWhile is_whitespace (rev (dropWhile is_whitespace s)))"

section \<open>Outcomes\<close>

text \<open>A Rust function that returns a \<^verbatim>\<open>Result\<close> and may panic.\<close>

datatype ('e, 'a) outcome = Done 'a | Failed 'e | Panicked

section \<open>Insertion-ordered maps\<close>

text \<open>
  \<^verbatim>\<open>IndexMap\<close> as an association list: inserting an existing key replaces its value in place,
  a new key goes to the end.  A standard \<^verbatim>\<open>HashMap\<close> is a map \<open>'k \<rightharpoonup> 'v\<close> and a \<^verbatim>\<open>HashSet\<close> a set.
\<close>

type_synonym ('k, 'v) imap = "('k \<times> 'v) list"

fun imap_insert :: "'k \<Rightarrow> 'v \<Rightarrow> ('k, 'v) imap \<Rightarrow> ('k, 'v) imap" where
  "imap_insert k v [] = [(k, v)]"
| "imap_insert k v ((k', v') # m) = (if k = k' then (k, v) # m else (k', v') # imap_insert k v m)"

lemma map_of_imap_insert [simp]: "map_of (imap_insert k v m) = (map_of m)(k \<mapsto> v)"
  by (induction m) (auto simp: fun_eq_iff)

lemma keys_imap_insert: "fst ` set (imap_insert k v m) = insert k (fst ` set m)"
  by (induction k v m rule: imap_insert.induct) (simp_all add: insert_commute)

lemma distinct_imap_insert: "distinct (map fst m) \<Longrightarrow> distinct (map fst (imap_insert k v m))"
proof (induction m)
  case Nil
  then show ?case by simp
next
  case (Cons p m)
  obtain k' v' where p: "p = (k', v')" by fastforce
  show ?case
  proof (cases "k = k'")
    case True
    with Cons.prems p show ?thesis by simp
  next
    case False
    have "k' \<notin> fst ` set (imap_insert k v m)"
      using Cons.prems p False by (auto simp: keys_imap_insert)
    with Cons p False show ?thesis by simp
  qed
qed

section \<open>Lists\<close>

text \<open>\<^verbatim>\<open>Iterator::filter_map\<close> is \<^const>\<open>List.map_filter\<close>.\<close>

lemma in_set_map_filter: "x \<in> set (List.map_filter f xs) \<longleftrightarrow> (\<exists>y\<in>set xs. f y = Some x)"
  by (induction xs) (auto simp: List.map_filter_simps split: option.splits)

lemma takeWhile_all_length: "length (takeWhile P xs) = length xs \<longleftrightarrow> (\<forall>x\<in>set xs. P x)"
  by (induction xs) auto

section \<open>Relations\<close>

text \<open>
  On a finite domain without cycles every nonempty set has an element with no successor in
  it; this is the argument that a dependency scheduler never runs dry.
\<close>

lemma acyclic_has_leaf:
  assumes "finite A" and "A \<noteq> {}" and "acyclic r"
  shows "\<exists>x\<in>A. \<forall>y\<in>A. (x, y) \<notin> r"
proof -
  let ?r = "r \<inter> A \<times> A"
  have "acyclic ?r" using assms(3) by (rule acyclic_subset) blast
  moreover have "finite ?r" using assms(1) by blast
  ultimately have "wf (?r\<inverse>)" by (simp add: finite_acyclic_wf_converse)
  then obtain x where "x \<in> A" and "\<And>y. (y, x) \<in> ?r\<inverse> \<Longrightarrow> y \<notin> A"
    using assms(2) by (meson wf_eq_minimal all_not_in_conv)
  then show ?thesis by blast
qed

end
