(* ===== verification/Graph_Interface.thy ===== *)
theory Graph_Interface
  imports Mise_Prelude
begin

text \<open>
  The interface of the directed-graph library the schedulers are written against (petgraph's
  \<^verbatim>\<open>StableGraph\<close>).  The library is not part of the repository, so its operations are an
  argument of every definition that calls them: \<open>pg_ops\<close> collects the calls the code makes.
  The locale \<open>stable_graph\<close> states what the code relies on, each law being the documented
  behaviour of one call; \<open>slot_ops\<close> is a reference implementation in the layout the library
  documents (a vector of optional node weights whose positions are the indices, and a list of
  edges), for which the laws are proved.
\<close>

record ('g, 'i, 'n) pg_ops =
  pg_new :: "'g"
  pg_add_node :: "'g \<Rightarrow> 'n \<Rightarrow> 'g \<times> 'i"
  pg_update_edge :: "'g \<Rightarrow> 'i \<Rightarrow> 'i \<Rightarrow> 'g"
  pg_remove_node :: "'g \<Rightarrow> 'i \<Rightarrow> 'g"
  pg_node_indices :: "'g \<Rightarrow> 'i list"
  pg_node_weight :: "'g \<Rightarrow> 'i \<Rightarrow> 'n option"
  pg_outgoing :: "'g \<Rightarrow> 'i \<Rightarrow> 'i list"
  pg_incoming :: "'g \<Rightarrow> 'i \<Rightarrow> 'i list"
  pg_externals :: "'g \<Rightarrow> 'i list"
  pg_node_count :: "'g \<Rightarrow> nat"
  pg_is_cyclic :: "'g \<Rightarrow> bool"

text \<open>The edge relation that a graph shows through \<^verbatim>\<open>neighbors_directed(_, Outgoing)\<close>.\<close>

definition pg_rel :: "('g, 'i, 'n) pg_ops \<Rightarrow> 'g \<Rightarrow> ('i \<times> 'i) set" where
  "pg_rel G g = {(a, b). b \<in> set (pg_outgoing G g a)}"

locale stable_graph =
  fixes G :: "('g, 'i, 'n) pg_ops"
    and valid :: "'g \<Rightarrow> bool"
  assumes new_valid: "valid (pg_new G)"
    and new_nodes: "pg_node_indices G (pg_new G) = []"
    and weight_iff: "valid g \<Longrightarrow> pg_node_weight G g i \<noteq> None \<longleftrightarrow> i \<in> set (pg_node_indices G g)"
    and edge_nodes: "valid g \<Longrightarrow> (a, b) \<in> pg_rel G g \<Longrightarrow>
      a \<in> set (pg_node_indices G g) \<and> b \<in> set (pg_node_indices G g)"
    and incoming: "valid g \<Longrightarrow> a \<in> set (pg_incoming G g b) \<longleftrightarrow> (a, b) \<in> pg_rel G g"
    and externals: "valid g \<Longrightarrow>
      set (pg_externals G g) = {i \<in> set (pg_node_indices G g). pg_outgoing G g i = []}"
    and node_count: "valid g \<Longrightarrow> pg_node_count G g = card (set (pg_node_indices G g))"
    and cyclic: "valid g \<Longrightarrow> pg_is_cyclic G g \<longleftrightarrow> \<not> acyclic (pg_rel G g)"
    and add_valid: "valid g \<Longrightarrow> pg_add_node G g n = (g', i) \<Longrightarrow> valid g'"
    and add_fresh: "valid g \<Longrightarrow> pg_add_node G g n = (g', i) \<Longrightarrow> i \<notin> set (pg_node_indices G g)"
    and add_nodes: "valid g \<Longrightarrow> pg_add_node G g n = (g', i) \<Longrightarrow>
      set (pg_node_indices G g') = insert i (set (pg_node_indices G g))"
    and add_weight: "valid g \<Longrightarrow> pg_add_node G g n = (g', i) \<Longrightarrow>
      pg_node_weight G g' = (pg_node_weight G g)(i \<mapsto> n)"
    and add_rel: "valid g \<Longrightarrow> pg_add_node G g n = (g', i) \<Longrightarrow> pg_rel G g' = pg_rel G g"
    and upd_valid: "valid g \<Longrightarrow> a \<in> set (pg_node_indices G g) \<Longrightarrow>
      b \<in> set (pg_node_indices G g) \<Longrightarrow> valid (pg_update_edge G g a b)"
    and upd_nodes: "valid g \<Longrightarrow> a \<in> set (pg_node_indices G g) \<Longrightarrow>
      b \<in> set (pg_node_indices G g) \<Longrightarrow>
      set (pg_node_indices G (pg_update_edge G g a b)) = set (pg_node_indices G g)"
    and upd_weight: "valid g \<Longrightarrow> a \<in> set (pg_node_indices G g) \<Longrightarrow>
      b \<in> set (pg_node_indices G g) \<Longrightarrow>
      pg_node_weight G (pg_update_edge G g a b) = pg_node_weight G g"
    and upd_rel: "valid g \<Longrightarrow> a \<in> set (pg_node_indices G g) \<Longrightarrow>
      b \<in> set (pg_node_indices G g) \<Longrightarrow>
      pg_rel G (pg_update_edge G g a b) = insert (a, b) (pg_rel G g)"
    and rem_valid: "valid g \<Longrightarrow> i \<in> set (pg_node_indices G g) \<Longrightarrow> valid (pg_remove_node G g i)"
    and rem_nodes: "valid g \<Longrightarrow> i \<in> set (pg_node_indices G g) \<Longrightarrow>
      set (pg_node_indices G (pg_remove_node G g i)) = set (pg_node_indices G g) - {i}"
    and rem_weight: "valid g \<Longrightarrow> i \<in> set (pg_node_indices G g) \<Longrightarrow>
      pg_node_weight G (pg_remove_node G g i) = (pg_node_weight G g)(i := None)"
    and rem_rel: "valid g \<Longrightarrow> i \<in> set (pg_node_indices G g) \<Longrightarrow>
      pg_rel G (pg_remove_node G g i) = {(a, b) \<in> pg_rel G g. a \<noteq> i \<and> b \<noteq> i}"
begin

lemma new_rel: "pg_rel G (pg_new G) = {}"
proof -
  have "(a, b) \<notin> pg_rel G (pg_new G)" for a b
    using edge_nodes [OF new_valid, of a b] by (auto simp: new_nodes)
  then show ?thesis by auto
qed

lemma finite_rel: "valid g \<Longrightarrow> finite (pg_rel G g)"
proof -
  assume "valid g"
  then have "pg_rel G g \<subseteq> set (pg_node_indices G g) \<times> set (pg_node_indices G g)"
    by (auto dest: edge_nodes)
  then show ?thesis by (rule finite_subset) simp
qed

lemma outgoing_Nil: "pg_outgoing G g i = [] \<longleftrightarrow> (\<forall>j. (i, j) \<notin> pg_rel G g)"
proof -
  have "pg_outgoing G g i = [] \<longleftrightarrow> (\<forall>j. j \<notin> set (pg_outgoing G g i))"
    by (metis list.set(1) empty_iff list.set_intros(1) neq_Nil_conv)
  then show ?thesis by (simp add: pg_rel_def)
qed

end

section \<open>A reference implementation\<close>

type_synonym 'n slots = "'n option list \<times> (nat \<times> nat) list"

definition slot_indices :: "'n slots \<Rightarrow> nat list" where
  "slot_indices g = filter (\<lambda>i. fst g ! i \<noteq> None) [0..<length (fst g)]"

definition slot_outgoing :: "'n slots \<Rightarrow> nat \<Rightarrow> nat list" where
  "slot_outgoing g i = map snd (filter (\<lambda>e. fst e = i) (snd g))"

definition slot_ops :: "('n slots, nat, 'n) pg_ops" where
  "slot_ops = \<lparr>
     pg_new = ([], []),
     pg_add_node = (\<lambda>g n. ((fst g @ [Some n], snd g), length (fst g))),
     pg_update_edge = (\<lambda>g a b. (fst g, if (a, b) \<in> set (snd g) then snd g else snd g @ [(a, b)])),
     pg_remove_node = (\<lambda>g i. ((fst g)[i := None], filter (\<lambda>e. fst e \<noteq> i \<and> snd e \<noteq> i) (snd g))),
     pg_node_indices = slot_indices,
     pg_node_weight = (\<lambda>g i. if i < length (fst g) then fst g ! i else None),
     pg_outgoing = slot_outgoing,
     pg_incoming = (\<lambda>g i. map fst (filter (\<lambda>e. snd e = i) (snd g))),
     pg_externals = (\<lambda>g. filter (\<lambda>i. slot_outgoing g i = []) (slot_indices g)),
     pg_node_count = (\<lambda>g. length (slot_indices g)),
     pg_is_cyclic = (\<lambda>g. \<exists>e\<in>set (snd g). (fst e, fst e) \<in> (set (snd g))\<^sup>+) \<rparr>"

definition slot_valid :: "'n slots \<Rightarrow> bool" where
  "slot_valid g \<longleftrightarrow>
     (\<forall>e\<in>set (snd g). fst e \<in> set (slot_indices g) \<and> snd e \<in> set (slot_indices g))"

lemma set_slot_indices: "i \<in> set (slot_indices g) \<longleftrightarrow> i < length (fst g) \<and> fst g ! i \<noteq> None"
  by (auto simp: slot_indices_def)

lemma distinct_slot_indices: "distinct (slot_indices g)"
  by (simp add: slot_indices_def)

lemma slot_rel: "pg_rel slot_ops g = set (snd g)"
  by (force simp: pg_rel_def slot_ops_def slot_outgoing_def)

lemma slot_cyclic: "pg_is_cyclic slot_ops g \<longleftrightarrow> \<not> acyclic (pg_rel slot_ops g)"
proof -
  have "(\<exists>e\<in>r. (fst e, fst e) \<in> r\<^sup>+) \<longleftrightarrow> \<not> acyclic r" for r :: "(nat \<times> nat) set"
  proof
    assume "\<not> acyclic r"
    then obtain x where x: "(x, x) \<in> r\<^sup>+" by (auto simp: acyclic_def)
    then obtain y where "(x, y) \<in> r" by (blast dest: tranclD)
    with x show "\<exists>e\<in>r. (fst e, fst e) \<in> r\<^sup>+" by (intro bexI [of _ "(x, y)"]) simp_all
  qed (auto simp: acyclic_def)
  then show ?thesis by (simp add: slot_rel) (simp add: slot_ops_def)
qed

lemma slot_indices_update:
  "set (slot_indices ((fst g)[i := None], es)) = set (slot_indices g) - {i}"
proof (cases "i < length (fst g)")
  case True
  then show ?thesis by (auto simp: set_slot_indices nth_list_update split: if_splits)
next
  case False
  then show ?thesis by (auto simp: set_slot_indices list_update_beyond)
qed

lemma slot_indices_add:
  "set (slot_indices (fst g @ [Some n], es)) = insert (length (fst g)) (set (slot_indices g))"
  by (auto simp: set_slot_indices nth_append less_Suc_eq split: if_splits)

interpretation slots: stable_graph slot_ops slot_valid
proof (unfold_locales, goal_cases)
  case 1 show ?case by (simp add: slot_valid_def slot_ops_def)
next
  case 2 show ?case by (simp add: slot_ops_def slot_indices_def)
next
  case (3 g i) show ?case by (auto simp: slot_ops_def set_slot_indices)
next
  case (4 g a b) then show ?case by (auto simp: slot_rel slot_valid_def) (force simp: slot_ops_def)+
next
  case (5 g a b) show ?case by (simp add: slot_rel) (force simp: slot_ops_def)
next
  case (6 g) show ?case by (simp add: slot_ops_def)
next
  case (7 g) show ?case by (simp add: slot_ops_def distinct_card distinct_slot_indices)
next
  case (8 g) show ?case by (rule slot_cyclic)
next
  case (9 g n g' i)
  then show ?case by (fastforce simp: slot_ops_def slot_valid_def slot_indices_add)
next
  case (10 g n g' i) then show ?case by (auto simp: slot_ops_def set_slot_indices)
next
  case (11 g n g' i)
  then show ?case by (auto simp: slot_ops_def slot_indices_add)
next
  case (12 g n g' i)
  then show ?case by (auto simp: slot_ops_def nth_append fun_eq_iff less_Suc_eq)
next
  case (13 g n g' i) then show ?case by (auto simp: slot_rel) (auto simp: slot_ops_def)
next
  case (14 g a b) then show ?case by (auto simp: slot_ops_def slot_valid_def set_slot_indices)
next
  case (15 g a b) then show ?case by (simp add: slot_ops_def slot_indices_def)
next
  case (16 g a b) then show ?case by (simp add: slot_ops_def fun_eq_iff)
next
  case (17 g a b) then show ?case by (simp add: slot_rel) (auto simp: slot_ops_def)
next
  case (18 g i)
  then show ?case by (auto simp: slot_ops_def slot_valid_def slot_indices_update)
next
  case (19 g i) then show ?case by (simp add: slot_ops_def slot_indices_update)
next
  case (20 g i)
  then show ?case by (auto simp: slot_ops_def fun_eq_iff nth_list_update set_slot_indices)
next
  case (21 g i) then show ?case by (simp add: slot_rel) (auto simp: slot_ops_def)
qed

end
