(* ===== verification/Deps_Graph.thy ===== *)
theory Deps_Graph
  imports Graph_Interface
begin

text \<open>
  The generic dependency scheduler of \<^verbatim>\<open>crates/mise-util/src/deps_graph.rs\<close> (Kahn's
  algorithm): construction with cycle detection, emission of ready nodes, completion with
  success or failure.  The state is the code's struct; the channel \<open>dg_tx\<close> is the sequence of
  messages sent on the current sender, oldest first, and \<^verbatim>\<open>subscribe\<close> starts a new one.  The
  graph library is the argument \<open>G\<close> of every definition (theory \<open>Graph_Interface\<close>).
\<close>

section \<open>The model\<close>

datatype 'k dg_error = UnknownDependency 'k 'k

record ('k, 'g, 'i, 'n) deps_graph =
  dg_graph :: 'g
  dg_node_indices :: "'k \<rightharpoonup> 'i"
  dg_sent :: "'k set"
  dg_blocked :: "'k set"
  dg_tx :: "'n option list"
  dg_key_fn :: "'n \<Rightarrow> 'k"

text \<open>The two loops of \<^verbatim>\<open>DepsGraph::new\<close>.\<close>

fun dg_add_nodes ::
  "('g, 'i, 'n) pg_ops \<Rightarrow> ('k \<times> 'n) list \<Rightarrow> 'g \<Rightarrow> ('k \<rightharpoonup> 'i) \<Rightarrow> 'g \<times> ('k \<rightharpoonup> 'i)" where
  "dg_add_nodes G [] g ix = (g, ix)"
| "dg_add_nodes G ((k, n) # ns) g ix =
     (if ix k \<noteq> None then dg_add_nodes G ns g ix
      else case pg_add_node G g n of (g', i) \<Rightarrow> dg_add_nodes G ns g' (ix(k \<mapsto> i)))"

fun dg_add_edges ::
  "('g, 'i, 'n) pg_ops \<Rightarrow> ('k \<rightharpoonup> 'i) \<Rightarrow> ('k \<times> 'k) list \<Rightarrow> 'g \<Rightarrow> 'k dg_error + 'g" where
  "dg_add_edges G ix [] g = Inr g"
| "dg_add_edges G ix ((from, to) # es) g =
     (case ix from of
        None \<Rightarrow> dg_add_edges G ix es g
      | Some from_idx \<Rightarrow>
          (case ix to of
             None \<Rightarrow> Inl (UnknownDependency from to)
           | Some to_idx \<Rightarrow>
               dg_add_edges G ix es (if from \<noteq> to then pg_update_edge G g from_idx to_idx else g)))"

text \<open>
  Cycle detection.  The seed of \<^verbatim>\<open>can_reach_leaf\<close>, one pass of the \<^verbatim>\<open>for\<close> loop inside
  \<^verbatim>\<open>while changed\<close>, and the loop.
\<close>

definition dg_leaf_seed :: "('g, 'i, 'n) pg_ops \<Rightarrow> 'g \<Rightarrow> 'i set" where
  "dg_leaf_seed G g = set (filter (\<lambda>i. pg_outgoing G g i = []) (pg_node_indices G g))"

fun dg_propagate_pass ::
  "('g, 'i, 'n) pg_ops \<Rightarrow> 'g \<Rightarrow> 'i list \<Rightarrow> 'i set \<Rightarrow> bool \<Rightarrow> 'i set \<times> bool" where
  "dg_propagate_pass G g [] can changed = (can, changed)"
| "dg_propagate_pass G g (i # is) can changed =
     (if i \<in> can then dg_propagate_pass G g is can changed
      else if list_all (\<lambda>d. d \<in> can) (pg_outgoing G g i) \<and> pg_outgoing G g i \<noteq> []
      then dg_propagate_pass G g is (insert i can) True
      else dg_propagate_pass G g is can changed)"

lemma dg_propagate_pass_bounds:
  "can \<subseteq> fst (dg_propagate_pass G g is can changed)
   \<and> fst (dg_propagate_pass G g is can changed) \<subseteq> can \<union> set is"
  by (induction G g "is" can changed rule: dg_propagate_pass.induct) auto

lemma dg_propagate_pass_changed:
  "snd (dg_propagate_pass G g is can changed) \<Longrightarrow>
   changed \<or> (\<exists>i\<in>set is. i \<notin> can \<and> i \<in> fst (dg_propagate_pass G g is can changed))"
proof (induction G g "is" can changed rule: dg_propagate_pass.induct)
  case (1 G g can changed)
  then show ?case by simp
next
  case (2 G g i "is" can changed)
  consider (skip) "i \<in> can"
    | (ins) "i \<notin> can" "list_all (\<lambda>d. d \<in> can) (pg_outgoing G g i)" "pg_outgoing G g i \<noteq> []"
    | (no) "i \<notin> can" "\<not> (list_all (\<lambda>d. d \<in> can) (pg_outgoing G g i) \<and> pg_outgoing G g i \<noteq> [])"
    by blast
  then show ?case
  proof cases
    case skip
    with 2 show ?thesis by auto
  next
    case ins
    have "i \<in> fst (dg_propagate_pass G g is (insert i can) True)"
      using dg_propagate_pass_bounds [of "insert i can" G g "is" True] by blast
    with ins show ?thesis by auto
  next
    case no
    with 2 show ?thesis by (auto split: if_splits)
  qed
qed

function dg_propagate :: "('g, 'i, 'n) pg_ops \<Rightarrow> 'g \<Rightarrow> 'i set \<Rightarrow> 'i set" where
  "dg_propagate G g can =
     (if snd (dg_propagate_pass G g (pg_node_indices G g) can False)
      then dg_propagate G g (fst (dg_propagate_pass G g (pg_node_indices G g) can False))
      else fst (dg_propagate_pass G g (pg_node_indices G g) can False))"
  by pat_completeness auto
termination
proof (relation "measure (\<lambda>(G, g, can). card (set (pg_node_indices G g) - can))", goal_cases)
  case 1
  show ?case by simp
next
  case (2 G g can)
  let ?can = "fst (dg_propagate_pass G g (pg_node_indices G g) can False)"
  have "set (pg_node_indices G g) - ?can \<subset> set (pg_node_indices G g) - can"
    using dg_propagate_pass_changed [OF 2]
      dg_propagate_pass_bounds [of can G g "pg_node_indices G g" False] by blast
  then show ?case by (simp add: psubset_card_mono)
qed

declare dg_propagate.simps [simp del]

definition dg_detect_and_block_cycles ::
  "('g, 'i, 'n) pg_ops \<Rightarrow> ('k, 'g, 'i, 'n) deps_graph \<Rightarrow> ('k, 'g, 'i, 'n) deps_graph" where
  "dg_detect_and_block_cycles G s =
     (if \<not> pg_is_cyclic G (dg_graph s) then s
      else let can = dg_propagate G (dg_graph s) (dg_leaf_seed G (dg_graph s)) in
        fold (\<lambda>i s.
            if i \<notin> can then
              (case pg_node_weight G (dg_graph s) i of
                 None \<Rightarrow> s
               | Some n \<Rightarrow> s\<lparr>dg_blocked := insert (dg_key_fn s n) (dg_blocked s)\<rparr>)
            else s)
          (pg_node_indices G (dg_graph s)) s)"

definition dg_new ::
  "('g, 'i, 'n) pg_ops \<Rightarrow> ('k \<times> 'n) list \<Rightarrow> ('k \<times> 'k) list \<Rightarrow> ('n \<Rightarrow> 'k)
     \<Rightarrow> 'k dg_error + ('k, 'g, 'i, 'n) deps_graph" where
  "dg_new G nodes edges kf =
     (case dg_add_nodes G nodes (pg_new G) Map.empty of (g, ix) \<Rightarrow>
        (case dg_add_edges G ix edges g of
           Inl e \<Rightarrow> Inl e
         | Inr g' \<Rightarrow>
             Inr (dg_detect_and_block_cycles G
               \<lparr>dg_graph = g', dg_node_indices = ix, dg_sent = {}, dg_blocked = {},
                dg_tx = [], dg_key_fn = kf\<rparr>)))"

definition dg_find_leaves ::
  "('g, 'i, 'n) pg_ops \<Rightarrow> ('k, 'g, 'i, 'n) deps_graph \<Rightarrow> ('k \<times> 'n) list" where
  "dg_find_leaves G s =
     List.map_filter
       (\<lambda>i. map_option (\<lambda>n. (dg_key_fn s n, n)) (pg_node_weight G (dg_graph s) i))
       (pg_externals G (dg_graph s))"

definition dg_is_empty :: "('g, 'i, 'n) pg_ops \<Rightarrow> ('k, 'g, 'i, 'n) deps_graph \<Rightarrow> bool" where
  "dg_is_empty G s \<longleftrightarrow> pg_node_count G (dg_graph s) = 0"

definition dg_is_all_done :: "('g, 'i, 'n) pg_ops \<Rightarrow> ('k, 'g, 'i, 'n) deps_graph \<Rightarrow> bool" where
  "dg_is_all_done G s \<longleftrightarrow>
     dg_is_empty G s
     \<or> list_all (\<lambda>i. case pg_node_weight G (dg_graph s) i of
                       None \<Rightarrow> True
                     | Some n \<Rightarrow> dg_key_fn s n \<in> dg_blocked s)
         (pg_node_indices G (dg_graph s))"

definition dg_send :: "'n option \<Rightarrow> ('k, 'g, 'i, 'n) deps_graph \<Rightarrow> ('k, 'g, 'i, 'n) deps_graph" where
  "dg_send m s = s\<lparr>dg_tx := dg_tx s @ [m]\<rparr>"

fun dg_emit_loop ::
  "('k \<times> 'n) list \<Rightarrow> ('k, 'g, 'i, 'n) deps_graph \<Rightarrow> ('k, 'g, 'i, 'n) deps_graph" where
  "dg_emit_loop [] s = s"
| "dg_emit_loop ((k, n) # ls) s =
     (if k \<in> dg_sent s \<or> k \<in> dg_blocked s then dg_emit_loop ls s
      else dg_emit_loop ls (dg_send (Some n) (s\<lparr>dg_sent := insert k (dg_sent s)\<rparr>)))"

definition dg_emit_leaves ::
  "('g, 'i, 'n) pg_ops \<Rightarrow> ('k, 'g, 'i, 'n) deps_graph \<Rightarrow> ('k, 'g, 'i, 'n) deps_graph" where
  "dg_emit_leaves G s =
     (let s' = dg_emit_loop (dg_find_leaves G s) s in
      if dg_is_all_done G s' then dg_send None s' else s')"

definition dg_subscribe ::
  "('g, 'i, 'n) pg_ops \<Rightarrow> ('k, 'g, 'i, 'n) deps_graph \<Rightarrow> ('k, 'g, 'i, 'n) deps_graph" where
  "dg_subscribe G s = dg_emit_leaves G (s\<lparr>dg_tx := []\<rparr>)"

definition dg_remove_node ::
  "('g, 'i, 'n) pg_ops \<Rightarrow> 'k \<Rightarrow> ('k, 'g, 'i, 'n) deps_graph \<Rightarrow> ('k, 'g, 'i, 'n) deps_graph" where
  "dg_remove_node G k s =
     (case dg_node_indices s k of
        None \<Rightarrow> s
      | Some i \<Rightarrow> s\<lparr>dg_graph := pg_remove_node G (dg_graph s) i,
                   dg_node_indices := (dg_node_indices s)(k := None)\<rparr>)"

definition dg_complete_success ::
  "('g, 'i, 'n) pg_ops \<Rightarrow> 'k \<Rightarrow> ('k, 'g, 'i, 'n) deps_graph \<Rightarrow> ('k, 'g, 'i, 'n) deps_graph" where
  "dg_complete_success G k s = dg_emit_leaves G (dg_remove_node G k s)"

text \<open>
  The worklist of \<^verbatim>\<open>get_transitive_dependents\<close>.  The inner \<^verbatim>\<open>for\<close> loop pushes the incoming
  neighbours not seen before (the last one pushed is popped first); whether the outer loop
  ends depends on the graph library, so the result is optional and \<open>None\<close> is a loop that does
  not return.
\<close>

fun dg_push_dependents :: "'i list \<Rightarrow> 'i list \<Rightarrow> 'i list \<Rightarrow> 'i list \<times> 'i list" where
  "dg_push_dependents [] dependents stack = (dependents, stack)"
| "dg_push_dependents (j # js) dependents stack =
     (if j \<in> set dependents then dg_push_dependents js dependents stack
      else dg_push_dependents js (dependents @ [j]) (j # stack))"

partial_function (option) dg_dependents_loop ::
  "('g, 'i, 'n) pg_ops \<Rightarrow> 'g \<Rightarrow> 'i list \<Rightarrow> 'i list \<Rightarrow> 'i list option" where
  "dg_dependents_loop G g dependents stack =
     (case stack of
        [] \<Rightarrow> Some dependents
      | i # rest \<Rightarrow>
          dg_dependents_loop G g (fst (dg_push_dependents (pg_incoming G g i) dependents rest))
            (snd (dg_push_dependents (pg_incoming G g i) dependents rest)))"

declare dg_dependents_loop.simps [code]

definition dg_get_transitive_dependents ::
  "('g, 'i, 'n) pg_ops \<Rightarrow> 'g \<Rightarrow> 'i \<Rightarrow> 'i list option" where
  "dg_get_transitive_dependents G g start = dg_dependents_loop G g [] [start]"

definition dg_block_dependents ::
  "('g, 'i, 'n) pg_ops \<Rightarrow> 'i list \<Rightarrow> ('k, 'g, 'i, 'n) deps_graph \<Rightarrow> ('k, 'g, 'i, 'n) deps_graph" where
  "dg_block_dependents G ds s =
     fold (\<lambda>d s. case pg_node_weight G (dg_graph s) d of
                   None \<Rightarrow> s
                 | Some n \<Rightarrow> s\<lparr>dg_blocked := insert (dg_key_fn s n) (dg_blocked s)\<rparr>) ds s"

definition dg_complete_failure ::
  "('g, 'i, 'n) pg_ops \<Rightarrow> 'k \<Rightarrow> ('k, 'g, 'i, 'n) deps_graph
     \<Rightarrow> ('k, 'g, 'i, 'n) deps_graph option" where
  "dg_complete_failure G k s =
     map_option (\<lambda>s. dg_emit_leaves G (dg_remove_node G k s))
       (case dg_node_indices s k of
          None \<Rightarrow> Some s
        | Some i \<Rightarrow> map_option (\<lambda>ds. dg_block_dependents G ds s)
                     (dg_get_transitive_dependents G (dg_graph s) i))"

definition dg_dependencies_of ::
  "('g, 'i, 'n) pg_ops \<Rightarrow> 'k \<Rightarrow> ('k, 'g, 'i, 'n) deps_graph \<Rightarrow> 'k list" where
  "dg_dependencies_of G k s =
     (case dg_node_indices s k of
        None \<Rightarrow> []
      | Some i \<Rightarrow> List.map_filter (\<lambda>d. map_option (dg_key_fn s) (pg_node_weight G (dg_graph s) d))
                   (pg_outgoing G (dg_graph s) i))"

definition dg_blocked_nodes ::
  "('g, 'i, 'n) pg_ops \<Rightarrow> ('k, 'g, 'i, 'n) deps_graph \<Rightarrow> 'n list" where
  "dg_blocked_nodes G s =
     List.map_filter (\<lambda>i. case pg_node_weight G (dg_graph s) i of
                            None \<Rightarrow> None
                          | Some n \<Rightarrow> if dg_key_fn s n \<in> dg_blocked s then Some n else None)
       (pg_node_indices G (dg_graph s))"

definition dg_blocked_keys ::
  "('g, 'i, 'n) pg_ops \<Rightarrow> ('k, 'g, 'i, 'n) deps_graph \<Rightarrow> 'k list" where
  "dg_blocked_keys G s =
     List.map_filter (\<lambda>i. case pg_node_weight G (dg_graph s) i of
                            None \<Rightarrow> None
                          | Some n \<Rightarrow> if dg_key_fn s n \<in> dg_blocked s then Some (dg_key_fn s n) else None)
       (pg_node_indices G (dg_graph s))"

text \<open>
  The states a client drives the scheduler through: build it, subscribe once, then report each
  node it was handed (and has not reported yet) as succeeded or failed, in any order.  \<open>F\<close> is
  the set of keys reported as failed.
\<close>

definition dg_in_flight :: "('k, 'g, 'i, 'n) deps_graph \<Rightarrow> 'k set" where
  "dg_in_flight s = dg_sent s \<inter> dom (dg_node_indices s)"

inductive dg_reach ::
  "('g, 'i, 'n) pg_ops \<Rightarrow> ('k \<times> 'n) list \<Rightarrow> ('k \<times> 'k) list \<Rightarrow> ('n \<Rightarrow> 'k)
     \<Rightarrow> 'k set \<Rightarrow> ('k, 'g, 'i, 'n) deps_graph \<Rightarrow> bool"
  for G nodes edges kf where
  dg_start: "dg_new G nodes edges kf = Inr s \<Longrightarrow> dg_reach G nodes edges kf {} (dg_subscribe G s)"
| dg_succ: "dg_reach G nodes edges kf F s \<Longrightarrow> k \<in> dg_in_flight s \<Longrightarrow>
     dg_reach G nodes edges kf F (dg_complete_success G k s)"
| dg_fail: "dg_reach G nodes edges kf F s \<Longrightarrow> k \<in> dg_in_flight s \<Longrightarrow>
     dg_complete_failure G k s = Some t \<Longrightarrow> dg_reach G nodes edges kf (insert k F) t"

end
