(* ===== verification/Sched_Spec.thy ===== *)
theory Sched_Spec
  imports Mise_Prelude
begin

text \<open>
  What a dependency scheduler promises, without any graph representation: a set of pending
  keys, the dependency relation among them, the keys handed out and the keys that will never
  be handed out.  A run hands out keys, and each handed-out key is reported back once, as a
  success or as a failure.  The theory shows, for every run, which keys are handed out when
  the scheduler reports that it is done, and that it never stops before.
\<close>

record 'k sched =
  sc_pending :: "'k set"
  sc_rel :: "('k \<times> 'k) set"
  sc_sent :: "'k set"
  sc_blocked :: "'k set"

definition sc_ready :: "'k sched \<Rightarrow> 'k set" where
  "sc_ready a = {k \<in> sc_pending a. (\<forall>j. (k, j) \<notin> sc_rel a) \<and> k \<notin> sc_blocked a}"

definition sc_emit :: "'k sched \<Rightarrow> 'k sched" where
  "sc_emit a = a\<lparr>sc_sent := sc_sent a \<union> sc_ready a\<rparr>"

definition sc_drop :: "'k \<Rightarrow> 'k sched \<Rightarrow> 'k sched" where
  "sc_drop k a = a\<lparr>sc_pending := sc_pending a - {k},
                    sc_rel := {(x, y) \<in> sc_rel a. x \<noteq> k \<and> y \<noteq> k}\<rparr>"

definition sc_block :: "'k \<Rightarrow> 'k sched \<Rightarrow> 'k sched" where
  "sc_block k a = a\<lparr>sc_blocked := sc_blocked a \<union> {j. (j, k) \<in> (sc_rel a)\<^sup>+}\<rparr>"

definition sc_success :: "'k \<Rightarrow> 'k sched \<Rightarrow> 'k sched" where
  "sc_success k a = sc_emit (sc_drop k a)"

definition sc_failure :: "'k \<Rightarrow> 'k sched \<Rightarrow> 'k sched" where
  "sc_failure k a = sc_emit (sc_drop k (sc_block k a))"

text \<open>The keys from which a dependency cycle can be reached.\<close>

definition reaches_cycle :: "('k \<times> 'k) set \<Rightarrow> 'k set" where
  "reaches_cycle D = {k. \<exists>j. (k, j) \<in> D\<^sup>* \<and> (j, j) \<in> D\<^sup>+}"

text \<open>The keys that depend, transitively, on one of the given keys.\<close>

definition depends_on :: "('k \<times> 'k) set \<Rightarrow> 'k set \<Rightarrow> 'k set" where
  "depends_on D F = {k. \<exists>f\<in>F. (k, f) \<in> D\<^sup>+}"

definition sc_init :: "'k set \<Rightarrow> ('k \<times> 'k) set \<Rightarrow> 'k sched" where
  "sc_init P D = \<lparr>sc_pending = P, sc_rel = D, sc_sent = {}, sc_blocked = reaches_cycle D\<rparr>"

definition sc_in_flight :: "'k sched \<Rightarrow> 'k set" where
  "sc_in_flight a = sc_sent a \<inter> sc_pending a"

definition sc_done :: "'k sched \<Rightarrow> bool" where
  "sc_done a \<longleftrightarrow> sc_pending a \<subseteq> sc_blocked a"

text \<open>Reachable states, with the set of keys that were reported as failed.\<close>

inductive sc_reach :: "'k set \<Rightarrow> ('k \<times> 'k) set \<Rightarrow> 'k set \<Rightarrow> 'k sched \<Rightarrow> bool"
  for P :: "'k set" and D :: "('k \<times> 'k) set" where
  sc_start: "sc_reach P D {} (sc_emit (sc_init P D))"
| sc_succ: "sc_reach P D F a \<Longrightarrow> k \<in> sc_in_flight a \<Longrightarrow> sc_reach P D F (sc_success k a)"
| sc_fail: "sc_reach P D F a \<Longrightarrow> k \<in> sc_in_flight a \<Longrightarrow> sc_reach P D (insert k F) (sc_failure k a)"

lemmas sc_defs = sc_ready_def sc_emit_def sc_drop_def sc_block_def sc_success_def sc_failure_def
  sc_in_flight_def

section \<open>The invariant\<close>

definition sc_inv :: "'k set \<Rightarrow> ('k \<times> 'k) set \<Rightarrow> 'k set \<Rightarrow> 'k sched \<Rightarrow> bool" where
  "sc_inv P D F a \<longleftrightarrow>
     sc_pending a \<subseteq> P \<and>
     sc_rel a = D \<inter> sc_pending a \<times> sc_pending a \<and>
     (\<forall>x y. (x, y) \<in> D \<and> y \<in> sc_pending a \<longrightarrow> x \<in> sc_pending a) \<and>
     sc_blocked a = reaches_cycle D \<union> depends_on D F \<and>
     sc_sent a \<inter> sc_pending a = sc_ready a \<and>
     sc_sent a \<inter> sc_blocked a = {} \<and>
     P - sc_pending a \<subseteq> sc_sent a \<and> sc_sent a \<subseteq> P"

lemma sc_invD:
  assumes "sc_inv P D F a"
  shows "sc_pending a \<subseteq> P"
    and "sc_rel a = D \<inter> sc_pending a \<times> sc_pending a"
    and "(x, y) \<in> D \<Longrightarrow> y \<in> sc_pending a \<Longrightarrow> x \<in> sc_pending a"
    and "sc_blocked a = reaches_cycle D \<union> depends_on D F"
    and "sc_sent a \<inter> sc_pending a = sc_ready a"
    and "sc_sent a \<inter> sc_blocked a = {}"
    and "P - sc_pending a \<subseteq> sc_sent a"
    and "sc_sent a \<subseteq> P"
  using assms unfolding sc_inv_def by blast+

lemma reaches_cycle_closed: "(x, y) \<in> D \<Longrightarrow> y \<in> reaches_cycle D \<Longrightarrow> x \<in> reaches_cycle D"
  unfolding reaches_cycle_def by (auto intro: converse_rtrancl_into_rtrancl)

lemma depends_on_closed: "(x, y) \<in> D \<Longrightarrow> y \<in> depends_on D F \<Longrightarrow> x \<in> depends_on D F"
  unfolding depends_on_def by (auto intro: trancl_into_trancl2)

lemma trancl_dom_subset: "D \<subseteq> P \<times> P \<Longrightarrow> (x, y) \<in> D\<^sup>+ \<Longrightarrow> x \<in> P \<and> y \<in> P"
  by (drule trancl_subset_Sigma) blast

lemma reaches_cycle_subset: "D \<subseteq> P \<times> P \<Longrightarrow> reaches_cycle D \<subseteq> P"
proof
  fix k assume D: "D \<subseteq> P \<times> P" and "k \<in> reaches_cycle D"
  then obtain j where "(k, j) \<in> D\<^sup>*" and "(j, j) \<in> D\<^sup>+" by (auto simp: reaches_cycle_def)
  then have "(k, j) \<in> D\<^sup>+" by (rule rtrancl_trancl_trancl)
  with D show "k \<in> P" by (blast dest: trancl_dom_subset)
qed

lemma depends_on_subset: "D \<subseteq> P \<times> P \<Longrightarrow> depends_on D F \<subseteq> P"
  by (auto simp: depends_on_def dest: trancl_dom_subset)

text \<open>
  While a key is pending, everything that depends on it is pending too, so the current
  relation still has every path into it.
\<close>

lemma trancl_restrict:
  assumes up: "\<And>x y. (x, y) \<in> D \<Longrightarrow> y \<in> Q \<Longrightarrow> x \<in> Q" and k: "k \<in> Q"
  shows "(j, k) \<in> (D \<inter> Q \<times> Q)\<^sup>+ \<longleftrightarrow> (j, k) \<in> D\<^sup>+"
proof
  assume "(j, k) \<in> (D \<inter> Q \<times> Q)\<^sup>+"
  then show "(j, k) \<in> D\<^sup>+" by (rule trancl_mono) blast
next
  assume "(j, k) \<in> D\<^sup>+"
  then have "(j, k) \<in> (D \<inter> Q \<times> Q)\<^sup>+ \<and> j \<in> Q"
  proof (induction rule: converse_trancl_induct)
    case (base y)
    with up k show ?case by blast
  next
    case (step y z)
    with up have "(y, z) \<in> D \<inter> Q \<times> Q" by blast
    with step show ?case by (blast intro: trancl_into_trancl2)
  qed
  then show "(j, k) \<in> (D \<inter> Q \<times> Q)\<^sup>+" ..
qed

lemma sc_inv_start:
  assumes "D \<subseteq> P \<times> P"
  shows "sc_inv P D {} (sc_emit (sc_init P D))"
  using assms reaches_cycle_subset [OF assms]
  by (auto simp: sc_inv_def sc_defs sc_init_def depends_on_def)

text \<open>Reporting a key that is in flight keeps the invariant; the two outcomes differ only in
  what is blocked.\<close>

lemma sc_inv_step:
  assumes inv: "sc_inv P D F a" and k: "k \<in> sc_in_flight a"
    and blk: "sc_blocked b = reaches_cycle D \<union> depends_on D F'"
    and new: "sc_blocked b - sc_blocked a \<subseteq> {j. (j, k) \<in> (sc_rel a)\<^sup>+}"
    and old: "sc_blocked a \<subseteq> sc_blocked b"
    and same: "sc_pending b = sc_pending a" "sc_rel b = sc_rel a" "sc_sent b = sc_sent a"
  shows "sc_inv P D F' (sc_emit (sc_drop k b))"
proof -
  have rel: "sc_rel a = D \<inter> sc_pending a \<times> sc_pending a" and ready: "k \<in> sc_ready a"
    using sc_invD(2,5) [OF inv] k by (auto simp: sc_in_flight_def)
  have edge: "\<exists>y. (j, y) \<in> sc_rel a" if "j \<in> sc_blocked b - sc_blocked a" for j
    using new that by (blast dest: tranclD)
  have notsent: "sc_sent a \<inter> sc_blocked b = {}"
  proof (rule ccontr)
    assume "sc_sent a \<inter> sc_blocked b \<noteq> {}"
    then obtain j where "j \<in> sc_sent a" "j \<in> sc_blocked b - sc_blocked a"
      using inv unfolding sc_inv_def by blast
    moreover from this obtain y where "(j, y) \<in> sc_rel a" using edge by blast
    ultimately show False using inv rel by (auto simp: sc_inv_def sc_ready_def)
  qed
  let ?c = "sc_emit (sc_drop k b)"
  have pend: "sc_pending ?c = sc_pending a - {k}" and blkc: "sc_blocked ?c = sc_blocked b"
    and relc: "sc_rel ?c = {(x, y) \<in> sc_rel a. x \<noteq> k \<and> y \<noteq> k}"
    and sentc: "sc_sent ?c = sc_sent a \<union> sc_ready ?c"
    using same by (simp_all add: sc_emit_def sc_drop_def sc_ready_def)
  have noedge: "(k, y) \<notin> sc_rel a" for y using ready by (simp add: sc_ready_def)
  have sub: "sc_ready ?c \<subseteq> sc_pending ?c" "sc_ready ?c \<inter> sc_blocked ?c = {}"
    by (auto simp: sc_ready_def)
  have flight: "sc_sent a \<inter> sc_pending ?c \<subseteq> sc_ready ?c"
  proof
    fix x assume x: "x \<in> sc_sent a \<inter> sc_pending ?c"
    then have "x \<in> sc_ready a" using sc_invD(5) [OF inv] pend by blast
    then have "(x, y) \<notin> sc_rel a" for y by (simp add: sc_ready_def)
    moreover have "x \<notin> sc_blocked b" using x notsent by blast
    ultimately show "x \<in> sc_ready ?c" using x by (simp add: sc_ready_def relc blkc)
  qed
  have upc: "x \<in> sc_pending ?c" if "(x, y) \<in> D" "y \<in> sc_pending ?c" for x y
    using sc_invD(3) [OF inv that(1)] that noedge [of y] rel pend by blast
  have relc': "sc_rel ?c = D \<inter> sc_pending ?c \<times> sc_pending ?c"
    unfolding relc pend rel by blast
  show ?thesis
    unfolding sc_inv_def
  proof (intro conjI allI impI)
    show "sc_pending ?c \<subseteq> P" using sc_invD(1) [OF inv] pend by blast
    show "sc_sent ?c \<inter> sc_pending ?c = sc_ready ?c" unfolding sentc using sub flight by blast
    show "sc_sent ?c \<inter> sc_blocked ?c = {}" unfolding sentc using sub notsent blkc by blast
    show "P - sc_pending ?c \<subseteq> sc_sent ?c"
      unfolding sentc pend using sc_invD(5,7) [OF inv] ready by blast
    show "sc_sent ?c \<subseteq> P" unfolding sentc using sc_invD(1,8) [OF inv] sub pend by blast
  qed (use upc relc' blkc blk in auto)
qed

lemma sc_inv_success:
  assumes "sc_inv P D F a" and "k \<in> sc_in_flight a"
  shows "sc_inv P D F (sc_success k a)"
  unfolding sc_success_def
  by (rule sc_inv_step [OF assms]) (use assms in \<open>auto simp: sc_inv_def\<close>)

lemma sc_block_blocked:
  assumes "sc_inv P D F a" and "k \<in> sc_pending a"
  shows "sc_blocked (sc_block k a) = reaches_cycle D \<union> depends_on D (insert k F)"
proof -
  have rel: "sc_rel a = D \<inter> sc_pending a \<times> sc_pending a"
    and up: "\<And>x y. (x, y) \<in> D \<Longrightarrow> y \<in> sc_pending a \<Longrightarrow> x \<in> sc_pending a"
    and blk: "sc_blocked a = reaches_cycle D \<union> depends_on D F"
    using assms(1) unfolding sc_inv_def by blast+
  have "(j, k) \<in> (sc_rel a)\<^sup>+ \<longleftrightarrow> (j, k) \<in> D\<^sup>+" for j
    unfolding rel by (rule trancl_restrict) (use up assms(2) in auto)
  then show ?thesis by (auto simp: blk sc_block_def depends_on_def)
qed

lemma sc_inv_failure:
  assumes "sc_inv P D F a" and "k \<in> sc_in_flight a"
  shows "sc_inv P D (insert k F) (sc_failure k a)"
  unfolding sc_failure_def
proof (rule sc_inv_step [OF assms])
  show "sc_blocked (sc_block k a) = reaches_cycle D \<union> depends_on D (insert k F)"
    using assms(2) by (intro sc_block_blocked [OF assms(1)]) (simp add: sc_in_flight_def)
qed (auto simp: sc_block_def)

lemma sc_reach_inv:
  assumes "D \<subseteq> P \<times> P" and "sc_reach P D F a"
  shows "sc_inv P D F a"
  using assms(2)
proof (induction rule: sc_reach.induct)
  case sc_start
  show ?case using assms(1) by (rule sc_inv_start)
next
  case (sc_succ F a k)
  then show ?case by (blast intro: sc_inv_success)
next
  case (sc_fail F a k)
  then show ?case by (blast intro: sc_inv_failure)
qed

section \<open>Consequences\<close>

text \<open>A key in flight has no pending dependency and is not blocked.\<close>

lemma sc_in_flight_ready: "sc_inv P D F a \<Longrightarrow> sc_in_flight a = sc_ready a"
  by (simp add: sc_inv_def sc_in_flight_def)

text \<open>Progress: unless the scheduler is done, some key is in flight.\<close>

lemma sc_progress:
  assumes fin: "finite P" and inv: "sc_inv P D F a" and "\<not> sc_done a"
  shows "sc_in_flight a \<noteq> {}"
proof -
  let ?U = "sc_pending a - sc_blocked a"
  have "?U \<noteq> {}" and "finite ?U"
    using assms by (auto simp: sc_done_def sc_inv_def intro: finite_subset)
  have blk: "sc_blocked a = reaches_cycle D \<union> depends_on D F"
    and rel: "sc_rel a = D \<inter> sc_pending a \<times> sc_pending a"
    using inv by (auto simp: sc_inv_def)
  have "acyclic (D \<inter> ?U \<times> ?U)"
  proof (rule acyclicI, rule allI)
    fix x
    show "(x, x) \<notin> (D \<inter> ?U \<times> ?U)\<^sup>+"
    proof
      assume cyc: "(x, x) \<in> (D \<inter> ?U \<times> ?U)\<^sup>+"
      then have "x \<in> ?U" by (auto dest: tranclD)
      moreover from cyc have "(x, x) \<in> D\<^sup>+" by (rule trancl_mono) blast
      ultimately show False by (auto simp: blk reaches_cycle_def)
    qed
  qed
  then obtain x where x: "x \<in> ?U" and leaf: "\<forall>y\<in>?U. (x, y) \<notin> D \<inter> ?U \<times> ?U"
    using acyclic_has_leaf \<open>?U \<noteq> {}\<close> \<open>finite ?U\<close> by metis
  have "(x, y) \<notin> sc_rel a" for y
  proof
    assume e: "(x, y) \<in> sc_rel a"
    then have "y \<in> sc_blocked a" using leaf x rel by blast
    then have "x \<in> sc_blocked a"
      using e rel blk reaches_cycle_closed [of x y D] depends_on_closed [of x y D F] by blast
    with x show False by blast
  qed
  with x have "x \<in> sc_ready a" by (simp add: sc_ready_def)
  then show ?thesis using sc_in_flight_ready [OF inv] by blast
qed

text \<open>
  When the scheduler is done, the keys handed out are exactly those that neither reach a cycle
  nor depend on a failed key, and every one of them was reported back.
\<close>

lemma sc_done_sent:
  assumes "D \<subseteq> P \<times> P" and "sc_inv P D F a" and "sc_done a"
  shows "sc_sent a = P - (reaches_cycle D \<union> depends_on D F)"
    and "sc_pending a = reaches_cycle D \<union> depends_on D F"
proof -
  have sub: "reaches_cycle D \<union> depends_on D F \<subseteq> P"
    using reaches_cycle_subset [OF assms(1)] depends_on_subset [OF assms(1)] by blast
  have "sc_ready a = {}" using assms(3) by (auto simp: sc_done_def sc_ready_def)
  then show "sc_sent a = P - (reaches_cycle D \<union> depends_on D F)"
    using sc_invD(4-8) [OF assms(2)] assms(3) unfolding sc_done_def by blast
  show "sc_pending a = reaches_cycle D \<union> depends_on D F"
    using sc_invD(4,6,7) [OF assms(2)] assms(3) sub unfolding sc_done_def by blast
qed

end
