(* ===== verification/Deps_Graph_Correct.thy ===== *)
theory Deps_Graph_Correct
  imports Deps_Graph Sched_Spec
begin

text \<open>
  The scheduler of theory \<open>Deps_Graph\<close> implements the specification of theory \<open>Sched_Spec\<close>:
  the abstraction \<open>dg_abs\<close> commutes with every operation.  The proofs are carried out in the
  locale \<open>stable_graph\<close>, so they use only the documented behaviour of the graph library.
\<close>

section \<open>Abstraction and well-formedness\<close>

definition key_rel :: "('g, 'i, 'n) pg_ops \<Rightarrow> 'g \<Rightarrow> ('k \<rightharpoonup> 'i) \<Rightarrow> ('k \<times> 'k) set" where
  "key_rel G g ix = {(a, b). \<exists>i j. ix a = Some i \<and> ix b = Some j \<and> (i, j) \<in> pg_rel G g}"

definition dg_abs :: "('g, 'i, 'n) pg_ops \<Rightarrow> ('k, 'g, 'i, 'n) deps_graph \<Rightarrow> 'k sched" where
  "dg_abs G s = \<lparr>sc_pending = dom (dg_node_indices s),
                 sc_rel = key_rel G (dg_graph s) (dg_node_indices s),
                 sc_sent = dg_sent s, sc_blocked = dg_blocked s\<rparr>"

text \<open>The index map and the node weights of the graph describe the same nodes.\<close>

definition nodes_ok ::
  "('g, 'i, 'n) pg_ops \<Rightarrow> ('g \<Rightarrow> bool) \<Rightarrow> ('n \<Rightarrow> 'k) \<Rightarrow> 'g \<Rightarrow> ('k \<rightharpoonup> 'i) \<Rightarrow> bool" where
  "nodes_ok G valid kf g ix \<longleftrightarrow> valid g
     \<and> (\<forall>k i. ix k = Some i \<longrightarrow> (\<exists>n. pg_node_weight G g i = Some n \<and> kf n = k))
     \<and> (\<forall>i n. pg_node_weight G g i = Some n \<longrightarrow> ix (kf n) = Some i)"

definition dg_wf ::
  "('g, 'i, 'n) pg_ops \<Rightarrow> ('g \<Rightarrow> bool) \<Rightarrow> ('k, 'g, 'i, 'n) deps_graph \<Rightarrow> bool" where
  "dg_wf G valid s \<longleftrightarrow> nodes_ok G valid (dg_key_fn s) (dg_graph s) (dg_node_indices s)"

lemma dg_abs_sel [simp]:
  "sc_pending (dg_abs G s) = dom (dg_node_indices s)"
  "sc_rel (dg_abs G s) = key_rel G (dg_graph s) (dg_node_indices s)"
  "sc_sent (dg_abs G s) = dg_sent s"
  "sc_blocked (dg_abs G s) = dg_blocked s"
  by (simp_all add: dg_abs_def)

section \<open>Facts that hold for any graph\<close>

lemma reaches_cycle_step: "i \<in> reaches_cycle R \<Longrightarrow> \<exists>d. (i, d) \<in> R \<and> d \<in> reaches_cycle R"
proof -
  assume "i \<in> reaches_cycle R"
  then obtain j where ij: "(i, j) \<in> R\<^sup>*" and jj: "(j, j) \<in> R\<^sup>+" by (auto simp: reaches_cycle_def)
  from ij jj have "(i, j) \<in> R\<^sup>+" by (rule rtrancl_trancl_trancl)
  then obtain d where "(i, d) \<in> R" and "(d, j) \<in> R\<^sup>*" by (meson tranclD)
  with jj show ?thesis by (auto simp: reaches_cycle_def)
qed

text \<open>A finite set in which every element has a successor reaches a cycle everywhere.\<close>

lemma no_leaf_reaches_cycle:
  assumes fin: "finite U" and succ: "\<And>u. u \<in> U \<Longrightarrow> \<exists>v\<in>U. (u, v) \<in> R"
  shows "U \<subseteq> reaches_cycle R"
proof (rule ccontr)
  let ?V = "U - reaches_cycle R"
  assume "\<not> U \<subseteq> reaches_cycle R"
  then have "?V \<noteq> {}" and "finite ?V" using fin by auto
  moreover have "acyclic (R \<inter> ?V \<times> ?V)"
  proof (rule acyclicI, rule allI, rule notI)
    fix x assume cyc: "(x, x) \<in> (R \<inter> ?V \<times> ?V)\<^sup>+"
    then have "x \<in> ?V" by (auto dest: tranclD)
    moreover from cyc have "(x, x) \<in> R\<^sup>+" by (rule trancl_mono) blast
    ultimately show False by (auto simp: reaches_cycle_def)
  qed
  ultimately obtain x where x: "x \<in> ?V" "\<forall>y\<in>?V. (x, y) \<notin> R \<inter> ?V \<times> ?V"
    using acyclic_has_leaf by metis
  obtain y where "y \<in> U" "(x, y) \<in> R" using succ x(1) by blast
  with x show False using reaches_cycle_closed [of x y R] by blast
qed

lemma dg_propagate_pass_True: "snd (dg_propagate_pass G g is can True)"
  by (induction "is" arbitrary: can) auto

lemma dg_propagate_pass_fix:
  "\<not> snd (dg_propagate_pass G g is can ch) \<Longrightarrow>
   fst (dg_propagate_pass G g is can ch) = can \<and>
   (\<forall>i\<in>set is. i \<in> can \<or> pg_outgoing G g i = [] \<or> (\<exists>d. (i, d) \<in> pg_rel G g \<and> d \<notin> can))"
proof (induction G g "is" can ch rule: dg_propagate_pass.induct)
  case (1 G g can ch)
  then show ?case by simp
next
  case (2 G g i "is" can ch)
  then show ?case
    by (auto simp: dg_propagate_pass_True list_all_iff pg_rel_def split: if_splits)
qed

lemma dg_propagate_pass_sound:
  "can \<inter> reaches_cycle (pg_rel G g) = {} \<Longrightarrow>
   fst (dg_propagate_pass G g is can ch) \<inter> reaches_cycle (pg_rel G g) = {}"
proof (induction G g "is" can ch rule: dg_propagate_pass.induct)
  case (1 G g can ch)
  then show ?case by simp
next
  case (2 G g i "is" can ch)
  show ?case
  proof (cases "i \<notin> can \<and> list_all (\<lambda>d. d \<in> can) (pg_outgoing G g i) \<and> pg_outgoing G g i \<noteq> []")
    case True
    then have "i \<notin> reaches_cycle (pg_rel G g)"
      using reaches_cycle_step [of i "pg_rel G g"] 2(4)
      by (auto simp: list_all_iff pg_rel_def)
    with True 2 show ?thesis by simp
  next
    case False
    with 2 show ?thesis by auto
  qed
qed

lemma dg_propagate_sound:
  "can \<inter> reaches_cycle (pg_rel G g) = {} \<Longrightarrow>
   dg_propagate G g can \<inter> reaches_cycle (pg_rel G g) = {}"
  by (induction G g can rule: dg_propagate.induct)
    (subst dg_propagate.simps, simp add: dg_propagate_pass_sound)

lemma dg_propagate_fix:
  "can \<subseteq> dg_propagate G g can \<and>
   (\<forall>i\<in>set (pg_node_indices G g). i \<in> dg_propagate G g can \<or> pg_outgoing G g i = [] \<or>
      (\<exists>d. (i, d) \<in> pg_rel G g \<and> d \<notin> dg_propagate G g can))"
proof (induction G g can rule: dg_propagate.induct)
  case (1 G g can)
  let ?p = "dg_propagate_pass G g (pg_node_indices G g) can False"
  show ?case
  proof (cases "snd ?p")
    case True
    then have eq: "dg_propagate G g can = dg_propagate G g (fst ?p)"
      by (subst dg_propagate.simps) simp
    have "can \<subseteq> fst ?p" using dg_propagate_pass_bounds [of can G g] by blast
    with "1.IH" [OF True] show ?thesis unfolding eq by blast
  next
    case False
    then have "dg_propagate G g can = can"
      using dg_propagate_pass_fix [OF False] by (subst dg_propagate.simps) simp
    with dg_propagate_pass_fix [OF False] show ?thesis by auto
  qed
qed

lemma dg_push_dependents_spec:
  "\<exists>new. dg_push_dependents js dep st = (dep @ new, rev new @ st) \<and> distinct new \<and>
         set new = set js - set dep"
proof (induction js dep st rule: dg_push_dependents.induct)
  case (1 dep st)
  show ?case by simp
next
  case (2 j js dep st)
  show ?case
  proof (cases "j \<in> set dep")
    case True
    with 2 show ?thesis by auto
  next
    case False
    with 2 obtain new where new: "dg_push_dependents js (dep @ [j]) (j # st)
        = ((dep @ [j]) @ new, rev new @ j # st)" "distinct new" "set new = set js - set (dep @ [j])"
      by auto
    then have "dg_push_dependents (j # js) dep st = (dep @ (j # new), rev (j # new) @ st)
        \<and> distinct (j # new) \<and> set (j # new) = set (j # js) - set dep"
      using False by auto
    then show ?thesis by blast
  qed
qed

text \<open>Blocking in a loop adds the keys of the visited nodes to the blocked set and changes
  nothing else.\<close>

lemma block_fold:
  "fold (\<lambda>d s. if Q d then case pg_node_weight G (dg_graph s) d of
                   None \<Rightarrow> s
                 | Some n \<Rightarrow> s\<lparr>dg_blocked := insert (dg_key_fn s n) (dg_blocked s)\<rparr> else s) ds s
   = s\<lparr>dg_blocked := dg_blocked s \<union>
        {dg_key_fn s n | n d. d \<in> set ds \<and> Q d \<and> pg_node_weight G (dg_graph s) d = Some n}\<rparr>"
proof (induction ds arbitrary: s)
  case Nil
  show ?case by simp
next
  case (Cons d ds)
  show ?case
    by (cases "pg_node_weight G (dg_graph s) d"; cases "Q d")
      (auto simp: Cons.IH intro!: arg_cong [where f = "\<lambda>x. s\<lparr>dg_blocked := x\<rparr>"])
qed

lemmas block_dependents_eq = block_fold [where Q = "\<lambda>_. True", simplified]

text \<open>One round of emission sends every listed key that is neither sent nor blocked, once.\<close>

lemma dg_emit_loop_spec:
  "\<exists>new. dg_emit_loop ls s =
     s\<lparr>dg_sent := dg_sent s \<union> (fst ` set ls - dg_blocked s),
       dg_tx := dg_tx s @ map (Some \<circ> snd) new\<rparr> \<and>
     distinct (map fst new) \<and> set new \<subseteq> set ls \<and>
     fst ` set new = fst ` set ls - dg_sent s - dg_blocked s"
proof (induction ls s rule: dg_emit_loop.induct)
  case (1 s)
  show ?case by simp
next
  case (2 k n ls s)
  let ?s = "dg_send (Some n) (s\<lparr>dg_sent := insert k (dg_sent s)\<rparr>)"
  show ?case
  proof (cases "k \<in> dg_sent s \<or> k \<in> dg_blocked s")
    case True
    then obtain new where new: "dg_emit_loop ls s =
        s\<lparr>dg_sent := dg_sent s \<union> (fst ` set ls - dg_blocked s),
          dg_tx := dg_tx s @ map (Some \<circ> snd) new\<rparr>" "distinct (map fst new)" "set new \<subseteq> set ls"
        "fst ` set new = fst ` set ls - dg_sent s - dg_blocked s" using "2.IH"(1) by blast
    moreover have "dg_sent s \<union> (fst ` set ls - dg_blocked s) =
        dg_sent s \<union> (fst ` set ((k, n) # ls) - dg_blocked s)" using True by auto
    ultimately show ?thesis using True by (intro exI [of _ new]) auto
  next
    case False
    with "2.IH"(2) obtain new where new: "dg_emit_loop ls ?s =
        ?s\<lparr>dg_sent := dg_sent ?s \<union> (fst ` set ls - dg_blocked ?s),
          dg_tx := dg_tx ?s @ map (Some \<circ> snd) new\<rparr>" "distinct (map fst new)" "set new \<subseteq> set ls"
        "fst ` set new = fst ` set ls - dg_sent ?s - dg_blocked ?s" by blast
    moreover have "insert k (dg_sent s \<union> (fst ` set ls - dg_blocked s)) =
        dg_sent s \<union> (fst ` set ((k, n) # ls) - dg_blocked s)" using False by auto
    ultimately show ?thesis
      using False by (intro exI [of _ "(k, n) # new"]) (auto simp: dg_send_def)
  qed
qed

text \<open>The keys of the nodes sent on the current channel, in order.\<close>

definition dg_emitted_keys :: "('k, 'g, 'i, 'n) deps_graph \<Rightarrow> 'k list" where
  "dg_emitted_keys s = map (dg_key_fn s) (List.map_filter (\<lambda>m. m) (dg_tx s))"

text \<open>The stream of messages: nodes, then one \<^verbatim>\<open>None\<close> exactly when everything is done.\<close>

definition dg_stream_ok ::
  "('g, 'i, 'n) pg_ops \<Rightarrow> ('k, 'g, 'i, 'n) deps_graph \<Rightarrow> bool" where
  "dg_stream_ok G s \<longleftrightarrow>
     dg_tx s = map Some (List.map_filter (\<lambda>m. m) (dg_tx s)) @ (if dg_is_all_done G s then [None] else [])
     \<and> distinct (dg_emitted_keys s) \<and> set (dg_emitted_keys s) = dg_sent s"

lemma map_filter_map_Some [simp]: "List.map_filter (\<lambda>m. m) (map (Some \<circ> f) xs) = map f xs"
  by (induction xs) (simp_all add: List.map_filter_simps)

lemma map_filter_map_Some' [simp]: "List.map_filter (\<lambda>m. m) (map Some xs) = xs"
  by (induction xs) (simp_all add: List.map_filter_simps)

lemma map_filter_append [simp]:
  "List.map_filter f (xs @ ys) = List.map_filter f xs @ List.map_filter f ys"
  by (simp add: List.map_filter_def)

lemma dg_is_all_done_cong:
  "dg_is_all_done G (s\<lparr>dg_sent := a, dg_tx := b\<rparr>) = dg_is_all_done G s"
  by (simp add: dg_is_all_done_def dg_is_empty_def cong: option.case_cong)

text \<open>The key set after construction, and the edges that construction rejects.\<close>

lemma dom_add_nodes: "dom (snd (dg_add_nodes G ns g ix)) = dom ix \<union> fst ` set ns"
proof (induction ns arbitrary: g ix)
  case Nil
  show ?case by simp
next
  case (Cons p ns)
  obtain k n where p: "p = (k, n)" by fastforce
  obtain g' i where add: "pg_add_node G g n = (g', i)" by fastforce
  show ?case
    using Cons.IH [of g ix] Cons.IH [of g' "ix(k \<mapsto> i)"] p add
    by (cases "ix k") (auto simp del: fun_upd_apply)
qed

lemma add_edges_Inl:
  "dg_add_edges G ix es g = Inl e \<longleftrightarrow>
   (\<exists>a b. List.find (\<lambda>(a, b). a \<in> dom ix \<and> b \<notin> dom ix) es = Some (a, b) \<and> e = UnknownDependency a b)"
proof (induction G ix es g rule: dg_add_edges.induct)
  case (1 G ix g)
  show ?case by simp
next
  case (2 G ix a b es g)
  show ?case
  proof (cases "ix a")
    case None
    with 2 show ?thesis by auto
  next
    case (Some i)
    with 2 show ?thesis by (cases "ix b") auto
  qed
qed

section \<open>Facts that follow from the graph laws\<close>

context stable_graph
begin

lemma nodes_okD:
  assumes "nodes_ok G valid kf g ix"
  shows "valid g"
    and "ix k = Some i \<Longrightarrow> \<exists>n. pg_node_weight G g i = Some n \<and> kf n = k"
    and "pg_node_weight G g i = Some n \<Longrightarrow> ix (kf n) = Some i"
  using assms unfolding nodes_ok_def by blast+

lemma ix_node: "nodes_ok G valid kf g ix \<Longrightarrow> ix k = Some i \<Longrightarrow> i \<in> set (pg_node_indices G g)"
  using nodes_okD(2) [of kf g ix k i] weight_iff [OF nodes_okD(1), of kf g ix i] by auto

lemma node_ix:
  "nodes_ok G valid kf g ix \<Longrightarrow> i \<in> set (pg_node_indices G g) \<Longrightarrow> \<exists>k. ix k = Some i"
  using nodes_okD(3) [of kf g ix i] weight_iff [OF nodes_okD(1), of kf g ix i] by auto

lemma ix_inj: "nodes_ok G valid kf g ix \<Longrightarrow> ix a = Some i \<Longrightarrow> ix b = Some i \<Longrightarrow> a = b"
  using nodes_okD(2) [of kf g ix a i] nodes_okD(2) [of kf g ix b i] by auto

lemma finite_dom_ix: "nodes_ok G valid kf g ix \<Longrightarrow> finite (dom ix)"
proof -
  assume ok: "nodes_ok G valid kf g ix"
  have "inj_on ix (dom ix)"
    by (rule inj_onI) (use ix_inj [OF ok] in \<open>auto simp: dom_def\<close>)
  moreover have "ix ` dom ix \<subseteq> Some ` set (pg_node_indices G g)"
    using ix_node [OF ok] by (auto simp: dom_def)
  ultimately show ?thesis by (meson finite_imageD finite_imageI finite_set finite_subset)
qed

text \<open>Paths between keys are paths between their indices.\<close>

lemma key_rel_trancl:
  assumes ok: "nodes_ok G valid kf g ix"
  shows "(a, b) \<in> (key_rel G g ix)\<^sup>+ \<longleftrightarrow>
    (\<exists>i j. ix a = Some i \<and> ix b = Some j \<and> (i, j) \<in> (pg_rel G g)\<^sup>+)"
proof
  assume "(a, b) \<in> (key_rel G g ix)\<^sup>+"
  then show "\<exists>i j. ix a = Some i \<and> ix b = Some j \<and> (i, j) \<in> (pg_rel G g)\<^sup>+"
  proof (induction rule: trancl_induct)
    case (base b)
    then show ?case by (auto simp: key_rel_def)
  next
    case (step b c)
    then obtain i j k where "ix a = Some i" "ix b = Some j" "ix c = Some k"
      "(i, j) \<in> (pg_rel G g)\<^sup>+" "(j, k) \<in> pg_rel G g" by (auto simp: key_rel_def)
    then show ?case by (meson trancl_into_trancl)
  qed
next
  assume "\<exists>i j. ix a = Some i \<and> ix b = Some j \<and> (i, j) \<in> (pg_rel G g)\<^sup>+"
  then obtain i j where a: "ix a = Some i" and b: "ix b = Some j" and ij: "(i, j) \<in> (pg_rel G g)\<^sup>+"
    by blast
  from ij b show "(a, b) \<in> (key_rel G g ix)\<^sup>+"
  proof (induction arbitrary: b rule: trancl_induct)
    case (base j)
    with a show ?case by (auto simp: key_rel_def)
  next
    case (step j k)
    from edge_nodes [OF nodes_okD(1) [OF ok] step(2)] obtain c where c: "ix c = Some j"
      using node_ix [OF ok] by blast
    with step.IH have "(a, c) \<in> (key_rel G g ix)\<^sup>+" by blast
    moreover have "(c, b) \<in> key_rel G g ix" using c step by (auto simp: key_rel_def)
    ultimately show ?case by (rule trancl_into_trancl)
  qed
qed

lemma key_reaches_cycle:
  assumes ok: "nodes_ok G valid kf g ix" and a: "ix a = Some i"
  shows "a \<in> reaches_cycle (key_rel G g ix) \<longleftrightarrow> i \<in> reaches_cycle (pg_rel G g)"
proof -
  have "(\<exists>c. (a, c) \<in> (key_rel G g ix)\<^sup>+ \<and> (c, c) \<in> (key_rel G g ix)\<^sup>+) \<longleftrightarrow>
        (\<exists>j. (i, j) \<in> (pg_rel G g)\<^sup>+ \<and> (j, j) \<in> (pg_rel G g)\<^sup>+)" (is "?L \<longleftrightarrow> ?R")
  proof
    assume ?L then show ?R using a by (auto simp: key_rel_trancl [OF ok])
  next
    assume ?R
    then obtain j where j: "(i, j) \<in> (pg_rel G g)\<^sup>+" "(j, j) \<in> (pg_rel G g)\<^sup>+" by blast
    then obtain d where "(j, d) \<in> pg_rel G g" by (meson tranclD)
    then obtain c where "ix c = Some j"
      using edge_nodes [OF nodes_okD(1) [OF ok]] node_ix [OF ok] by blast
    with j a show ?L by (auto simp: key_rel_trancl [OF ok])
  qed
  moreover have "a \<in> reaches_cycle (key_rel G g ix) \<longleftrightarrow>
      (\<exists>c. (a, c) \<in> (key_rel G g ix)\<^sup>+ \<and> (c, c) \<in> (key_rel G g ix)\<^sup>+)"
    unfolding reaches_cycle_def by (auto intro: rtrancl_trancl_trancl trancl_into_rtrancl)
  moreover have "i \<in> reaches_cycle (pg_rel G g) \<longleftrightarrow>
      (\<exists>j. (i, j) \<in> (pg_rel G g)\<^sup>+ \<and> (j, j) \<in> (pg_rel G g)\<^sup>+)"
    unfolding reaches_cycle_def by (auto intro: rtrancl_trancl_trancl trancl_into_rtrancl)
  ultimately show ?thesis by simp
qed

section \<open>Construction\<close>

lemma add_node_ok:
  assumes ok: "nodes_ok G valid kf g ix" and fresh: "ix (kf n) = None"
    and add: "pg_add_node G g n = (g', i)"
  shows "nodes_ok G valid kf g' (ix(kf n \<mapsto> i))"
proof -
  note v = nodes_okD(1) [OF ok]
  have w: "pg_node_weight G g' = (pg_node_weight G g)(i \<mapsto> n)" using add_weight [OF v add] .
  have i: "pg_node_weight G g i = None" using weight_iff [OF v] add_fresh [OF v add] by blast
  have "kf m \<noteq> kf n" if "pg_node_weight G g j = Some m" for j m
    using nodes_okD(3) [OF ok that] fresh by auto
  moreover have "ix k \<noteq> Some i" for k using nodes_okD(2) [OF ok, of k i] i by auto
  ultimately show ?thesis
    unfolding nodes_ok_def w using add_valid [OF v add] nodes_okD(2,3) [OF ok] by auto
qed

lemma add_nodes_spec:
  "nodes_ok G valid kf g ix \<Longrightarrow> \<forall>(k, n)\<in>set ns. kf n = k \<Longrightarrow>
   dg_add_nodes G ns g ix = (g', ix') \<Longrightarrow>
   nodes_ok G valid kf g' ix' \<and> dom ix' = dom ix \<union> fst ` set ns \<and> pg_rel G g' = pg_rel G g"
proof (induction ns arbitrary: g ix)
  case Nil
  then show ?case by simp
next
  case (Cons p ns)
  obtain k n where p: "p = (k, n)" by fastforce
  with Cons.prems have k: "k = kf n" by auto
  show ?case
  proof (cases "ix k")
    case None
    obtain g1 i where add: "pg_add_node G g n = (g1, i)" by fastforce
    have ok: "nodes_ok G valid kf g1 (ix(k \<mapsto> i))"
      using add_node_ok [OF Cons.prems(1) _ add] None k by simp
    have rest: "dg_add_nodes G ns g1 (ix(k \<mapsto> i)) = (g', ix')"
      using Cons.prems(3) None add p by simp
    have "\<forall>(k, n)\<in>set ns. kf n = k" using Cons.prems(2) by simp
    from Cons.IH [OF ok this rest] add_rel [OF nodes_okD(1) [OF Cons.prems(1)] add] p
    show ?thesis by (auto split: if_splits)
  next
    case (Some i)
    then have "k \<in> dom ix" by auto
    with Some Cons p show ?thesis by auto
  qed
qed

lemma update_edge_ok:
  assumes ok: "nodes_ok G valid kf g ix" and "ix a = Some i" "ix b = Some j"
  shows "nodes_ok G valid kf (pg_update_edge G g i j) ix"
    and "key_rel G (pg_update_edge G g i j) ix = insert (a, b) (key_rel G g ix)"
proof -
  note v = nodes_okD(1) [OF ok] and n = ix_node [OF ok assms(2)] ix_node [OF ok assms(3)]
  show "nodes_ok G valid kf (pg_update_edge G g i j) ix"
    using ok upd_valid [OF v n] unfolding nodes_ok_def by (simp add: upd_weight [OF v n])
  show "key_rel G (pg_update_edge G g i j) ix = insert (a, b) (key_rel G g ix)"
    using assms(2,3) ix_inj [OF ok _ assms(2)] ix_inj [OF ok _ assms(3)]
    unfolding key_rel_def upd_rel [OF v n] by blast
qed

lemma add_edges_spec:
  "nodes_ok G valid kf g ix \<Longrightarrow> dg_add_edges G ix es g = Inr g' \<Longrightarrow>
   nodes_ok G valid kf g' ix \<and>
   key_rel G g' ix = key_rel G g ix \<union> {(a, b) \<in> set es. a \<in> dom ix \<and> a \<noteq> b}"
proof (induction es arbitrary: g)
  case Nil
  then show ?case by simp
next
  case (Cons e es)
  obtain a b where e: "e = (a, b)" by fastforce
  show ?case
  proof (cases "ix a")
    case None
    with Cons.prems e have "dg_add_edges G ix es g = Inr g'" by simp
    note IH = Cons.IH [OF Cons.prems(1) this]
    have "{(x, y) \<in> set (e # es). x \<in> dom ix \<and> x \<noteq> y} = {(x, y) \<in> set es. x \<in> dom ix \<and> x \<noteq> y}"
      using None e by auto
    with IH show ?thesis by simp
  next
    case (Some i)
    with Cons.prems e obtain j where j: "ix b = Some j" by (auto split: option.splits)
    let ?g = "if a \<noteq> b then pg_update_edge G g i j else g"
    have ok: "nodes_ok G valid kf ?g ix"
      and rel: "key_rel G ?g ix = (if a \<noteq> b then insert (a, b) (key_rel G g ix) else key_rel G g ix)"
      using update_edge_ok [OF Cons.prems(1) Some j] Cons.prems(1) by auto
    have "dg_add_edges G ix es ?g = Inr g'" using Cons.prems(2) e Some j by simp
    note IH = Cons.IH [OF ok this]
    have "{(x, y) \<in> set (e # es). x \<in> dom ix \<and> x \<noteq> y} =
        (if a \<noteq> b then insert (a, b) else id) {(x, y) \<in> set es. x \<in> dom ix \<and> x \<noteq> y}"
      using Some e by auto
    with IH rel show ?thesis by simp
  qed
qed

lemma cycle_free_iff_can:
  assumes v: "valid g" and i: "i \<in> set (pg_node_indices G g)"
  shows "i \<in> dg_propagate G g (dg_leaf_seed G g) \<longleftrightarrow> i \<notin> reaches_cycle (pg_rel G g)"
proof -
  let ?can = "dg_propagate G g (dg_leaf_seed G g)" and ?R = "pg_rel G g"
  have seed: "dg_leaf_seed G g = {i \<in> set (pg_node_indices G g). pg_outgoing G g i = []}"
    by (auto simp: dg_leaf_seed_def)
  have "dg_leaf_seed G g \<inter> reaches_cycle ?R = {}"
    using reaches_cycle_step [of _ ?R] by (auto simp: seed outgoing_Nil)
  then have sound: "?can \<inter> reaches_cycle ?R = {}" by (rule dg_propagate_sound)
  have "set (pg_node_indices G g) - ?can \<subseteq> reaches_cycle ?R"
  proof (rule no_leaf_reaches_cycle)
    fix u assume u: "u \<in> set (pg_node_indices G g) - ?can"
    with dg_propagate_fix [of "dg_leaf_seed G g" G g] seed obtain d
      where d: "(u, d) \<in> ?R" "d \<notin> ?can" by blast
    then show "\<exists>d\<in>set (pg_node_indices G g) - ?can. (u, d) \<in> ?R"
      using edge_nodes [OF v] by blast
  qed simp
  with sound i show ?thesis by blast
qed

lemma acyclic_no_reach: "acyclic R \<Longrightarrow> reaches_cycle R = {}"
  by (auto simp: reaches_cycle_def acyclic_def)

lemma detect_cycles_spec:
  assumes ok: "dg_wf G valid s" and "dg_blocked s = {}"
  shows "dg_detect_and_block_cycles G s = s\<lparr>dg_blocked := reaches_cycle (sc_rel (dg_abs G s))\<rparr>"
proof -
  let ?g = "dg_graph s" and ?ix = "dg_node_indices s"
  let ?can = "dg_propagate G ?g (dg_leaf_seed G ?g)"
  have ok': "nodes_ok G valid (dg_key_fn s) ?g ?ix" using ok by (simp add: dg_wf_def)
  note v = nodes_okD(1) [OF ok']
  have "{dg_key_fn s n | n d. d \<in> set (pg_node_indices G ?g) \<and> d \<notin> ?can \<and>
           pg_node_weight G ?g d = Some n} = reaches_cycle (key_rel G ?g ?ix)" (is "?B = ?C")
  proof (intro equalityI subsetI)
    fix k assume "k \<in> ?B"
    then obtain n d where "k = dg_key_fn s n" "d \<in> set (pg_node_indices G ?g)" "d \<notin> ?can"
      "pg_node_weight G ?g d = Some n" by blast
    then show "k \<in> ?C"
      using cycle_free_iff_can [OF v] key_reaches_cycle [OF ok'] nodes_okD(3) [OF ok'] by auto
  next
    fix k assume k: "k \<in> ?C"
    then obtain i where i: "?ix k = Some i"
      using reaches_cycle_step [OF k] by (auto simp: key_rel_def)
    then obtain n where n: "pg_node_weight G ?g i = Some n" "dg_key_fn s n = k"
      using nodes_okD(2) [OF ok'] by blast
    moreover have "i \<in> set (pg_node_indices G ?g)" using ix_node [OF ok' i] .
    moreover from this have "i \<notin> ?can"
      using cycle_free_iff_can [OF v] key_reaches_cycle [OF ok' i] k by blast
    ultimately show "k \<in> ?B" by blast
  qed
  moreover have "reaches_cycle (key_rel G ?g ?ix) = {}" if "acyclic (pg_rel G ?g)"
    using acyclic_no_reach [OF that] key_reaches_cycle [OF ok'] reaches_cycle_step
    by (fastforce simp: key_rel_def)
  ultimately show ?thesis
    using assms(2) cyclic [OF v]
    by (auto simp: dg_detect_and_block_cycles_def Let_def block_fold [where Q = "\<lambda>i. i \<notin> ?can"])
qed

lemma nodes_ok_new: "nodes_ok G valid kf (pg_new G) Map.empty"
  using weight_iff [OF new_valid] new_nodes by (auto simp: nodes_ok_def new_valid)

lemma new_spec:
  assumes "dg_new G nodes edges kf = Inr s" and keys: "\<forall>(k, n)\<in>set nodes. kf n = k"
  shows "dg_wf G valid s" and "dg_key_fn s = kf" and "dg_tx s = []"
    and "dg_abs G s = sc_init (fst ` set nodes) {(a, b) \<in> set edges. a \<in> fst ` set nodes \<and> a \<noteq> b}"
proof -
  obtain g ix where add: "dg_add_nodes G nodes (pg_new G) Map.empty = (g, ix)" by fastforce
  with assms(1) obtain g' where edges: "dg_add_edges G ix edges g = Inr g'"
    by (auto simp: dg_new_def split: sum.splits)
  let ?s = "\<lparr>dg_graph = g', dg_node_indices = ix, dg_sent = {}, dg_blocked = {},
             dg_tx = [], dg_key_fn = kf\<rparr>"
  have s: "s = dg_detect_and_block_cycles G ?s"
    using assms(1) add edges by (simp add: dg_new_def)
  from add_nodes_spec [OF nodes_ok_new keys add]
  have ok: "nodes_ok G valid kf g ix" and dom: "dom ix = fst ` set nodes"
    and rel0: "key_rel G g ix = {}" by (auto simp: new_rel key_rel_def)
  from add_edges_spec [OF ok edges] have ok': "nodes_ok G valid kf g' ix"
    and rel: "key_rel G g' ix = {(a, b) \<in> set edges. a \<in> fst ` set nodes \<and> a \<noteq> b}"
    using rel0 dom by simp_all
  have "dg_wf G valid ?s" using ok' by (simp add: dg_wf_def)
  from detect_cycles_spec [OF this]
  have s': "s = ?s\<lparr>dg_blocked := reaches_cycle (key_rel G g' ix)\<rparr>" by (simp add: s)
  show "dg_wf G valid s" "dg_key_fn s = kf" "dg_tx s = []"
    using ok' by (simp_all add: s' dg_wf_def)
  show "dg_abs G s = sc_init (fst ` set nodes)
      {(a, b) \<in> set edges. a \<in> fst ` set nodes \<and> a \<noteq> b}"
    by (simp add: s' dg_abs_def sc_init_def dom rel)
qed

section \<open>Emission\<close>

lemma find_leaves_spec:
  assumes wf: "dg_wf G valid s"
  shows "set (dg_find_leaves G s) =
    {(k, n). \<exists>i. dg_node_indices s k = Some i \<and> pg_node_weight G (dg_graph s) i = Some n \<and>
       dg_key_fn s n = k \<and> (\<forall>j. (k, j) \<notin> sc_rel (dg_abs G s))}"
proof -
  let ?g = "dg_graph s" and ?ix = "dg_node_indices s"
  have ok: "nodes_ok G valid (dg_key_fn s) ?g ?ix" using wf by (simp add: dg_wf_def)
  note v = nodes_okD(1) [OF ok]
  have leaf: "(\<forall>j. (i, j) \<notin> pg_rel G ?g) \<longleftrightarrow> (\<forall>b. (k, b) \<notin> key_rel G ?g ?ix)"
    if "?ix k = Some i" for k i
  proof
    assume "\<forall>j. (i, j) \<notin> pg_rel G ?g"
    then show "\<forall>b. (k, b) \<notin> key_rel G ?g ?ix" using that by (auto simp: key_rel_def)
  next
    assume k: "\<forall>b. (k, b) \<notin> key_rel G ?g ?ix"
    show "\<forall>j. (i, j) \<notin> pg_rel G ?g"
    proof (rule allI, rule notI)
      fix j assume e: "(i, j) \<in> pg_rel G ?g"
      obtain b where "?ix b = Some j" using edge_nodes [OF v e] node_ix [OF ok] by blast
      with e that k show False by (auto simp: key_rel_def)
    qed
  qed
  have leaves: "(k, n) \<in> set (dg_find_leaves G s) \<longleftrightarrow>
      (\<exists>i\<in>set (pg_node_indices G ?g). (\<forall>j. (i, j) \<notin> pg_rel G ?g) \<and>
         pg_node_weight G ?g i = Some n \<and> dg_key_fn s n = k)" for k n
    by (auto simp: dg_find_leaves_def in_set_map_filter externals [OF v] outgoing_Nil)
  show ?thesis
  proof (intro set_eqI iffI; clarify)
    fix k n assume "(k, n) \<in> set (dg_find_leaves G s)"
    then obtain i where i: "\<forall>j. (i, j) \<notin> pg_rel G ?g" "pg_node_weight G ?g i = Some n"
      and k: "dg_key_fn s n = k" using leaves by blast
    have "?ix k = Some i" using nodes_okD(3) [OF ok i(2)] k by simp
    then show "\<exists>i. ?ix k = Some i \<and> pg_node_weight G ?g i = Some n \<and> dg_key_fn s n = k \<and>
        (\<forall>j. (k, j) \<notin> sc_rel (dg_abs G s))" using i k leaf by auto
  next
    fix n i assume a: "?ix (dg_key_fn s n) = Some i" "pg_node_weight G ?g i = Some n"
      "\<forall>j. (dg_key_fn s n, j) \<notin> sc_rel (dg_abs G s)"
    then show "(dg_key_fn s n, n) \<in> set (dg_find_leaves G s)"
      using leaf [OF a(1)] ix_node [OF ok a(1)] leaves by auto
  qed
qed

lemma all_done_spec:
  assumes wf: "dg_wf G valid s"
  shows "dg_is_all_done G s \<longleftrightarrow> sc_done (dg_abs G s)"
proof -
  let ?g = "dg_graph s" and ?ix = "dg_node_indices s"
  have ok: "nodes_ok G valid (dg_key_fn s) ?g ?ix" using wf by (simp add: dg_wf_def)
  note v = nodes_okD(1) [OF ok]
  have "sc_done (dg_abs G s) \<longleftrightarrow>
      (\<forall>i\<in>set (pg_node_indices G ?g). \<forall>n. pg_node_weight G ?g i = Some n \<longrightarrow> dg_key_fn s n \<in> dg_blocked s)"
  proof
    assume "sc_done (dg_abs G s)"
    then show "\<forall>i\<in>set (pg_node_indices G ?g). \<forall>n. pg_node_weight G ?g i = Some n \<longrightarrow>
        dg_key_fn s n \<in> dg_blocked s"
      using nodes_okD(3) [OF ok] by (auto simp: sc_done_def)
  next
    assume all: "\<forall>i\<in>set (pg_node_indices G ?g). \<forall>n. pg_node_weight G ?g i = Some n \<longrightarrow>
        dg_key_fn s n \<in> dg_blocked s"
    show "sc_done (dg_abs G s)"
      unfolding sc_done_def
    proof
      fix k assume "k \<in> sc_pending (dg_abs G s)"
      then obtain i where i: "?ix k = Some i" by auto
      then obtain n where "pg_node_weight G ?g i = Some n" "dg_key_fn s n = k"
        using nodes_okD(2) [OF ok] by blast
      with all ix_node [OF ok i] show "k \<in> sc_blocked (dg_abs G s)" by auto
    qed
  qed
  moreover have "dg_is_empty G s \<longleftrightarrow> pg_node_indices G ?g = []"
    by (simp add: dg_is_empty_def node_count [OF v])
  ultimately show ?thesis
    by (auto simp: dg_is_all_done_def list_all_iff split: option.splits)
qed

lemma emit_leaves_spec:
  assumes wf: "dg_wf G valid s"
  shows "dg_abs G (dg_emit_leaves G s) = sc_emit (dg_abs G s)"
    and "dg_wf G valid (dg_emit_leaves G s)"
    and "dg_key_fn (dg_emit_leaves G s) = dg_key_fn s"
    and "\<exists>new. dg_tx (dg_emit_leaves G s) =
           dg_tx s @ map Some new @ (if dg_is_all_done G (dg_emit_leaves G s) then [None] else []) \<and>
         distinct (map (dg_key_fn s) new) \<and>
         dg_key_fn s ` set new = sc_ready (dg_abs G s) - dg_sent s"
proof -
  let ?ls = "dg_find_leaves G s"
  let ?A = "dg_sent s \<union> (fst ` set ?ls - dg_blocked s)"
  obtain new where new: "dg_emit_loop ?ls s =
      s\<lparr>dg_sent := ?A, dg_tx := dg_tx s @ map (Some \<circ> snd) new\<rparr>" "distinct (map fst new)"
      "set new \<subseteq> set ?ls" "fst ` set new = fst ` set ?ls - dg_sent s - dg_blocked s"
    using dg_emit_loop_spec [of ?ls s] by metis
  have keys: "dg_key_fn s n = k" if "(k, n) \<in> set ?ls" for k n
    using that by (auto simp: find_leaves_spec [OF wf])
  have fst_leaves: "fst ` set ?ls = {k \<in> dom (dg_node_indices s). \<forall>j. (k, j) \<notin> sc_rel (dg_abs G s)}"
  proof (intro equalityI subsetI)
    fix k assume "k \<in> fst ` set ?ls"
    then show "k \<in> {k \<in> dom (dg_node_indices s). \<forall>j. (k, j) \<notin> sc_rel (dg_abs G s)}"
      by (auto simp: find_leaves_spec [OF wf])
  next
    fix k assume k: "k \<in> {k \<in> dom (dg_node_indices s). \<forall>j. (k, j) \<notin> sc_rel (dg_abs G s)}"
    then obtain i where "dg_node_indices s k = Some i" by auto
    moreover from this obtain n where "pg_node_weight G (dg_graph s) i = Some n" "dg_key_fn s n = k"
      using nodes_okD(2) [OF wf [unfolded dg_wf_def]] by blast
    ultimately have "(k, n) \<in> set ?ls" using k by (simp add: find_leaves_spec [OF wf])
    then show "k \<in> fst ` set ?ls" by force
  qed
  have em: "dg_emit_leaves G s = s\<lparr>dg_sent := ?A, dg_tx := dg_tx s @ map (Some \<circ> snd) new
      @ (if dg_is_all_done G s then [None] else [])\<rparr>"
    by (simp add: dg_emit_leaves_def new(1) dg_is_all_done_cong dg_send_def)
  show "dg_abs G (dg_emit_leaves G s) = sc_emit (dg_abs G s)"
    by (auto simp: em dg_abs_def sc_emit_def sc_ready_def fst_leaves)
  show "dg_wf G valid (dg_emit_leaves G s)" "dg_key_fn (dg_emit_leaves G s) = dg_key_fn s"
    using wf by (simp_all add: em dg_wf_def)
  have mapfst: "map (dg_key_fn s) (map snd new) = map fst new"
    using keys new(3) by auto
  then have "dg_key_fn s ` set (map snd new) = fst ` set new" by (metis list.set_map)
  then have "dg_key_fn s ` set (map snd new) = sc_ready (dg_abs G s) - dg_sent s"
    using new(4) by (auto simp: sc_ready_def fst_leaves)
  moreover have "distinct (map (dg_key_fn s) (map snd new))" using new(2) unfolding mapfst .
  moreover have "dg_tx (dg_emit_leaves G s) = dg_tx s @ map Some (map snd new) @
      (if dg_is_all_done G (dg_emit_leaves G s) then [None] else [])"
    by (simp add: em dg_is_all_done_cong)
  ultimately show "\<exists>new. dg_tx (dg_emit_leaves G s) =
           dg_tx s @ map Some new @ (if dg_is_all_done G (dg_emit_leaves G s) then [None] else []) \<and>
         distinct (map (dg_key_fn s) new) \<and>
         dg_key_fn s ` set new = sc_ready (dg_abs G s) - dg_sent s" by blast
qed

section \<open>Completion\<close>

lemma remove_node_spec:
  assumes wf: "dg_wf G valid s"
  shows "dg_abs G (dg_remove_node G k s) = sc_drop k (dg_abs G s)"
    and "dg_wf G valid (dg_remove_node G k s)"
    and "dg_key_fn (dg_remove_node G k s) = dg_key_fn s"
    and "dg_tx (dg_remove_node G k s) = dg_tx s"
proof -
  let ?g = "dg_graph s" and ?ix = "dg_node_indices s"
  have ok: "nodes_ok G valid (dg_key_fn s) ?g ?ix" using wf by (simp add: dg_wf_def)
  note v = nodes_okD(1) [OF ok]
  show "dg_key_fn (dg_remove_node G k s) = dg_key_fn s" "dg_tx (dg_remove_node G k s) = dg_tx s"
    by (simp_all add: dg_remove_node_def split: option.splits)
  show "dg_abs G (dg_remove_node G k s) = sc_drop k (dg_abs G s)"
  proof (cases "?ix k")
    case None
    then have "(a, b) \<in> key_rel G ?g ?ix \<Longrightarrow> a \<noteq> k \<and> b \<noteq> k" for a b by (auto simp: key_rel_def)
    with None show ?thesis by (auto simp: dg_remove_node_def dg_abs_def sc_drop_def dom_def)
  next
    case (Some i)
    note n = ix_node [OF ok Some]
    have "key_rel G (pg_remove_node G ?g i) (?ix(k := None)) =
        {(x, y) \<in> key_rel G ?g ?ix. x \<noteq> k \<and> y \<noteq> k}"
    proof (intro set_eqI iffI; clarify)
      fix a b assume "(a, b) \<in> key_rel G (pg_remove_node G ?g i) (?ix(k := None))"
      then show "(a, b) \<in> key_rel G ?g ?ix \<and> a \<noteq> k \<and> b \<noteq> k"
        by (auto simp: key_rel_def rem_rel [OF v n] split: if_splits)
    next
      fix a b assume ab: "(a, b) \<in> key_rel G ?g ?ix" "a \<noteq> k" "b \<noteq> k"
      then obtain x y where "?ix a = Some x" "?ix b = Some y" "(x, y) \<in> pg_rel G ?g"
        by (auto simp: key_rel_def)
      moreover from this have "x \<noteq> i" "y \<noteq> i" using ix_inj [OF ok _ Some] ab by blast+
      ultimately show "(a, b) \<in> key_rel G (pg_remove_node G ?g i) (?ix(k := None))"
        using ab by (simp add: key_rel_def rem_rel [OF v n])
    qed
    with Some show ?thesis by (auto simp: dg_remove_node_def dg_abs_def sc_drop_def)
  qed
  show "dg_wf G valid (dg_remove_node G k s)"
  proof (cases "?ix k")
    case None
    with wf show ?thesis by (simp add: dg_remove_node_def)
  next
    case (Some i)
    note n = ix_node [OF ok Some]
    have "?ix a = Some i \<Longrightarrow> a = k" for a using ix_inj [OF ok _ Some] .
    moreover have "dg_key_fn s m \<noteq> k" if "pg_node_weight G ?g j = Some m" "j \<noteq> i" for j m
      using nodes_okD(3) [OF ok that(1)] that(2) Some by auto
    ultimately have "nodes_ok G valid (dg_key_fn s) (pg_remove_node G ?g i) (?ix(k := None))"
      unfolding nodes_ok_def rem_weight [OF v n]
      using rem_valid [OF v n] nodes_okD(2,3) [OF ok] by (auto split: if_splits)
    with Some show ?thesis by (simp add: dg_remove_node_def dg_wf_def)
  qed
qed

text \<open>The worklist for the transitive dependents ends, with exactly the nodes from which
  the start node can be reached.\<close>

lemma dependents_loop_spec:
  assumes v: "valid g"
  shows "distinct dep \<Longrightarrow> set dep \<subseteq> {j. (j, start) \<in> (pg_rel G g)\<^sup>+} \<Longrightarrow>
    set st \<subseteq> insert start (set dep) \<Longrightarrow>
    \<forall>x\<in>insert start (set dep) - set st. \<forall>j. (j, x) \<in> pg_rel G g \<longrightarrow> j \<in> set dep \<Longrightarrow>
    \<exists>ds. dg_dependents_loop G g dep st = Some ds \<and> set ds = {j. (j, start) \<in> (pg_rel G g)\<^sup>+}"
proof (induction "2 * (card (set (pg_node_indices G g)) - length dep) + length st"
    arbitrary: dep st rule: less_induct)
  case less
  let ?R = "pg_rel G g" and ?N = "set (pg_node_indices G g)"
  show ?case
  proof (cases st)
    case Nil
    have closed: "j \<in> set dep" if "(j, x) \<in> ?R" "x \<in> insert start (set dep)" for j x
      using less.prems(4) that Nil by auto
    have "j \<in> set dep" if "(j, start) \<in> ?R\<^sup>+" for j
      using that by (induction rule: converse_trancl_induct) (use closed in auto)
    with Nil less.prems(2) show ?thesis by (auto simp: dg_dependents_loop.simps)
  next
    case (Cons i rest)
    obtain new where new: "dg_push_dependents (pg_incoming G g i) dep rest = (dep @ new, rev new @ rest)"
      "distinct new" "set new = set (pg_incoming G g i) - set dep"
      using dg_push_dependents_spec [of "pg_incoming G g i" dep rest] by metis
    have setnew: "set new = {j. (j, i) \<in> ?R} - set dep" using new(3) incoming [OF v] by auto
    have eq: "dg_dependents_loop G g dep st = dg_dependents_loop G g (dep @ new) (rev new @ rest)"
      using new(1) Cons by (subst dg_dependents_loop.simps) simp
    have i: "(i, start) \<in> ?R\<^sup>*"
      using less.prems(2,3) Cons by (auto dest: trancl_into_rtrancl)
    have dep': "set (dep @ new) \<subseteq> {j. (j, start) \<in> ?R\<^sup>+}"
      using less.prems(2) setnew i by (auto intro: rtrancl_into_trancl2)
    have dis: "distinct (dep @ new)" using less.prems(1) new(2,3) by auto
    have "set (dep @ new) \<subseteq> ?N"
      using dep' edge_nodes [OF v] by (auto dest!: tranclD)
    then have "length (dep @ new) \<le> card ?N"
      using dis by (metis card_mono distinct_card finite_set)
    then have smaller: "2 * (card ?N - length (dep @ new)) + length (rev new @ rest)
        < 2 * (card ?N - length dep) + length st" using Cons by simp
    show ?thesis
      unfolding eq
    proof (rule less.hyps [OF smaller dis dep'])
      show "set (rev new @ rest) \<subseteq> insert start (set (dep @ new))"
        using less.prems(3) Cons by auto
      show "\<forall>x\<in>insert start (set (dep @ new)) - set (rev new @ rest).
          \<forall>j. (j, x) \<in> ?R \<longrightarrow> j \<in> set (dep @ new)"
      proof (intro ballI allI impI)
        fix x j
        assume x: "x \<in> insert start (set (dep @ new)) - set (rev new @ rest)" and e: "(j, x) \<in> ?R"
        show "j \<in> set (dep @ new)"
        proof (cases "x = i")
          case True
          with e setnew show ?thesis by auto
        next
          case False
          with x Cons have "x \<in> insert start (set dep) - set st" by auto
          with less.prems(4) e show ?thesis by simp
        qed
      qed
    qed
  qed
qed

lemma transitive_dependents_spec:
  "valid g \<Longrightarrow> \<exists>ds. dg_get_transitive_dependents G g i = Some ds \<and>
     set ds = {j. (j, i) \<in> (pg_rel G g)\<^sup>+}"
  unfolding dg_get_transitive_dependents_def by (rule dependents_loop_spec) auto

lemma complete_failure_spec:
  assumes wf: "dg_wf G valid s"
  shows "\<exists>t. dg_wf G valid t \<and> dg_abs G t = sc_drop k (sc_block k (dg_abs G s)) \<and>
    dg_key_fn t = dg_key_fn s \<and> dg_tx t = dg_tx s \<and>
    dg_complete_failure G k s = Some (dg_emit_leaves G t)"
proof (cases "dg_node_indices s k")
  case None
  have ok: "nodes_ok G valid (dg_key_fn s) (dg_graph s) (dg_node_indices s)"
    using wf by (simp add: dg_wf_def)
  have "sc_block k (dg_abs G s) = dg_abs G s"
    using None by (simp add: sc_block_def key_rel_trancl [OF ok])
  with None wf remove_node_spec [OF wf, of k] show ?thesis
    by (auto simp: dg_complete_failure_def)
next
  case (Some i)
  let ?g = "dg_graph s" and ?ix = "dg_node_indices s"
  have ok: "nodes_ok G valid (dg_key_fn s) ?g ?ix" using wf by (simp add: dg_wf_def)
  obtain ds where ds: "dg_get_transitive_dependents G ?g i = Some ds"
    "set ds = {j. (j, i) \<in> (pg_rel G ?g)\<^sup>+}"
    using transitive_dependents_spec [OF nodes_okD(1) [OF ok]] by blast
  let ?B = "{dg_key_fn s n | n d. d \<in> set ds \<and> pg_node_weight G ?g d = Some n}"
  have "?B = {j. (j, k) \<in> (key_rel G ?g ?ix)\<^sup>+}"
  proof (intro equalityI subsetI)
    fix j assume "j \<in> ?B"
    then show "j \<in> {j. (j, k) \<in> (key_rel G ?g ?ix)\<^sup>+}"
      using Some ds nodes_okD(3) [OF ok] by (auto simp: key_rel_trancl [OF ok])
  next
    fix j assume "j \<in> {j. (j, k) \<in> (key_rel G ?g ?ix)\<^sup>+}"
    then obtain d where d: "?ix j = Some d" "d \<in> set ds"
      using Some ds by (auto simp: key_rel_trancl [OF ok])
    with nodes_okD(2) [OF ok d(1)] show "j \<in> ?B" by blast
  qed
  then have blk: "dg_block_dependents G ds s =
      s\<lparr>dg_blocked := dg_blocked s \<union> {j. (j, k) \<in> (key_rel G ?g ?ix)\<^sup>+}\<rparr>"
    unfolding dg_block_dependents_def by (subst block_dependents_eq) simp
  let ?t = "dg_block_dependents G ds s"
  have "dg_abs G ?t = sc_block k (dg_abs G s)" and wft: "dg_wf G valid ?t"
    and "dg_key_fn ?t = dg_key_fn s" "dg_tx ?t = dg_tx s"
    using wf by (simp_all add: blk dg_abs_def sc_block_def dg_wf_def)
  with remove_node_spec [OF wft, of k] Some ds(1) show ?thesis
    by (intro exI [of _ "dg_remove_node G k ?t"]) (simp add: dg_complete_failure_def)
qed

section \<open>Runs\<close>

lemma stream_ok_emit:
  assumes wf: "dg_wf G valid s" and tx: "dg_tx s = map Some ns"
    and keys: "distinct (map (dg_key_fn s) ns)" "set (map (dg_key_fn s) ns) = dg_sent s"
  shows "dg_stream_ok G (dg_emit_leaves G s)"
proof -
  let ?e = "dg_emit_leaves G s"
  obtain new where new: "dg_tx ?e = dg_tx s @ map Some new @ (if dg_is_all_done G ?e then [None] else [])"
    "distinct (map (dg_key_fn s) new)" "dg_key_fn s ` set new = sc_ready (dg_abs G s) - dg_sent s"
    using emit_leaves_spec(4) [OF wf] by metis
  have sent: "dg_sent ?e = dg_sent s \<union> sc_ready (dg_abs G s)"
    using arg_cong [OF emit_leaves_spec(1) [OF wf], of sc_sent] by (simp add: sc_emit_def)
  have mf: "List.map_filter (\<lambda>m. m) (dg_tx ?e) = ns @ new"
    by (simp add: new(1) tx List.map_filter_simps)
  have "dg_tx ?e = map Some (ns @ new) @ (if dg_is_all_done G ?e then [None] else [])"
    by (simp add: new(1) tx)
  moreover have "dg_emitted_keys ?e = map (dg_key_fn s) (ns @ new)"
    by (simp add: dg_emitted_keys_def mf emit_leaves_spec(3) [OF wf])
  moreover have "distinct (map (dg_key_fn s) (ns @ new))"
    using keys new(2,3) by auto
  moreover have "set (map (dg_key_fn s) (ns @ new)) = dg_sent ?e"
    using keys new(3) unfolding sent by auto
  ultimately show ?thesis by (simp add: dg_stream_ok_def mf)
qed

lemma not_done_if_in_flight:
  assumes wf: "dg_wf G valid s" and inv: "sc_inv P D F (dg_abs G s)" and k: "k \<in> dg_in_flight s"
  shows "\<not> dg_is_all_done G s"
proof -
  have "k \<in> sc_ready (dg_abs G s)"
    using sc_invD(5) [OF inv] k by (auto simp: dg_in_flight_def)
  then show ?thesis unfolding all_done_spec [OF wf] by (auto simp: sc_done_def sc_ready_def)
qed

text \<open>Every reachable state is well formed, follows the specification, and has a correct stream.\<close>

lemma reach_spec:
  assumes keys: "\<forall>(k, n)\<in>set nodes. kf n = k"
    and P: "P = fst ` set nodes" and D: "D = {(a, b) \<in> set edges. a \<in> P \<and> a \<noteq> b}"
    and sub: "D \<subseteq> P \<times> P" and reach: "dg_reach G nodes edges kf F s"
  shows "dg_wf G valid s \<and> sc_reach P D F (dg_abs G s) \<and> dg_stream_ok G s \<and> dg_key_fn s = kf"
  using reach
proof (induction rule: dg_reach.induct)
  case (dg_start s)
  let ?s = "s\<lparr>dg_tx := []\<rparr>"
  note new = new_spec [OF dg_start keys, folded P, folded D]
  have wf: "dg_wf G valid ?s" and abs: "dg_abs G ?s = sc_init P D"
    using new by (simp_all add: dg_wf_def dg_abs_def)
  have "dg_sent s = {}" using arg_cong [OF new(4), of sc_sent] by (simp add: sc_init_def)
  then have "dg_stream_ok G (dg_subscribe G s)"
    unfolding dg_subscribe_def using stream_ok_emit [OF wf, of "[]"] by simp
  then show ?case
    using emit_leaves_spec [OF wf] new(2) sc_reach.sc_start [of P D]
    by (simp add: dg_subscribe_def abs)
next
  case (dg_succ F s k)
  let ?r = "dg_remove_node G k s"
  have wf: "dg_wf G valid s" and inv: "sc_inv P D F (dg_abs G s)" and st: "dg_stream_ok G s"
    using dg_succ.IH sc_reach_inv [OF sub] by blast+
  note rem = remove_node_spec [OF wf, of k]
  have "dg_sent ?r = dg_sent s" using arg_cong [OF rem(1), of sc_sent] by (simp add: sc_drop_def)
  then have "dg_stream_ok G (dg_complete_success G k s)"
    unfolding dg_complete_success_def
    using stream_ok_emit [OF rem(2), of "List.map_filter (\<lambda>m. m) (dg_tx s)"] st rem(3,4)
      not_done_if_in_flight [OF wf inv dg_succ.hyps(2)]
    by (simp add: dg_stream_ok_def dg_emitted_keys_def)
  moreover have "sc_reach P D F (sc_success k (dg_abs G s))"
    using dg_succ.IH dg_succ.hyps(2)
    by (intro sc_reach.sc_succ) (auto simp: sc_in_flight_def dg_in_flight_def)
  ultimately show ?case
    using emit_leaves_spec [OF rem(2)] rem dg_succ.IH
    by (simp add: dg_complete_success_def sc_success_def)
next
  case (dg_fail F s k u)
  have wf: "dg_wf G valid s" and inv: "sc_inv P D F (dg_abs G s)" and st: "dg_stream_ok G s"
    using dg_fail.IH sc_reach_inv [OF sub] by blast+
  obtain t where t: "dg_wf G valid t" "dg_abs G t = sc_drop k (sc_block k (dg_abs G s))"
    "dg_key_fn t = dg_key_fn s" "dg_tx t = dg_tx s" "u = dg_emit_leaves G t"
    using complete_failure_spec [OF wf, of k] dg_fail.hyps(3) by auto
  have "dg_sent t = dg_sent s"
    using arg_cong [OF t(2), of sc_sent] by (simp add: sc_drop_def sc_block_def)
  then have "dg_stream_ok G u"
    unfolding t(5) using stream_ok_emit [OF t(1), of "List.map_filter (\<lambda>m. m) (dg_tx s)"] st t(3,4)
      not_done_if_in_flight [OF wf inv dg_fail.hyps(2)]
    by (simp add: dg_stream_ok_def dg_emitted_keys_def)
  moreover have "sc_reach P D (insert k F) (sc_failure k (dg_abs G s))"
    using dg_fail.IH dg_fail.hyps(2)
    by (intro sc_reach.sc_fail) (auto simp: sc_in_flight_def dg_in_flight_def)
  ultimately show ?case
    using emit_leaves_spec [OF t(1)] t dg_fail.IH by (simp add: sc_failure_def)
qed

text \<open>A report takes exactly the reported key out of the index map.\<close>

lemma reports_pending:
  assumes wf: "dg_wf G valid s"
  shows "dom (dg_node_indices (dg_complete_success G k s)) = dom (dg_node_indices s) - {k}"
    and "\<exists>t. dg_complete_failure G k s = Some t \<and> dom (dg_node_indices t) = dom (dg_node_indices s) - {k}"
proof -
  note rem = remove_node_spec [OF wf, of k]
  show "dom (dg_node_indices (dg_complete_success G k s)) = dom (dg_node_indices s) - {k}"
    using arg_cong [OF emit_leaves_spec(1) [OF rem(2)], of sc_pending]
    by (simp add: dg_complete_success_def rem(1) sc_emit_def sc_drop_def)
  obtain t where "dg_wf G valid t" "dg_abs G t = sc_drop k (sc_block k (dg_abs G s))"
    "dg_complete_failure G k s = Some (dg_emit_leaves G t)"
    using complete_failure_spec [OF wf] by blast
  then show "\<exists>t. dg_complete_failure G k s = Some t \<and>
      dom (dg_node_indices t) = dom (dg_node_indices s) - {k}"
    using arg_cong [OF emit_leaves_spec(1), of t sc_pending]
    by (simp add: sc_emit_def sc_drop_def sc_block_def)
qed

lemma finite_dom_indices: "dg_wf G valid s \<Longrightarrow> finite (dom (dg_node_indices s))"
  unfolding dg_wf_def by (rule finite_dom_ix)

lemma blocked_keys_spec:
  assumes wf: "dg_wf G valid s"
  shows "set (dg_blocked_keys G s) = dg_blocked s \<inter> dom (dg_node_indices s)"
proof -
  let ?g = "dg_graph s" and ?ix = "dg_node_indices s"
  have ok: "nodes_ok G valid (dg_key_fn s) ?g ?ix" using wf by (simp add: dg_wf_def)
  have mem: "k \<in> set (dg_blocked_keys G s) \<longleftrightarrow> k \<in> dg_blocked s \<and>
      (\<exists>i\<in>set (pg_node_indices G ?g). \<exists>n. pg_node_weight G ?g i = Some n \<and> dg_key_fn s n = k)" for k
    by (auto simp: dg_blocked_keys_def in_set_map_filter split: option.splits if_splits)
  show ?thesis
  proof (intro set_eqI iffI)
    fix k assume "k \<in> set (dg_blocked_keys G s)"
    then show "k \<in> dg_blocked s \<inter> dom ?ix" using mem nodes_okD(3) [OF ok] by auto
  next
    fix k assume k: "k \<in> dg_blocked s \<inter> dom ?ix"
    then obtain i where "?ix k = Some i" by blast
    with k ix_node [OF ok] nodes_okD(2) [OF ok] mem show "k \<in> set (dg_blocked_keys G s)" by blast
  qed
qed

lemma dependencies_of_spec:
  assumes wf: "dg_wf G valid s"
  shows "set (dg_dependencies_of G k s) = {d. (k, d) \<in> sc_rel (dg_abs G s)}"
proof -
  let ?g = "dg_graph s" and ?ix = "dg_node_indices s"
  have ok: "nodes_ok G valid (dg_key_fn s) ?g ?ix" using wf by (simp add: dg_wf_def)
  show ?thesis
  proof (cases "?ix k")
    case None
    then show ?thesis by (simp add: dg_dependencies_of_def key_rel_def)
  next
    case (Some i)
    have "d \<in> set (dg_dependencies_of G k s) \<longleftrightarrow>
        (\<exists>j n. (i, j) \<in> pg_rel G ?g \<and> pg_node_weight G ?g j = Some n \<and> dg_key_fn s n = d)" for d
      using Some by (auto simp: dg_dependencies_of_def in_set_map_filter pg_rel_def)
    moreover have "(\<exists>n. pg_node_weight G ?g j = Some n \<and> dg_key_fn s n = d) \<longleftrightarrow> ?ix d = Some j" for j d
      using nodes_okD(2,3) [OF ok] by blast
    ultimately show ?thesis using Some by (auto simp: key_rel_def)
  qed
qed

end

section \<open>Properties\<close>

lemma dg_new_edges_known:
  assumes "dg_new G nodes edges kf = Inr s"
  shows "{(a, b) \<in> set edges. a \<in> fst ` set nodes \<and> a \<noteq> b} \<subseteq> (fst ` set nodes) \<times> (fst ` set nodes)"
proof -
  obtain g ix where add: "dg_add_nodes G nodes (pg_new G) Map.empty = (g, ix)" by fastforce
  have dom: "dom ix = fst ` set nodes"
    using dom_add_nodes [of G nodes "pg_new G" Map.empty] add by simp
  have "List.find (\<lambda>(a, b). a \<in> dom ix \<and> b \<notin> dom ix) edges = None"
    using assms add add_edges_Inl [of G ix edges g]
    by (cases "List.find (\<lambda>(a, b). a \<in> dom ix \<and> b \<notin> dom ix) edges")
      (auto simp: dg_new_def split: sum.splits)
  then show ?thesis unfolding dom by (auto simp: find_None_iff)
qed

lemma dg_reach_edges_known:
  assumes "dg_reach G nodes edges kf F s"
  shows "{(a, b) \<in> set edges. a \<in> fst ` set nodes \<and> a \<noteq> b} \<subseteq> (fst ` set nodes) \<times> (fst ` set nodes)"
  using assms
proof (induction rule: dg_reach.induct)
  case (dg_start s)
  then show ?case by (rule dg_new_edges_known)
qed

lemma dg_reachD:
  assumes "stable_graph G valid" and "\<forall>(k, n)\<in>set nodes. kf n = k"
    and "dg_reach G nodes edges kf F s"
    and "D = {(a, b) \<in> set edges. a \<in> fst ` set nodes \<and> a \<noteq> b}"
  shows "dg_wf G valid s" and "sc_inv (fst ` set nodes) D F (dg_abs G s)" and "dg_stream_ok G s"
    and "D \<subseteq> (fst ` set nodes) \<times> (fst ` set nodes)"
proof -
  show sub: "D \<subseteq> (fst ` set nodes) \<times> (fst ` set nodes)"
    using dg_reach_edges_known [OF assms(3)] assms(4) by simp
  note r = stable_graph.reach_spec [OF assms(1,2) refl assms(4) sub assms(3)]
  show "dg_wf G valid s" "dg_stream_ok G s" "sc_inv (fst ` set nodes) D F (dg_abs G s)"
    using r sc_reach_inv [OF sub] by blast+
qed

section \<open>A concrete run\<close>

text \<open>
  Five nodes: 1 depends on 2; 3 and 4 depend on each other; 5 depends on 3 and on 1.  The client
  reports 2 as failed.
\<close>

definition demo_nodes :: "(nat \<times> nat) list" where
  "demo_nodes = [(1, 1), (2, 2), (3, 3), (4, 4), (5, 5)]"

definition demo_edges :: "(nat \<times> nat) list" where
  "demo_edges = [(1, 2), (3, 4), (4, 3), (5, 3), (5, 1)]"

definition demo_new :: "(nat, nat slots, nat, nat) deps_graph" where
  "demo_new = projr (dg_new slot_ops demo_nodes demo_edges id)"

definition demo_start :: "(nat, nat slots, nat, nat) deps_graph" where
  "demo_start = dg_subscribe slot_ops demo_new"

definition demo_ok :: "(nat, nat slots, nat, nat) deps_graph" where
  "demo_ok = dg_complete_success slot_ops 2 demo_start"

definition demo_failed :: "(nat, nat slots, nat, nat) deps_graph" where
  "demo_failed = the (dg_complete_failure slot_ops 2 demo_start)"

lemma demo_keys: "\<forall>(k, n)\<in>set demo_nodes. id n = k"
  by (simp add: demo_nodes_def)

lemma demo_new_eq: "dg_new slot_ops demo_nodes demo_edges id = Inr demo_new"
proof -
  have "\<not> isl (dg_new slot_ops demo_nodes demo_edges id)" by code_simp
  then show ?thesis by (simp add: demo_new_def)
qed

lemma demo_reach_start: "dg_reach slot_ops demo_nodes demo_edges id {} demo_start"
  unfolding demo_start_def by (rule dg_start [OF demo_new_eq])

lemma demo_in_flight: "2 \<in> dg_in_flight demo_start"
proof -
  have "dg_node_indices demo_start 2 \<noteq> None" "2 \<in> dg_sent demo_start" by code_simp+
  then show ?thesis by (auto simp: dg_in_flight_def)
qed

lemma demo_reach_ok: "dg_reach slot_ops demo_nodes demo_edges id {} demo_ok"
  unfolding demo_ok_def by (rule dg_succ [OF demo_reach_start demo_in_flight])

lemma demo_reach_failed: "dg_reach slot_ops demo_nodes demo_edges id {2} demo_failed"
proof -
  have "dg_complete_failure slot_ops 2 demo_start \<noteq> None" by code_simp
  then show ?thesis
    using dg_fail [OF demo_reach_start demo_in_flight] by (auto simp: demo_failed_def)
qed

lemma demo_done: "dg_is_all_done slot_ops demo_failed"
  by code_simp

lemma demo_not_done: "\<not> dg_is_all_done slot_ops demo_start"
  by code_simp

section \<open>The properties\<close>

text \<open>
  \<^bold>\<open>C1.\<close> End to end: when a client has driven the scheduler until it reports that all nodes are
  done, the nodes that were emitted are exactly those from which no dependency cycle can be
  reached and which do not depend, transitively, on a node reported as failed; the nodes
  reported as blocked are exactly the others.  Nodes are given as \<^verbatim>\<open>(key, node)\<close> pairs whose keys
  agree with \<^verbatim>\<open>key_fn\<close>, as both callers do.
\<close>

theorem dg_run_complete:
  assumes "stable_graph G valid"
    and "\<forall>(k, n)\<in>set nodes. kf n = k"
    and "dg_reach G nodes edges kf F s"
    and "dg_is_all_done G s"
    and "D = {(a, b) \<in> set edges. a \<in> fst ` set nodes \<and> a \<noteq> b}"
  shows "set (dg_emitted_keys s) = fst ` set nodes - (reaches_cycle D \<union> depends_on D F) \<and>
    set (dg_blocked_keys G s) = reaches_cycle D \<union> depends_on D F"
proof -
  note r = dg_reachD [OF assms(1,2,3,5)]
  have "sc_done (dg_abs G s)"
    using stable_graph.all_done_spec [OF assms(1) r(1)] assms(4) by blast
  note d = sc_done_sent [OF r(4,2) this]
  show ?thesis
    using d r(3) stable_graph.blocked_keys_spec [OF assms(1) r(1)] sc_invD(4) [OF r(2)]
    by (simp add: dg_stream_ok_def)
qed

theorem dg_run_complete_witness:
  "dg_is_all_done slot_ops demo_failed \<and>
   set (dg_emitted_keys demo_failed) = fst ` set demo_nodes -
     (reaches_cycle {(a, b) \<in> set demo_edges. a \<in> fst ` set demo_nodes \<and> a \<noteq> b} \<union>
      depends_on {(a, b) \<in> set demo_edges. a \<in> fst ` set demo_nodes \<and> a \<noteq> b} {2})"
  using dg_run_complete [OF slots.stable_graph_axioms demo_keys demo_reach_failed demo_done refl]
  by (intro conjI demo_done) (elim conjE)

text \<open>
  \<^bold>\<open>C2.\<close> The scheduler never stalls: as long as it has not reported completion there is a node
  that was emitted and not yet reported, so the client has something to wait for; and every
  report, of a success or of a failure, returns and leaves fewer nodes in the graph, so a run
  ends after at most as many reports as there are nodes.
\<close>

theorem dg_no_deadlock:
  assumes "stable_graph G valid"
    and "\<forall>(k, n)\<in>set nodes. kf n = k"
    and "dg_reach G nodes edges kf F s"
    and "\<not> dg_is_all_done G s"
  shows "dg_in_flight s \<noteq> {} \<and>
    (\<forall>k\<in>dg_in_flight s.
       card (dom (dg_node_indices (dg_complete_success G k s))) < card (dom (dg_node_indices s)) \<and>
       (\<exists>t. dg_complete_failure G k s = Some t \<and>
            card (dom (dg_node_indices t)) < card (dom (dg_node_indices s))))"
proof -
  note r = dg_reachD [OF assms(1,2,3) refl] and wf = dg_reachD(1) [OF assms(1,2,3) refl]
  have fin: "finite (dom (dg_node_indices s))"
    using stable_graph.finite_dom_indices [OF assms(1) wf] .
  have "\<not> sc_done (dg_abs G s)"
    using stable_graph.all_done_spec [OF assms(1) wf] assms(4) by blast
  then have "dg_in_flight s \<noteq> {}"
    using sc_progress [OF _ r(2)] by (simp add: sc_in_flight_def dg_in_flight_def)
  moreover have "card (dom (dg_node_indices s) - {k}) < card (dom (dg_node_indices s))"
    if "k \<in> dg_in_flight s" for k
    using that fin by (intro psubset_card_mono) (auto simp: dg_in_flight_def)
  ultimately show ?thesis
    using stable_graph.reports_pending [OF assms(1) wf] by metis
qed

theorem dg_no_deadlock_witness:
  "\<not> dg_is_all_done slot_ops demo_start \<and> dg_in_flight demo_start \<noteq> {}"
  using dg_no_deadlock [OF slots.stable_graph_axioms demo_keys demo_reach_start demo_not_done]
    demo_not_done by blast

text \<open>
  \<^bold>\<open>C3.\<close> Dependencies first: whenever a node has been emitted, every node it depends on has
  already been reported, and not as failed.
\<close>

theorem dg_emit_after_dependencies:
  assumes "stable_graph G valid"
    and "\<forall>(k, n)\<in>set nodes. kf n = k"
    and "dg_reach G nodes edges kf F s"
    and "k \<in> set (dg_emitted_keys s)" and "(k, d) \<in> set edges" and "k \<noteq> d"
  shows "d \<in> set (dg_emitted_keys s) \<and> d \<notin> dom (dg_node_indices s) \<and> d \<notin> F"
proof -
  let ?D = "{(a, b) \<in> set edges. a \<in> fst ` set nodes \<and> a \<noteq> b}"
  note r = dg_reachD [OF assms(1,2,3) refl] and inv = dg_reachD(2) [OF assms(1,2,3) refl]
  have k: "k \<in> dg_sent s" using assms(4) r(3) by (simp add: dg_stream_ok_def)
  then have kd: "(k, d) \<in> ?D" using sc_invD(8) [OF inv] assms(5,6) by auto
  have "d \<notin> dom (dg_node_indices s)"
  proof
    assume "d \<in> dom (dg_node_indices s)"
    then have dp: "d \<in> sc_pending (dg_abs G s)" by simp
    have kp: "k \<in> sc_pending (dg_abs G s)" by (rule sc_invD(3) [OF inv kd dp])
    have rel: "(k, d) \<in> sc_rel (dg_abs G s)"
      unfolding sc_invD(2) [OF inv] by (rule IntI [OF kd SigmaI [OF kp dp]])
    have "k \<in> sc_sent (dg_abs G s) \<inter> sc_pending (dg_abs G s)" using k kp by simp
    then have "k \<in> sc_ready (dg_abs G s)" unfolding sc_invD(5) [OF inv] .
    then have "(k, d) \<notin> sc_rel (dg_abs G s)" unfolding sc_ready_def by blast
    then show False using rel by contradiction
  qed
  moreover have "d \<in> dg_sent s"
  proof -
    have "d \<in> fst ` set nodes" using subsetD [OF r(4) kd] by blast
    with calculation show ?thesis using sc_invD(7) [OF inv] by auto
  qed
  moreover have "d \<notin> F"
  proof
    assume "d \<in> F"
    then have "k \<in> depends_on ?D F" using kd unfolding depends_on_def by blast
    with k sc_invD(4,6) [OF inv] show False by auto
  qed
  ultimately show ?thesis using r(3) by (simp add: dg_stream_ok_def)
qed

theorem dg_emit_after_dependencies_witness:
  "1 \<in> set (dg_emitted_keys demo_ok) \<and> (1, 2) \<in> set demo_edges \<and>
   2 \<in> set (dg_emitted_keys demo_ok) \<and> 2 \<notin> dom (dg_node_indices demo_ok)"
proof -
  have h: "1 \<in> set (dg_emitted_keys demo_ok)" "(1, 2) \<in> set demo_edges" by code_simp+
  show ?thesis
    using dg_emit_after_dependencies [OF slots.stable_graph_axioms demo_keys demo_reach_ok h] h by simp
qed

text \<open>
  \<^bold>\<open>C4.\<close> The stream: in every reachable state the messages sent since \<^verbatim>\<open>subscribe\<close> are nodes with
  pairwise different keys (exactly the keys recorded as sent), followed by a single \<^verbatim>\<open>None\<close> if and
  only if the scheduler is done.
\<close>

theorem dg_stream_correct:
  assumes "stable_graph G valid"
    and "\<forall>(k, n)\<in>set nodes. kf n = k"
    and "dg_reach G nodes edges kf F s"
  shows "dg_stream_ok G s"
  using dg_reachD(3) [OF assms refl] .

theorem dg_stream_correct_witness: "dg_stream_ok slot_ops demo_failed"
  by (rule dg_stream_correct [OF slots.stable_graph_axioms demo_keys demo_reach_failed])

lemma dg_new_blocked:
  assumes "stable_graph G valid"
    and "\<forall>(k, n)\<in>set nodes. kf n = k"
    and "dg_new G nodes edges kf = Inr s"
  shows "set (dg_blocked_keys G s) =
    reaches_cycle {(a, b) \<in> set edges. a \<in> fst ` set nodes \<and> a \<noteq> b}"
proof -
  note n = stable_graph.new_spec [OF assms(1,3,2)]
  have "dom (dg_node_indices s) = fst ` set nodes"
    and "dg_blocked s = reaches_cycle {(a, b) \<in> set edges. a \<in> fst ` set nodes \<and> a \<noteq> b}"
    using arg_cong [OF n(4), of sc_pending] arg_cong [OF n(4), of sc_blocked]
    by (simp_all add: sc_init_def)
  then show ?thesis
    using stable_graph.blocked_keys_spec [OF assms(1) n(1)]
      reaches_cycle_subset [OF dg_new_edges_known [OF assms(3)]] by auto
qed

lemma dg_new_Inl:
  "dg_new G nodes edges kf = Inl e \<longleftrightarrow>
   (\<exists>a b. List.find (\<lambda>(a, b). a \<in> fst ` set nodes \<and> b \<notin> fst ` set nodes) edges = Some (a, b) \<and>
      e = UnknownDependency a b)"
proof -
  obtain g ix where add: "dg_add_nodes G nodes (pg_new G) Map.empty = (g, ix)" by fastforce
  have dom: "dom ix = fst ` set nodes"
    using dom_add_nodes [of G nodes "pg_new G" Map.empty] add by simp
  have "dg_new G nodes edges kf = Inl e \<longleftrightarrow> dg_add_edges G ix edges g = Inl e"
    using add by (auto simp: dg_new_def split: sum.splits)
  then show ?thesis by (simp add: add_edges_Inl dom)
qed

text \<open>
  \<^bold>\<open>C5.\<close> Construction detects cycles exactly: the nodes blocked by \<^verbatim>\<open>DepsGraph::new\<close> are those from
  which a dependency cycle can be reached, whatever other dependencies they have.  It fails
  exactly when some edge leads from a known key to an unknown one, and the error names the
  first such edge; an edge from an unknown key is ignored.
\<close>

theorem dg_new_blocks_cycles:
  assumes "stable_graph G valid"
    and "\<forall>(k, n)\<in>set nodes. kf n = k"
  shows "(\<forall>s. dg_new G nodes edges kf = Inr s \<longrightarrow>
      set (dg_blocked_keys G s) = reaches_cycle {(a, b) \<in> set edges. a \<in> fst ` set nodes \<and> a \<noteq> b})
    \<and> (\<forall>e. dg_new G nodes edges kf = Inl e \<longleftrightarrow>
      (\<exists>a b. List.find (\<lambda>(a, b). a \<in> fst ` set nodes \<and> b \<notin> fst ` set nodes) edges = Some (a, b) \<and>
         e = UnknownDependency a b))"
  using dg_new_blocked [OF assms] dg_new_Inl by (intro conjI allI impI) blast+

theorem dg_new_blocks_cycles_witness:
  "{3, 4, 5} = reaches_cycle {(a, b) \<in> set demo_edges. a \<in> fst ` set demo_nodes \<and> a \<noteq> b}"
proof -
  have "set (dg_blocked_keys slot_ops demo_new) = {3, 4, 5}" by code_simp
  then show ?thesis
    using conjunct1 [OF dg_new_blocks_cycles [OF slots.stable_graph_axioms demo_keys, of demo_edges],
        rule_format, OF demo_new_eq] by simp
qed

text \<open>
  \<^bold>\<open>C6.\<close> Refinement: on well-formed states, subscribing and reporting a success or a failure act on
  the abstract scheduler as its specification says; in particular a failure blocks exactly the
  transitive dependents of the failed node, and the search for them ends.
\<close>

theorem dg_refines_spec:
  assumes "stable_graph G valid" and "dg_wf G valid s"
  shows "dg_abs G (dg_subscribe G s) = sc_emit (dg_abs G s) \<and>
    dg_abs G (dg_complete_success G k s) = sc_success k (dg_abs G s) \<and>
    (\<exists>t. dg_complete_failure G k s = Some t \<and> dg_abs G t = sc_failure k (dg_abs G s))"
proof (intro conjI)
  have wf: "dg_wf G valid (s\<lparr>dg_tx := []\<rparr>)" and abs: "dg_abs G (s\<lparr>dg_tx := []\<rparr>) = dg_abs G s"
    using assms(2) by (simp_all add: dg_wf_def dg_abs_def)
  show "dg_abs G (dg_subscribe G s) = sc_emit (dg_abs G s)"
    unfolding dg_subscribe_def abs [symmetric] by (rule stable_graph.emit_leaves_spec(1) [OF assms(1) wf])
  show "dg_abs G (dg_complete_success G k s) = sc_success k (dg_abs G s)"
    unfolding dg_complete_success_def sc_success_def
      stable_graph.emit_leaves_spec(1) [OF assms(1) stable_graph.remove_node_spec(2) [OF assms]]
      stable_graph.remove_node_spec(1) [OF assms] by (rule refl)
  show "\<exists>t. dg_complete_failure G k s = Some t \<and> dg_abs G t = sc_failure k (dg_abs G s)"
    using stable_graph.complete_failure_spec [OF assms, of k]
    by (auto simp: sc_failure_def stable_graph.emit_leaves_spec(1) [OF assms(1)])
qed

theorem dg_refines_spec_witness:
  "dg_abs slot_ops (dg_complete_success slot_ops 2 demo_start) = sc_success 2 (dg_abs slot_ops demo_start)"
  using dg_refines_spec [OF slots.stable_graph_axioms
      dg_reachD(1) [OF slots.stable_graph_axioms demo_keys demo_reach_start refl], of 2] by blast

end
