(* ===== verification/Deps_Clients.thy ===== *)
theory Deps_Clients
  imports Deps_Graph_Correct
begin

text \<open>
  The two clients of the scheduler: the ordering of dependency providers
  (\<^verbatim>\<open>src/deps/deps_ordering.rs\<close>) and of tool installations (\<^verbatim>\<open>src/toolset/tool_deps.rs\<close>).  Each
  validates its input, turns it into nodes and edges and wraps the scheduler.  A tool request is
  seen through the operations the code calls on it, collected in the record \<open>tool_ops\<close>.
\<close>

section \<open>Dependency providers\<close>

type_synonym provider = "ustr \<times> ustr list"

datatype ordering_error = UnknownProvider ustr ustr | OrderingGraph "ustr dg_error"

fun do_check_deps :: "ustr set \<Rightarrow> ustr \<Rightarrow> ustr list \<Rightarrow> ordering_error option" where
  "do_check_deps known id1 [] = None"
| "do_check_deps known id1 (dep # deps) =
     (if dep \<notin> known then Some (UnknownProvider id1 dep) else do_check_deps known id1 deps)"

fun do_validate :: "ustr set \<Rightarrow> provider list \<Rightarrow> ordering_error option" where
  "do_validate known [] = None"
| "do_validate known ((id1, deps) # providers) =
     (case do_check_deps known id1 deps of
        Some e \<Rightarrow> Some e
      | None \<Rightarrow> do_validate known providers)"

definition do_nodes :: "provider list \<Rightarrow> (ustr \<times> ustr) list" where
  "do_nodes providers = map (\<lambda>(id1, _). (id1, id1)) providers"

definition do_edges :: "provider list \<Rightarrow> (ustr \<times> ustr) list" where
  "do_edges providers = concat (map (\<lambda>(id1, deps). map (\<lambda>dep. (id1, dep)) deps) providers)"

type_synonym ('g, 'i) deps_ordering = "(ustr, 'g, 'i, ustr) deps_graph"

definition do_new ::
  "('g, 'i, ustr) pg_ops \<Rightarrow> provider list \<Rightarrow> ordering_error + ('g, 'i) deps_ordering" where
  "do_new G providers =
     (case do_validate (fst ` set providers) providers of
        Some e \<Rightarrow> Inl e
      | None \<Rightarrow>
          (case dg_new G (do_nodes providers) (do_edges providers) (\<lambda>s. s) of
             Inl e \<Rightarrow> Inl (OrderingGraph e)
           | Inr inner \<Rightarrow> Inr inner))"

definition do_subscribe ::
  "('g, 'i, ustr) pg_ops \<Rightarrow> ('g, 'i) deps_ordering \<Rightarrow> ('g, 'i) deps_ordering" where
  "do_subscribe G d = dg_subscribe G d"

definition do_complete_success ::
  "('g, 'i, ustr) pg_ops \<Rightarrow> ustr \<Rightarrow> ('g, 'i) deps_ordering \<Rightarrow> ('g, 'i) deps_ordering" where
  "do_complete_success G id1 d = dg_complete_success G id1 d"

definition do_complete_failure ::
  "('g, 'i, ustr) pg_ops \<Rightarrow> ustr \<Rightarrow> ('g, 'i) deps_ordering \<Rightarrow> ('g, 'i) deps_ordering option" where
  "do_complete_failure G id1 d = dg_complete_failure G id1 d"

definition do_blocked_providers ::
  "('g, 'i, ustr) pg_ops \<Rightarrow> ('g, 'i) deps_ordering \<Rightarrow> ustr list" where
  "do_blocked_providers G d = dg_blocked_keys G d"

section \<open>Tool installations\<close>

text \<open>
  The calls on a \<^verbatim>\<open>ToolRequest\<close>: \<^verbatim>\<open>ba().short\<close>, \<^verbatim>\<open>version()\<close>, the display form of \<^verbatim>\<open>source()\<close>,
  \<^verbatim>\<open>options()\<close>, and whether the request's \<^verbatim>\<open>install_dependency_declarations\<close> match another request.
\<close>

record ('r, 'o) tool_ops =
  tr_short :: "'r \<Rightarrow> ustr"
  tr_version :: "'r \<Rightarrow> ustr"
  tr_source :: "'r \<Rightarrow> ustr"
  tr_options :: "'r \<Rightarrow> 'o"
  tr_declares :: "'r \<Rightarrow> 'r \<Rightarrow> bool"

definition tool_key :: "('r, 'o) tool_ops \<Rightarrow> 'r \<Rightarrow> ustr" where
  "tool_key T tr = tr_short T tr @ [AT] @ tr_version T tr"

definition graph_key :: "('r, 'o) tool_ops \<Rightarrow> 'r \<Rightarrow> ustr" where
  "graph_key T tr = tool_key T tr @ [HASH] @ tr_source T tr"

definition install_destination_key :: "('r, 'o) tool_ops \<Rightarrow> 'r \<Rightarrow> ustr" where
  "install_destination_key T tr = tr_short T tr @ [AT] @ tr_version T tr"

datatype tool_deps_error = ConflictingOptions ustr | ToolGraph "ustr dg_error"

fun compatible_loop ::
  "('r, 'o) tool_ops \<Rightarrow> (ustr \<rightharpoonup> 'o) \<Rightarrow> 'r list \<Rightarrow> tool_deps_error option" where
  "compatible_loop T options_by_destination [] = None"
| "compatible_loop T options_by_destination (request # requests) =
     (let key = install_destination_key T request;
          options = tr_options T request
      in if (case options_by_destination key of Some existing \<Rightarrow> existing \<noteq> options | None \<Rightarrow> False)
         then Some (ConflictingOptions key)
         else compatible_loop T (options_by_destination(key \<mapsto> options)) requests)"

definition ensure_compatible_install_requests ::
  "('r, 'o) tool_ops \<Rightarrow> 'r list \<Rightarrow> tool_deps_error option" where
  "ensure_compatible_install_requests T requests = compatible_loop T Map.empty requests"

definition td_nodes :: "('r, 'o) tool_ops \<Rightarrow> 'r list \<Rightarrow> (ustr \<times> 'r) list" where
  "td_nodes T requests = map (\<lambda>tr. (graph_key T tr, tr)) requests"

definition td_edges :: "('r, 'o) tool_ops \<Rightarrow> 'r list \<Rightarrow> (ustr \<times> ustr) list" where
  "td_edges T requests =
     concat (map (\<lambda>tr. List.map_filter (\<lambda>other_tr.
        if tr_declares T tr other_tr \<and> graph_key T tr \<noteq> graph_key T other_tr
        then Some (graph_key T tr, graph_key T other_tr) else None) requests) requests)"

record ('r, 'g, 'i) tool_deps =
  td_inner :: "(ustr, 'g, 'i, 'r) deps_graph"
  td_progress_keys :: "ustr \<rightharpoonup> ustr"

definition td_new ::
  "('g, 'i, 'r) pg_ops \<Rightarrow> ('r, 'o) tool_ops \<Rightarrow> 'r list \<Rightarrow> tool_deps_error + ('r, 'g, 'i) tool_deps" where
  "td_new G T requests =
     (case ensure_compatible_install_requests T requests of
        Some e \<Rightarrow> Inl e
      | None \<Rightarrow>
          (let progress_keys =
                 foldl (\<lambda>m tr. m(graph_key T tr \<mapsto> tool_key T tr)) Map.empty requests
           in case dg_new G (td_nodes T requests) (td_edges T requests) (graph_key T) of
                Inl e \<Rightarrow> Inl (ToolGraph e)
              | Inr inner \<Rightarrow> Inr \<lparr>td_inner = inner, td_progress_keys = progress_keys\<rparr>))"

definition td_subscribe ::
  "('g, 'i, 'r) pg_ops \<Rightarrow> ('r, 'g, 'i) tool_deps \<Rightarrow> ('r, 'g, 'i) tool_deps" where
  "td_subscribe G d = d\<lparr>td_inner := dg_subscribe G (td_inner d)\<rparr>"

definition td_complete_success ::
  "('g, 'i, 'r) pg_ops \<Rightarrow> ('r, 'o) tool_ops \<Rightarrow> 'r \<Rightarrow> ('r, 'g, 'i) tool_deps \<Rightarrow> ('r, 'g, 'i) tool_deps" where
  "td_complete_success G T tr d =
     d\<lparr>td_inner := dg_complete_success G (graph_key T tr) (td_inner d)\<rparr>"

definition td_complete_failure ::
  "('g, 'i, 'r) pg_ops \<Rightarrow> ('r, 'o) tool_ops \<Rightarrow> 'r \<Rightarrow> ('r, 'g, 'i) tool_deps
     \<Rightarrow> ('r, 'g, 'i) tool_deps option" where
  "td_complete_failure G T tr d =
     map_option (\<lambda>inner. d\<lparr>td_inner := inner\<rparr>) (dg_complete_failure G (graph_key T tr) (td_inner d))"

definition td_pending_dependencies ::
  "('g, 'i, 'r) pg_ops \<Rightarrow> ('r, 'o) tool_ops \<Rightarrow> 'r \<Rightarrow> ('r, 'g, 'i) tool_deps \<Rightarrow> ustr list" where
  "td_pending_dependencies G T tr d =
     List.map_filter (td_progress_keys d) (dg_dependencies_of G (graph_key T tr) (td_inner d))"

definition td_blocked_tools ::
  "('g, 'i, 'r) pg_ops \<Rightarrow> ('r, 'g, 'i) tool_deps \<Rightarrow> 'r list" where
  "td_blocked_tools G d = dg_blocked_nodes G (td_inner d)"

section \<open>Lemmas\<close>

lemma dg_new_total:
  assumes "\<And>a b. (a, b) \<in> set edges \<Longrightarrow> b \<in> fst ` set nodes"
  shows "\<exists>s. dg_new G nodes edges kf = Inr s"
proof (cases "dg_new G nodes edges kf")
  case (Inl e)
  obtain g ix where add: "dg_add_nodes G nodes (pg_new G) Map.empty = (g, ix)" by fastforce
  have dom: "dom ix = fst ` set nodes"
    using dom_add_nodes [of G nodes "pg_new G" Map.empty] add by simp
  have "dg_add_edges G ix edges g = Inl e"
    using add Inl by (auto simp: dg_new_def split: sum.splits)
  then obtain a b where "List.find (\<lambda>(a, b). a \<in> dom ix \<and> b \<notin> dom ix) edges = Some (a, b)"
    by (auto simp: add_edges_Inl)
  then obtain i where i: "i < length edges" "case edges ! i of (a, b) \<Rightarrow> a \<in> dom ix \<and> b \<notin> dom ix"
    "(a, b) = edges ! i" unfolding find_Some_iff by (elim exE conjE) (rule that)
  have "(a, b) \<in> set edges" using i(1,3) by simp
  moreover have "b \<notin> dom ix" using i(2) unfolding i(3) [symmetric] by simp
  ultimately have "(a, b) \<in> set edges" "b \<notin> dom ix" .
  with assms dom show ?thesis by blast
qed simp

lemma do_check_deps_find:
  "do_check_deps known id1 deps =
   map_option (\<lambda>(a, b). UnknownProvider a b)
     (List.find (\<lambda>(_, dep). dep \<notin> known) (map (\<lambda>dep. (id1, dep)) deps))"
  by (induction deps) simp_all

lemma find_append: "List.find P (xs @ ys) = (case List.find P xs of Some x \<Rightarrow> Some x | None \<Rightarrow> List.find P ys)"
  by (induction xs) simp_all

lemma do_validate_find:
  "do_validate known providers =
   map_option (\<lambda>(a, b). UnknownProvider a b) (List.find (\<lambda>(_, dep). dep \<notin> known) (do_edges providers))"
proof (induction providers)
  case Nil
  show ?case by (simp add: do_edges_def)
next
  case (Cons p providers)
  obtain id1 deps where p: "p = (id1, deps)" by fastforce
  have e: "do_edges (p # providers) = map (\<lambda>dep. (id1, dep)) deps @ do_edges providers"
    by (simp add: do_edges_def p)
  show ?case
    unfolding e find_append by (simp add: p do_check_deps_find Cons.IH split: option.split)
qed

text \<open>
  \<^bold>\<open>C13.\<close> Ordering of providers: construction fails exactly on the first dependency, in order, on
  a provider that is not in the list, and names it; the validation makes the construction of the
  graph infallible.
\<close>

theorem do_new_result:
  "case List.find (\<lambda>(_, dep). dep \<notin> fst ` set providers) (do_edges providers) of
     Some (id1, dep) \<Rightarrow> do_new G providers = Inl (UnknownProvider id1 dep)
   | None \<Rightarrow> \<exists>d. do_new G providers = Inr d \<and>
       dg_new G (do_nodes providers) (do_edges providers) (\<lambda>s. s) = Inr d"
proof (cases "List.find (\<lambda>(_, dep). dep \<notin> fst ` set providers) (do_edges providers)")
  case None
  have "b \<in> fst ` set (do_nodes providers)" if "(a, b) \<in> set (do_edges providers)" for a b
    using None that by (force simp: find_None_iff do_nodes_def)
  then obtain d where "dg_new G (do_nodes providers) (do_edges providers) (\<lambda>s. s) = Inr d"
    using dg_new_total by blast
  with None show ?thesis by (simp add: do_new_def do_validate_find)
next
  case (Some p)
  then show ?thesis by (cases p) (simp add: do_new_def do_validate_find)
qed

text \<open>
  The options recorded for the destinations seen so far are those of the requests seen so far;
  recording one more request adds its conflicts.
\<close>

definition no_conflict :: "('r \<Rightarrow> ustr) \<Rightarrow> ('r \<Rightarrow> 'o) \<Rightarrow> (ustr \<rightharpoonup> 'o) \<Rightarrow> 'r set \<Rightarrow> bool" where
  "no_conflict k ob m R \<longleftrightarrow> (\<forall>a\<in>R. m (k a) = None \<or> m (k a) = Some (ob a)) \<and>
     (\<forall>a\<in>R. \<forall>b\<in>R. k a = k b \<longrightarrow> ob a = ob b)"

lemma no_conflictD:
  assumes "no_conflict k ob m R" and "a \<in> R"
  shows "m (k a) = None \<or> m (k a) = Some (ob a)" and "b \<in> R \<Longrightarrow> k a = k b \<Longrightarrow> ob a = ob b"
  using assms unfolding no_conflict_def by blast+

lemma no_conflictI:
  assumes "\<And>a. a \<in> R \<Longrightarrow> m (k a) = None \<or> m (k a) = Some (ob a)"
    and "\<And>a b. a \<in> R \<Longrightarrow> b \<in> R \<Longrightarrow> k a = k b \<Longrightarrow> ob a = ob b"
  shows "no_conflict k ob m R"
  using assms unfolding no_conflict_def by blast

lemma no_conflict_insert:
  assumes "m (k r) = None \<or> m (k r) = Some (ob r)"
  shows "no_conflict k ob (m(k r \<mapsto> ob r)) R \<longleftrightarrow> no_conflict k ob m (insert r R)"
proof
  assume L: "no_conflict k ob (m(k r \<mapsto> ob r)) R"
  have same: "ob a = ob r" if "a \<in> R" "k a = k r" for a
    using no_conflictD(1) [OF L that(1)] by (simp add: that(2))
  have other: "m (k a) = None \<or> m (k a) = Some (ob a)" if "a \<in> R" "k a \<noteq> k r" for a
    using no_conflictD(1) [OF L that(1)] by (simp add: that(2))
  show "no_conflict k ob m (insert r R)"
  proof (rule no_conflictI)
    fix a assume "a \<in> insert r R"
    then show "m (k a) = None \<or> m (k a) = Some (ob a)"
      using assms same other by (metis insertE)
  next
    fix a b assume "a \<in> insert r R" "b \<in> insert r R" "k a = k b"
    then show "ob a = ob b" using same no_conflictD(2) [OF L] by (metis insertE)
  qed
next
  assume R: "no_conflict k ob m (insert r R)"
  show "no_conflict k ob (m(k r \<mapsto> ob r)) R"
  proof (rule no_conflictI)
    fix a assume "a \<in> R"
    then show "(m(k r \<mapsto> ob r)) (k a) = None \<or> (m(k r \<mapsto> ob r)) (k a) = Some (ob a)"
      using no_conflictD [OF R, of a] no_conflictD(2) [OF R, of r a] by (cases "k a = k r") simp_all
  next
    fix a b assume "a \<in> R" "b \<in> R" "k a = k b"
    then show "ob a = ob b" using no_conflictD(2) [OF R, of a b] by blast
  qed
qed

lemma compatible_loop_None:
  "compatible_loop T m requests = None \<longleftrightarrow>
   no_conflict (install_destination_key T) (tr_options T) m (set requests)"
proof (induction requests arbitrary: m)
  case Nil
  show ?case by (simp add: no_conflict_def)
next
  case (Cons r requests)
  let ?k = "install_destination_key T" and ?o = "tr_options T"
  show ?case
  proof (cases "m (?k r) = None \<or> m (?k r) = Some (?o r)")
    case True
    then have "compatible_loop T m (r # requests) = compatible_loop T (m(?k r \<mapsto> ?o r)) requests"
      by (auto simp: Let_def)
    then show ?thesis
      by (simp only: Cons.IH no_conflict_insert [of m ?k r ?o "set requests", OF True] list.set)
  next
    case False
    then have "\<not> no_conflict ?k ?o m (set (r # requests))" by (simp add: no_conflict_def)
    with False show ?thesis by (auto simp: Let_def split: option.splits)
  qed
qed

text \<open>
  \<^bold>\<open>C14.\<close> Tool installations: construction succeeds exactly when requests with the same install
  destination ask for the same options; the dependency graph itself is always well-formed.
\<close>

theorem td_new_succeeds_iff:
  "(\<exists>d. td_new G T requests = Inr d) \<longleftrightarrow>
   (\<forall>a b. a \<in> set requests \<and> b \<in> set requests \<and>
      install_destination_key T a = install_destination_key T b \<longrightarrow> tr_options T a = tr_options T b)"
proof -
  have "b \<in> fst ` set (td_nodes T requests)" if "(a, b) \<in> set (td_edges T requests)" for a b
    using that by (auto simp: td_edges_def td_nodes_def in_set_map_filter image_iff split: if_splits)
  then obtain inner where "dg_new G (td_nodes T requests) (td_edges T requests) (graph_key T) = Inr inner"
    using dg_new_total by blast
  then have "(\<exists>d. td_new G T requests = Inr d) \<longleftrightarrow> ensure_compatible_install_requests T requests = None"
    by (simp add: td_new_def Let_def split: option.split)
  also have "\<dots> \<longleftrightarrow> (\<forall>a b. a \<in> set requests \<and> b \<in> set requests \<and>
      install_destination_key T a = install_destination_key T b \<longrightarrow> tr_options T a = tr_options T b)"
    unfolding ensure_compatible_install_requests_def compatible_loop_None no_conflict_def by auto
  finally show ?thesis .
qed

text \<open>Two requests for one destination with different options are refused.\<close>

definition demo_tools :: "(nat, nat) tool_ops" where
  "demo_tools = \<lparr>tr_short = (\<lambda>_. lit ''node''), tr_version = (\<lambda>_. lit ''20''),
     tr_source = (\<lambda>_. lit ''mise.toml''), tr_options = (\<lambda>r. r), tr_declares = (\<lambda>_ _. False)\<rparr>"

theorem td_new_succeeds_iff_witness: "\<not> (\<exists>d. td_new slot_ops demo_tools [1, 2] = Inr d)"
proof
  assume "\<exists>d. td_new slot_ops demo_tools [1, 2] = Inr d"
  then have "1 \<in> set [1, 2 :: nat] \<and> 2 \<in> set [1, 2 :: nat] \<and>
      install_destination_key demo_tools 1 = install_destination_key demo_tools 2 \<longrightarrow>
      tr_options demo_tools 1 = tr_options demo_tools 2"
    unfolding td_new_succeeds_iff by blast
  then show False by (simp add: install_destination_key_def demo_tools_def)
qed

end
