(* ===== verification/Dotenv_Lex.thy ===== *)
theory Dotenv_Lex
  imports Mise_Prelude
begin

text \<open>
  The lexical layer of the dotenv parser, \<^verbatim>\<open>crates/mise-dotenv/src/parse.rs\<close>: options, errors
  with their source positions, the parser's state and its primitive moves, and the character
  classes.  Positions are character indices into the source (theory \<open>Mise_Prelude\<close>).
\<close>

section \<open>Options, errors and the parser's state\<close>

record parse_options =
  po_substitution :: bool
  po_multiline :: bool

definition po_new :: parse_options where
  "po_new = \<lparr>po_substitution = False, po_multiline = True\<rparr>"

definition po_set_substitution :: "bool \<Rightarrow> parse_options \<Rightarrow> parse_options" where
  "po_set_substitution enabled o1 = o1\<lparr>po_substitution := enabled\<rparr>"

definition po_set_multiline :: "bool \<Rightarrow> parse_options \<Rightarrow> parse_options" where
  "po_set_multiline enabled o1 = o1\<lparr>po_multiline := enabled\<rparr>"

datatype parse_error_kind =
    MissingKey
  | MissingEquals
  | InvalidKeyCharacter uchar
  | InvalidValueCharacter uchar
  | UnterminatedQuote uchar
  | UnterminatedSubstitution
  | InvalidSubstitution
  | RequiredVariable ustr ustr
  | MultilineDisabled

record parse_error =
  pe_kind :: parse_error_kind
  pe_line :: nat
  pe_column :: nat
  pe_byte_offset :: nat
  pe_source_line :: ustr

datatype value_style = Unquoted | SingleQuoted | DoubleQuoted

text \<open>
  The struct \<^verbatim>\<open>Parser\<close>.  The variable maps are finite maps; the tracker is the shared set of
  names consulted so far, absent when the caller did not ask for it.
\<close>

type_synonym tracker = "ustr set option"

record parser =
  pr_source :: ustr
  pr_position :: nat
  pr_options :: parse_options
  pr_base :: "ustr \<rightharpoonup> ustr"
  pr_protected :: "ustr \<rightharpoonup> ustr"
  pr_parsed :: "ustr \<rightharpoonup> ustr"
  pr_tracker :: tracker
  pr_input_overrides :: bool
  pr_failed :: bool

definition parser_new ::
  "ustr \<Rightarrow> parse_options \<Rightarrow> (ustr \<rightharpoonup> ustr) \<Rightarrow> (ustr \<rightharpoonup> ustr) \<Rightarrow> tracker \<Rightarrow> bool \<Rightarrow> parser" where
  "parser_new source options base protected tracker input_overrides =
     \<lparr>pr_source = (if starts_with [BOM] source then drop 1 source else source),
      pr_position = 0,
      pr_options = options,
      pr_base = base,
      pr_protected = protected,
      pr_parsed = Map.empty,
      pr_tracker = tracker,
      pr_input_overrides = input_overrides,
      pr_failed = False\<rparr>"

section \<open>Character classes\<close>

definition is_line_break :: "uchar \<Rightarrow> bool" where
  "is_line_break c \<longleftrightarrow> c = NL \<or> c = CR"

definition is_horizontal_whitespace :: "uchar \<Rightarrow> bool" where
  "is_horizontal_whitespace c \<longleftrightarrow> is_whitespace c \<and> \<not> (c = NL \<or> c = CR)"

definition is_substitution_start :: "uchar \<Rightarrow> bool" where
  "is_substitution_start c \<longleftrightarrow> is_ascii_alphabetic c \<or> c = UNDERSCORE"

definition is_substitution_continue :: "uchar \<Rightarrow> bool" where
  "is_substitution_continue c \<longleftrightarrow> is_ascii_alphanumeric c \<or> c = UNDERSCORE"

lemmas [uchar_simps] = is_line_break_def is_horizontal_whitespace_def
  is_substitution_start_def is_substitution_continue_def

section \<open>Source positions of errors\<close>

text \<open>\<^verbatim>\<open>source_line_and_start\<close>: the line number and the start of the line of a position.\<close>

function slas_loop :: "ustr \<Rightarrow> nat \<Rightarrow> nat \<Rightarrow> nat \<Rightarrow> nat \<Rightarrow> nat \<times> nat" where
  "slas_loop source offset line line_start position =
     (if position < offset then
        (if source ! position = CR then
           (if position + 1 < offset \<and> source ! (position + 1) = NL
            then slas_loop source offset (line + 1) (position + 2) (position + 2)
            else slas_loop source offset (line + 1) (position + 1) (position + 1))
         else if source ! position = NL
         then slas_loop source offset (line + 1) (position + 1) (position + 1)
         else slas_loop source offset line line_start (position + 1))
      else (line, line_start))"
  by pat_completeness auto
termination
  by (relation "measure (\<lambda>(source, offset, line, line_start, position). offset - position)") auto

declare slas_loop.simps [simp del]

definition source_line_and_start :: "ustr \<Rightarrow> nat \<Rightarrow> nat \<times> nat" where
  "source_line_and_start source offset = slas_loop source offset 1 0 0"

text \<open>\<^verbatim>\<open>Parser::error\<close>.\<close>

definition mk_error :: "ustr \<Rightarrow> nat \<Rightarrow> parse_error_kind \<Rightarrow> parse_error" where
  "mk_error source offset kind =
     (let offset = min offset (length source);
          (line, line_start) = source_line_and_start source offset
      in \<lparr>pe_kind = kind,
          pe_line = line,
          pe_column = length (drop line_start (take offset source)) + 1,
          pe_byte_offset = byte_len (take offset source),
          pe_source_line = takeWhile (\<lambda>c. \<not> (c = NL \<or> c = CR)) (drop line_start source)\<rparr>)"

definition p_error :: "parser \<Rightarrow> nat \<Rightarrow> parse_error_kind \<Rightarrow> parse_error" where
  "p_error p offset kind = mk_error (pr_source p) offset kind"

section \<open>Moves of the parser\<close>

abbreviation p_rest :: "parser \<Rightarrow> ustr" where
  "p_rest p \<equiv> drop (pr_position p) (pr_source p)"

definition peek :: "parser \<Rightarrow> uchar option" where
  "peek p = (case p_rest p of [] \<Rightarrow> None | c # _ \<Rightarrow> Some c)"

definition advance :: "parser \<Rightarrow> parser" where
  "advance p = (case peek p of None \<Rightarrow> p | Some _ \<Rightarrow> p\<lparr>pr_position := pr_position p + 1\<rparr>)"

definition at_end :: "parser \<Rightarrow> bool" where
  "at_end p \<longleftrightarrow> pr_position p = length (pr_source p)"

text \<open>\<^verbatim>\<open>Parser::previous\<close>, of a source and a position.\<close>

definition previous :: "ustr \<Rightarrow> nat \<Rightarrow> uchar option" where
  "previous source position = (case rev (take position source) of [] \<Rightarrow> None | c # _ \<Rightarrow> Some c)"

definition skip_horizontal_whitespace :: "parser \<Rightarrow> parser" where
  "skip_horizontal_whitespace p =
     p\<lparr>pr_position := pr_position p + length (takeWhile is_horizontal_whitespace (p_rest p))\<rparr>"

definition consume_newline :: "parser \<Rightarrow> bool \<times> parser" where
  "consume_newline p =
     (case peek p of
        Some c \<Rightarrow>
          if c = CR then
            (let p = advance p in (True, if peek p = Some NL then advance p else p))
          else if c = NL then (True, advance p)
          else (False, p)
      | None \<Rightarrow> (False, p))"

definition skip_comment :: "parser \<Rightarrow> parser" where
  "skip_comment p =
     snd (consume_newline
       (p\<lparr>pr_position := pr_position p + length (takeWhile (\<lambda>c. \<not> (c = NL \<or> c = CR)) (p_rest p))\<rparr>))"

definition consume_export_prefix :: "parser \<Rightarrow> parser" where
  "consume_export_prefix p =
     (case strip_prefix (lit ''export'') (p_rest p) of
        None \<Rightarrow> p
      | Some [] \<Rightarrow> p
      | Some (next # _) \<Rightarrow>
          if \<not> is_horizontal_whitespace next then p
          else skip_horizontal_whitespace
                 (p\<lparr>pr_position := pr_position p + length (lit ''export'')\<rparr>))"

text \<open>\<^verbatim>\<open>Parser::quote_closes_on_line\<close>, given the text after the quote.\<close>

fun closes_on_line :: "uchar \<Rightarrow> bool \<Rightarrow> ustr \<Rightarrow> bool" where
  "closes_on_line quote escaped [] = False"
| "closes_on_line quote escaped (c # cs) =
     (if c = NL \<or> c = CR then False
      else if escaped then closes_on_line quote False cs
      else if c = BSL \<and> quote = DQ then closes_on_line quote True cs
      else if c = quote then True
      else closes_on_line quote False cs)"

definition quote_closes_on_line :: "ustr \<Rightarrow> nat \<Rightarrow> uchar \<Rightarrow> bool" where
  "quote_closes_on_line source position quote = closes_on_line quote False (drop (position + 1) source)"

section \<open>Lemmas\<close>

lemma peek_iff: "peek p = Some c \<longleftrightarrow>
    pr_position p < length (pr_source p) \<and> pr_source p ! pr_position p = c"
proof (cases "pr_position p < length (pr_source p)")
  case True
  then show ?thesis by (simp add: peek_def Cons_nth_drop_Suc [symmetric])
next
  case False
  then show ?thesis by (simp add: peek_def)
qed

lemma peek_None: "peek p = None \<longleftrightarrow> length (pr_source p) \<le> pr_position p"
proof (cases "p_rest p")
  case Nil
  then show ?thesis by (simp add: peek_def)
next
  case (Cons c cs)
  then have "\<not> length (pr_source p) \<le> pr_position p" by (metis drop_eq_Nil list.distinct(1))
  with Cons show ?thesis by (simp add: peek_def)
qed

lemma takeWhile_drop_bound: "i \<le> length s \<Longrightarrow> i + length (takeWhile P (drop i s)) \<le> length s"
  using length_takeWhile_le [of P "drop i s"] by simp

text \<open>
  Every move leaves the state unchanged except for the position, which does not decrease and
  stays inside the source.
\<close>

definition moved :: "parser \<Rightarrow> parser \<Rightarrow> bool" where
  "moved p q \<longleftrightarrow> (\<exists>i. q = p\<lparr>pr_position := i\<rparr> \<and> pr_position p \<le> i \<and>
     (pr_position p \<le> length (pr_source p) \<longrightarrow> i \<le> length (pr_source p)))"

lemma movedI: "pr_position p \<le> i \<Longrightarrow>
    (pr_position p \<le> length (pr_source p) \<Longrightarrow> i \<le> length (pr_source p)) \<Longrightarrow>
    moved p (p\<lparr>pr_position := i\<rparr>)"
  by (auto simp: moved_def)

lemma moved_refl [simp]: "moved p p"
  using movedI [of p "pr_position p"] by simp

lemma moved_trans [trans]: "moved p q \<Longrightarrow> moved q r \<Longrightarrow> moved p r"
  by (auto simp: moved_def)

lemma movedD:
  assumes "moved p q"
  shows "pr_source q = pr_source p" "pr_options q = pr_options p" "pr_base q = pr_base p"
    "pr_protected q = pr_protected p" "pr_parsed q = pr_parsed p" "pr_tracker q = pr_tracker p"
    "pr_input_overrides q = pr_input_overrides p" "pr_failed q = pr_failed p"
    "pr_position p \<le> pr_position q"
    "pr_position p \<le> length (pr_source p) \<Longrightarrow> pr_position q \<le> length (pr_source p)"
  using assms by (auto simp: moved_def)

lemma moved_advance: "moved p (advance p)"
proof (cases "peek p")
  case None
  then show ?thesis by (simp add: advance_def)
next
  case (Some c)
  then show ?thesis using peek_iff [of p c] by (auto simp: advance_def intro: movedI)
qed

lemma moved_skip_horizontal_whitespace: "moved p (skip_horizontal_whitespace p)"
  unfolding skip_horizontal_whitespace_def by (rule movedI) (simp_all add: takeWhile_drop_bound)

lemma moved_consume_newline: "moved p (snd (consume_newline p))"
  by (auto simp: consume_newline_def Let_def split: option.splits
      intro: moved_advance moved_trans [OF moved_advance moved_advance])

lemma moved_skip_comment: "moved p (skip_comment p)"
  unfolding skip_comment_def
  by (rule moved_trans [OF movedI moved_consume_newline]) (simp_all add: takeWhile_drop_bound)

lemma moved_consume_export_prefix: "moved p (consume_export_prefix p)"
proof -
  have "moved p (p\<lparr>pr_position := pr_position p + length (lit ''export'')\<rparr>)"
    if "strip_prefix (lit ''export'') (p_rest p) = Some r" for r
  proof (rule movedI)
    have "length (p_rest p) = length (lit ''export'') + length r"
      using that by (auto simp: strip_prefix_Some dest: arg_cong [where f = length])
    then show "pr_position p + length (lit ''export'') \<le> length (pr_source p)"
      if "pr_position p \<le> length (pr_source p)" using that by simp
  qed simp
  then show ?thesis
    unfolding consume_export_prefix_def
    by (auto split: option.splits list.splits
        intro: moved_trans [OF _ moved_skip_horizontal_whitespace])
qed

lemmas moved_moves = moved_refl moved_advance moved_skip_horizontal_whitespace
  moved_consume_newline moved_skip_comment moved_consume_export_prefix

end
