(* ===== verification/Dotenv_Expand.thy ===== *)
theory Dotenv_Expand
  imports Dotenv_Lex
begin

text \<open>
  Escapes and variable substitution in dotenv values: \<^verbatim>\<open>expand\<close>, \<^verbatim>\<open>expand_dollar\<close>,
  \<^verbatim>\<open>evaluate_substitution\<close> and the search for the end of a braced expression, from
  \<^verbatim>\<open>crates/mise-dotenv/src/parse.rs\<close>.  The mutual recursion of the code (a default word is
  expanded by the same routine) is a recursion on the length of the text; the tracker of
  consulted names is threaded through, in the order of the code's calls of \<^verbatim>\<open>variable\<close>.
\<close>

section \<open>Finding the end of a braced expression\<close>

text \<open>\<^verbatim>\<open>Parser::skip_quoted_default\<close>: the scan of the quoted word, as an offset into it.\<close>

fun quoted_word_end :: "uchar \<Rightarrow> bool \<Rightarrow> nat \<Rightarrow> ustr \<Rightarrow> nat option" where
  "quoted_word_end quote escaped offset [] = None"
| "quoted_word_end quote escaped offset (c # cs) =
     (if escaped then quoted_word_end quote False (offset + 1) cs
      else if c = BSL \<and> quote = DQ then quoted_word_end quote True (offset + 1) cs
      else if c = quote then Some (offset + 1)
      else quoted_word_end quote False (offset + 1) cs)"

definition strip_operator :: "ustr \<Rightarrow> ustr option" where
  "strip_operator operator =
     (let operator = (case strip_prefix [COLON] operator of Some r \<Rightarrow> r | None \<Rightarrow> operator)
      in case operator of
           [] \<Rightarrow> None
         | c # word \<Rightarrow> if c = MINUS \<or> c = QUESTION \<or> c = PLUS then Some word else None)"

definition skip_quoted_default :: "ustr \<Rightarrow> nat \<Rightarrow> nat" where
  "skip_quoted_default raw body_start =
     (let body = drop body_start raw in
      case body of
        [] \<Rightarrow> body_start
      | first # _ \<Rightarrow>
          if \<not> is_substitution_start first then body_start
          else case strip_operator (dropWhile is_substitution_continue body) of
                 None \<Rightarrow> body_start
               | Some [] \<Rightarrow> body_start
               | Some (quote # rest) \<Rightarrow>
                   if \<not> (quote = SQ \<or> quote = DQ) then body_start
                   else (let word_start = length raw - length (quote # rest)
                         in case quoted_word_end quote False 1 rest of
                              None \<Rightarrow> body_start
                            | Some n \<Rightarrow> word_start + n))"

lemma quoted_word_end_bounds:
  "quoted_word_end quote escaped offset cs = Some n \<Longrightarrow> offset < n \<and> n \<le> offset + length cs"
  by (induction quote escaped offset cs rule: quoted_word_end.induct) (fastforce split: if_splits)+

lemma strip_operator_length: "strip_operator s = Some w \<Longrightarrow> length w < length s"
  by (cases s) (auto simp: strip_operator_def Let_def split: option.splits list.splits if_splits)

lemma skip_quoted_default_bounds:
  assumes "i \<le> length raw"
  shows "i \<le> skip_quoted_default raw i \<and> skip_quoted_default raw i \<le> length raw"
proof -
  have "i \<le> length raw - Suc (length r) + n \<and> length raw - Suc (length r) + n \<le> length raw"
    if "strip_operator (dropWhile is_substitution_continue (drop i raw)) = Some (q # r)"
      and "quoted_word_end q False 1 r = Some n" for q r n
  proof -
    have "Suc (length r) < length (dropWhile is_substitution_continue (drop i raw))"
      using strip_operator_length [OF that(1)] by simp
    also have "\<dots> \<le> length raw - i"
      using length_dropWhile_le [of is_substitution_continue "drop i raw"] by simp
    finally show ?thesis using quoted_word_end_bounds [OF that(2)] by linarith
  qed
  then show ?thesis
    using assms
    by (auto simp: skip_quoted_default_def Let_def split: list.splits option.splits)
qed

text \<open>\<^verbatim>\<open>Parser::find_substitution_end\<close>: the loop, with the nesting depth.\<close>

function fse_loop :: "ustr \<Rightarrow> nat \<Rightarrow> nat \<Rightarrow> nat option" where
  "fse_loop raw depth position =
     (if position < length raw then
        (if starts_with [DOLLAR, LBRACE] (drop position raw)
         then fse_loop raw (depth + 1) (skip_quoted_default raw (position + 2))
         else if raw ! position = BSL
         then fse_loop raw depth
                (case drop (position + 1) raw of [] \<Rightarrow> position + 1 | _ # _ \<Rightarrow> position + 2)
         else if raw ! position = RBRACE
         then (if depth - 1 = 0 then Some position else fse_loop raw (depth - 1) (position + 1))
         else fse_loop raw depth (position + 1))
      else None)"
  by pat_completeness auto
termination
proof (relation "measure (\<lambda>(raw, depth, position). length raw - position)", goal_cases)
  case (2 raw depth position)
  then have "position + 2 \<le> length raw"
    by (auto simp: starts_with_iff dest!: arg_cong [where f = length])
  then show ?case using skip_quoted_default_bounds [of "position + 2" raw] 2 by auto
qed (auto split: list.splits)

declare fse_loop.simps [simp del]

definition find_substitution_end :: "ustr \<Rightarrow> nat \<Rightarrow> nat option" where
  "find_substitution_end raw position = fse_loop raw 1 (skip_quoted_default raw position)"

lemma fse_loop_bounds: "fse_loop raw depth position = Some e \<Longrightarrow> position \<le> e \<and> e < length raw \<and> raw ! e = RBRACE"
proof (induction raw depth position rule: fse_loop.induct)
  case (1 raw depth position)
  have inner: "position + 2 \<le> skip_quoted_default raw (position + 2)"
    if "starts_with [DOLLAR, LBRACE] (drop position raw)" "position < length raw"
  proof -
    have "position + 2 \<le> length raw"
      using that by (auto simp: starts_with_iff dest!: arg_cong [where f = length])
    then show ?thesis using skip_quoted_default_bounds by blast
  qed
  from 1 show ?case
    by (subst (asm) (5) fse_loop.simps) (force split: if_splits list.splits dest: inner)
qed

lemma find_substitution_end_bounds:
  assumes "find_substitution_end raw i = Some e" and "i \<le> length raw"
  shows "i \<le> e" and "e < length raw" and "raw ! e = RBRACE"
  using fse_loop_bounds [OF assms(1) [unfolded find_substitution_end_def]]
    skip_quoted_default_bounds [OF assms(2)] by auto

section \<open>Escapes\<close>

definition push_escape :: "ustr \<Rightarrow> value_style \<Rightarrow> uchar \<Rightarrow> ustr" where
  "push_escape output style escaped =
     (let decoded =
        (case style of
           DoubleQuoted \<Rightarrow>
             (if escaped = of_char (CHR ''a'') then Some 7
              else if escaped = of_char (CHR ''b'') then Some 8
              else if escaped = of_char (CHR ''f'') then Some 12
              else if escaped = of_char (CHR ''n'') then Some NL
              else if escaped = of_char (CHR ''r'') then Some CR
              else if escaped = of_char (CHR ''t'') then Some TAB
              else if escaped = of_char (CHR ''v'') then Some 11
              else if escaped \<in> {BSL, SQ, DQ, DOLLAR} then Some escaped
              else None)
         | SingleQuoted \<Rightarrow> None
         | Unquoted \<Rightarrow>
             (if escaped \<in> {BSL, SQ, DQ, DOLLAR, HASH, SP, TAB} then Some escaped else None))
      in case decoded of
           Some d \<Rightarrow> output @ [d]
         | None \<Rightarrow> output @ [BSL, escaped])"

section \<open>Variables\<close>

text \<open>
  \<^verbatim>\<open>key::get\<close> and \<^verbatim>\<open>key::insert\<close> on the platforms where names are case-sensitive: the map's own
  operations.
\<close>

definition key_get :: "(ustr \<rightharpoonup> 'v) \<Rightarrow> ustr \<Rightarrow> 'v option" where
  "key_get m key = m key"

definition key_contains :: "(ustr \<rightharpoonup> 'v) \<Rightarrow> ustr \<Rightarrow> bool" where
  "key_contains m key = (key_get m key \<noteq> None)"

definition key_insert :: "(ustr \<rightharpoonup> 'v) \<Rightarrow> ustr \<Rightarrow> 'v \<Rightarrow> 'v option \<times> (ustr \<rightharpoonup> 'v)" where
  "key_insert m key value = (m key, m(key \<mapsto> value))"

definition key_remove :: "(ustr \<rightharpoonup> 'v) \<Rightarrow> ustr \<Rightarrow> 'v option \<times> (ustr \<rightharpoonup> 'v)" where
  "key_remove m key = (if m key \<noteq> None then (m key, m(key := None)) else (None, m))"

definition or_else :: "'a option \<Rightarrow> 'a option \<Rightarrow> 'a option" where
  "or_else a b = (case a of Some x \<Rightarrow> Some x | None \<Rightarrow> b)"

definition variable :: "parser \<Rightarrow> ustr \<Rightarrow> tracker \<Rightarrow> ustr option \<times> tracker" where
  "variable p name tr =
     ((if pr_input_overrides p
       then or_else (key_get (pr_parsed p) name)
              (or_else (key_get (pr_base p) name) (key_get (pr_protected p) name))
       else or_else (key_get (pr_protected p) name)
              (or_else (key_get (pr_parsed p) name) (key_get (pr_base p) name))),
      map_option (insert name) tr)"

section \<open>Substitution\<close>

text \<open>
  \<^verbatim>\<open>Parser::evaluate_substitution\<close>.  The closure \<^verbatim>\<open>expand_word\<close> of the code, \<^verbatim>\<open>self.expand\<close> on the
  word after the operator, is built from the argument \<open>ex\<close>.
\<close>

type_synonym 'a expansion = "(parse_error + 'a) \<times> tracker"
type_synonym expander = "ustr \<Rightarrow> nat \<Rightarrow> tracker \<Rightarrow> ustr expansion"

fun substitution_name_end :: "bool \<Rightarrow> ustr \<Rightarrow> nat" where
  "substitution_name_end first [] = 0"
| "substitution_name_end first (c # cs) =
     (if (if first then is_substitution_start c else is_substitution_continue c)
      then Suc (substitution_name_end False cs) else 0)"

definition substitution_operators :: "ustr list" where
  "substitution_operators =
     [lit '':-'', lit '':?'', lit '':+'', lit ''-'', lit ''?'', lit ''+'']"

fun find_operator :: "ustr list \<Rightarrow> ustr \<Rightarrow> (ustr \<times> ustr) option" where
  "find_operator [] remainder = None"
| "find_operator (operator # ops) remainder =
     (case strip_prefix operator remainder of
        Some word \<Rightarrow> Some (operator, word)
      | None \<Rightarrow> find_operator ops remainder)"

definition required_variable ::
  "parser \<Rightarrow> ustr \<Rightarrow> nat \<Rightarrow> ustr expansion \<Rightarrow> ustr expansion" where
  "required_variable p name source_offset message =
     (case message of
        (Inl e, tr) \<Rightarrow> (Inl e, tr)
      | (Inr msg, tr) \<Rightarrow> (Inl (p_error p source_offset (RequiredVariable name msg)), tr))"

definition evaluate_substitution ::
  "expander \<Rightarrow> parser \<Rightarrow> ustr \<Rightarrow> nat \<Rightarrow> tracker \<Rightarrow> ustr expansion" where
  "evaluate_substitution ex p expression source_offset tr =
     (if expression = [] then (Inl (p_error p source_offset InvalidSubstitution), tr)
      else case variable p expression tr of
        (Some value, tr) \<Rightarrow> (Inr value, tr)
      | (None, tr) \<Rightarrow>
          (let name_end = substitution_name_end True expression in
           if name_end = 0 then (Inl (p_error p source_offset InvalidSubstitution), tr)
           else
             (let name = take name_end expression;
                  remainder = drop name_end expression
              in
              if remainder = [] then
                (case variable p name tr of
                   (value, tr) \<Rightarrow> (Inr (case value of Some v \<Rightarrow> v | None \<Rightarrow> []), tr))
              else
                (case find_operator substitution_operators remainder of
                   None \<Rightarrow> (Inl (p_error p (source_offset + name_end) InvalidSubstitution), tr)
                 | Some (operator, word) \<Rightarrow>
                     (case variable p name tr of
                        (value, tr) \<Rightarrow>
                          (let is_set = (value \<noteq> None);
                               is_nonempty = (case value of Some v \<Rightarrow> v \<noteq> [] | None \<Rightarrow> False);
                               word_offset = source_offset + name_end + length operator;
                               expand_word = ex word word_offset tr
                           in
                           if operator = lit ''-'' \<and> \<not> is_set then expand_word
                           else if operator = lit '':-'' \<and> \<not> is_nonempty then expand_word
                           else if operator = lit ''+'' \<and> is_set then expand_word
                           else if operator = lit '':+'' \<and> is_nonempty then expand_word
                           else if operator = lit ''+'' \<or> operator = lit '':+'' then (Inr [], tr)
                           else if operator = lit ''?'' \<and> \<not> is_set
                           then required_variable p name source_offset expand_word
                           else if operator = lit '':?'' \<and> \<not> is_nonempty
                           then required_variable p name source_offset expand_word
                           else (Inr (case value of Some v \<Rightarrow> v | None \<Rightarrow> []), tr)))))))"

text \<open>
  \<^verbatim>\<open>Parser::expand_dollar\<close>, called with the position after the dollar sign; it returns the new
  position and output.
\<close>

definition expand_dollar ::
  "expander \<Rightarrow> parser \<Rightarrow> ustr \<Rightarrow> nat \<Rightarrow> nat \<Rightarrow> ustr \<Rightarrow> tracker \<Rightarrow> (nat \<times> ustr) expansion" where
  "expand_dollar ex p raw position source_offset output tr =
     (if starts_with [DOLLAR] (drop position raw)
      then (Inr (position + 1, output @ [DOLLAR]), tr)
      else if starts_with [LBRACE] (drop position raw) then
        (let expression_start = position + 1 in
         case find_substitution_end raw expression_start of
           None \<Rightarrow> (Inl (p_error p (source_offset + (position - 1)) UnterminatedSubstitution), tr)
         | Some expression_end \<Rightarrow>
             (let expression = drop expression_start (take expression_end raw) in
              case evaluate_substitution ex p expression (source_offset + expression_start) tr of
                (Inr expanded, tr) \<Rightarrow> (Inr (expression_end + 1, output @ expanded), tr)
              | (Inl e, tr) \<Rightarrow>
                  if pe_kind e = InvalidSubstitution
                  then (Inr (expression_end + 1, output @ [DOLLAR, LBRACE] @ expression @ [RBRACE]), tr)
                  else (Inl e, tr)))
      else
        (case drop position raw of
           [] \<Rightarrow> (Inr (position, output @ [DOLLAR]), tr)
         | first # rest \<Rightarrow>
             if \<not> is_substitution_start first then (Inr (position, output @ [DOLLAR]), tr)
             else
               (let position' = position + 1 + length (takeWhile is_substitution_continue rest);
                    name = drop position (take position' raw)
                in case variable p name tr of
                     (Some value, tr) \<Rightarrow> (Inr (position', output @ value), tr)
                   | (None, tr) \<Rightarrow> (Inr (position', output), tr))))"

text \<open>
  The word handed to \<open>ex\<close> is shorter than the text around it, which is why the recursion ends.
\<close>

lemma find_operator_Some:
  "find_operator ops r = Some (operator, word) \<Longrightarrow> operator \<in> set ops \<and> r = operator @ word"
  by (induction ops r rule: find_operator.induct) (auto simp: strip_prefix_Some split: option.splits)

lemma evaluate_substitution_cong [fundef_cong]:
  assumes "p = p'" "expression = expression'" "source_offset = source_offset'" "tr = tr'"
    and ex: "\<And>w o' t. length w < length expression' \<Longrightarrow> ex w o' t = ex' w o' t"
  shows "evaluate_substitution ex p expression source_offset tr =
    evaluate_substitution ex' p' expression' source_offset' tr'"
proof -
  have "ex w o' t = ex' w o' t"
    if "find_operator substitution_operators (drop (substitution_name_end True expression) expression)
      = Some (operator, w)" and "substitution_name_end True expression \<noteq> 0" and "expression \<noteq> []"
    for w o' t operator
  proof (rule ex)
    have "length w \<le> length expression - substitution_name_end True expression"
      using find_operator_Some [OF that(1)] by (metis length_append length_drop le_add2)
    also have "\<dots> < length expression" using that(2,3) by simp
    finally show "length w < length expression'" using assms(2) by simp
  qed
  then show ?thesis
    unfolding assms(1-4) evaluate_substitution_def
    by (simp add: Let_def assms(1-4) cong: if_cong option.case_cong prod.case_cong)
qed

lemma expand_dollar_cong [fundef_cong]:
  assumes "p = p'" "raw = raw'" "position = position'" "source_offset = source_offset'"
    "output = output'" "tr = tr'"
    and ex: "\<And>w o' t. length w < length raw' \<Longrightarrow> ex w o' t = ex' w o' t"
  shows "expand_dollar ex p raw position source_offset output tr =
    expand_dollar ex' p' raw' position' source_offset' output' tr'"
proof -
  have "evaluate_substitution ex p (drop (position + 1) (take e raw)) (source_offset + (position + 1)) tr =
      evaluate_substitution ex' p (drop (position + 1) (take e raw)) (source_offset + (position + 1)) tr"
    for e
    by (rule evaluate_substitution_cong) (use assms(2) in \<open>auto intro: ex\<close>)
  then show ?thesis
    unfolding assms(1-6) expand_dollar_def by (simp add: Let_def assms(1-6) cong: if_cong option.case_cong)
qed

lemma expand_dollar_position:
  assumes "expand_dollar ex p raw i off out tr = (Inr (j, out'), tr')"
  shows "i \<le> j \<and> (i \<le> length raw \<longrightarrow> j \<le> length raw)"
proof -
  have brace: "Suc i \<le> e \<and> e < length raw"
    if "find_substitution_end raw (Suc i) = Some e" "starts_with [LBRACE] (drop i raw)" for e
  proof -
    have "Suc i \<le> length raw"
      using that(2) by (auto simp: starts_with_iff dest!: arg_cong [where f = length])
    with find_substitution_end_bounds [OF that(1)] show ?thesis by simp
  qed
  have name: "Suc (i + length (takeWhile is_substitution_continue r)) \<le> length raw"
    if "drop i raw = c # r" for c r
  proof -
    have "length raw - i = Suc (length r)" using that by (metis length_drop length_Cons)
    with length_takeWhile_le [of is_substitution_continue r] show ?thesis by linarith
  qed
  have dollar: "Suc i \<le> length raw" if "starts_with [DOLLAR] (drop i raw)"
    using that by (auto simp: starts_with_iff dest!: arg_cong [where f = length])
  show ?thesis
    using assms unfolding expand_dollar_def Let_def
    by (auto split: if_splits option.splits prod.splits sum.splits list.splits
        dest: brace name dollar)
qed

text \<open>\<^verbatim>\<open>Parser::expand\<close>: the loop, from a position and with the output so far.\<close>

function expand_loop ::
  "parser \<Rightarrow> ustr \<Rightarrow> nat \<Rightarrow> nat \<Rightarrow> value_style \<Rightarrow> ustr \<Rightarrow> tracker \<Rightarrow> ustr expansion" where
  "expand_loop p raw position source_offset style output tr =
     (if position < length raw then
        (if raw ! position = BSL \<and> style \<noteq> SingleQuoted then
           (case drop (position + 1) raw of
              [] \<Rightarrow> (Inr (output @ [BSL]), tr)
            | escaped # _ \<Rightarrow>
                expand_loop p raw (position + 2) source_offset style
                  (push_escape output style escaped) tr)
         else if raw ! position = DOLLAR \<and> po_substitution (pr_options p) \<and> style \<noteq> SingleQuoted then
           (case expand_dollar (\<lambda>word offset tr. expand_loop p word 0 offset style [] tr)
                   p raw (position + 1) source_offset output tr of
              (Inl e, tr) \<Rightarrow> (Inl e, tr)
            | (Inr (position', output'), tr) \<Rightarrow>
                expand_loop p raw position' source_offset style output' tr)
         else if raw ! position = CR then
           expand_loop p raw
             (if starts_with [NL] (drop (position + 1) raw) then position + 2 else position + 1)
             source_offset style (output @ [NL]) tr
         else expand_loop p raw (position + 1) source_offset style (output @ [raw ! position]) tr)
      else (Inr output, tr))"
  by pat_completeness auto
termination
proof (relation "measures [\<lambda>(p, raw, position, _). length raw, \<lambda>(p, raw, position, _). length raw - position]",
    goal_cases)
  case (4 p raw position off style out tr x y z a b)
  have "expand_dollar (\<lambda>word offset. expand_loop p word 0 offset style []) p raw
      (position + 1) off out tr = (Inr (a, b), y)" using 4(4-6) by simp
  from expand_dollar_position [OF this] 4(1) show ?case by auto
qed auto

declare expand_loop.simps [simp del]

definition expand :: "parser \<Rightarrow> ustr \<Rightarrow> nat \<Rightarrow> value_style \<Rightarrow> tracker \<Rightarrow> ustr expansion" where
  "expand p raw source_offset style tr = expand_loop p raw 0 source_offset style [] tr"

end
