(* ===== verification/Dotenv_Parse.thy ===== *)
theory Dotenv_Parse
  imports Dotenv_Expand
begin

text \<open>
  The dotenv parser proper: quoted and unquoted segments, values, assignments and the entries
  of a document (\<^verbatim>\<open>Parser::next_entry\<close> and what it calls, \<^verbatim>\<open>crates/mise-dotenv/src/parse.rs\<close>).
  An operation takes the parser's state and returns a result together with the new state, also
  when it fails.  The loops over the source are functions from a position to the position where
  they stop and the reason; that they stop is part of their definition, and for the loops over
  segments and over entries it rests on lemmas proved here.
\<close>

section \<open>Scanning\<close>

text \<open>Why a scan stopped: at its natural end, at a quote, or with an error at a position.\<close>

datatype scan_end = ScanEnd | ScanQuote | ScanError nat parse_error_kind

text \<open>The loop of \<^verbatim>\<open>parse_assignment\<close> over the key.\<close>

fun key_scan :: "nat \<Rightarrow> ustr \<Rightarrow> nat \<times> scan_end" where
  "key_scan position [] = (position, ScanEnd)"
| "key_scan position (c # cs) =
     (if c = EQUALS \<or> is_horizontal_whitespace c then (position, ScanEnd)
      else if c = NL \<or> c = CR \<or> c = HASH then (position, ScanEnd)
      else if c = NUL \<or> is_control c then (position, ScanError position (InvalidKeyCharacter c))
      else key_scan (position + 1) cs)"

text \<open>The loop of \<^verbatim>\<open>parse_quoted\<close>; \<open>ScanQuote\<close> is the closing quote, \<open>ScanEnd\<close> the end of the source.\<close>

fun quoted_scan :: "uchar \<Rightarrow> value_style \<Rightarrow> bool \<Rightarrow> nat \<Rightarrow> bool \<Rightarrow> ustr \<Rightarrow> nat \<times> scan_end" where
  "quoted_scan quote style multiline position escaped [] = (position, ScanEnd)"
| "quoted_scan quote style multiline position escaped (c # cs) =
     (if c = NL \<or> c = CR then
        (if \<not> multiline then (position, ScanError position MultilineDisabled)
         else case cs of
                d # ds \<Rightarrow>
                  if c = CR \<and> d = NL then quoted_scan quote style multiline (position + 2) False ds
                  else quoted_scan quote style multiline (position + 1) False cs
              | [] \<Rightarrow> quoted_scan quote style multiline (position + 1) False cs)
      else if c = NUL then (position, ScanError position (InvalidValueCharacter c))
      else if c = quote \<and> \<not> escaped then (position, ScanQuote)
      else quoted_scan quote style multiline (position + 1)
             (if c = BSL \<and> style \<noteq> SingleQuoted then \<not> escaped else False) cs)"

text \<open>
  The branch of \<^verbatim>\<open>parse_unquoted\<close> at an unescaped dollar sign when substitution is on: the
  position from which the loop advances, or the position of a NUL inside a braced expression.
\<close>

definition unquoted_dollar :: "ustr \<Rightarrow> nat \<Rightarrow> nat + nat" where
  "unquoted_dollar source position =
     (let after_dollar = position + 1 in
      if starts_with [DOLLAR] (drop after_dollar source) then Inr (position + 1)
      else if starts_with [LBRACE] (drop after_dollar source) then
        (let line_end = after_dollar
               + length (takeWhile (\<lambda>c. \<not> (c = NL \<or> c = CR)) (drop after_dollar source))
         in case find_substitution_end (take line_end source) (after_dollar + 1) of
              None \<Rightarrow> Inr position
            | Some e \<Rightarrow>
                (let inner = drop after_dollar (take e source) in
                 if NUL \<in> set inner then Inl (after_dollar + length (takeWhile (\<lambda>c. c \<noteq> NUL) inner))
                 else Inr e))
      else Inr position)"

lemma unquoted_dollar_bounds:
  assumes "unquoted_dollar source position = Inr i" and "position < length source"
  shows "position \<le> i \<and> i < length source"
proof -
  let ?le = "Suc position + length (takeWhile (\<lambda>c. \<not> (c = NL \<or> c = CR)) (drop (Suc position) source))"
  have brace: "position \<le> e \<and> e < length source"
    if f: "find_substitution_end (take ?le source) (Suc (Suc position)) = Some e"
      and b: "starts_with [LBRACE] (drop (Suc position) source)" for e
  proof -
    obtain r where r: "drop (Suc position) source = LBRACE # r"
      using b by (auto simp: starts_with_iff)
    then have "Suc (Suc position) \<le> length source"
      by (metis drop_eq_Nil list.distinct(1) not_less_eq_eq)
    moreover have "Suc (Suc position) \<le> ?le" by (simp add: r)
    ultimately show ?thesis using find_substitution_end_bounds [OF f] by simp
  qed
  have "Suc position < length source" if "starts_with [DOLLAR] (drop (Suc position) source)"
    using that by (auto simp: starts_with_iff dest!: arg_cong [where f = length])
  with assms brace show ?thesis
    by (auto simp: unquoted_dollar_def Let_def split: if_splits option.splits)
qed

text \<open>The loop of \<^verbatim>\<open>parse_unquoted\<close>; \<open>ScanQuote\<close> is \<^verbatim>\<open>ended = false\<close>.\<close>

function unquoted_scan :: "bool \<Rightarrow> ustr \<Rightarrow> nat \<Rightarrow> bool \<Rightarrow> nat \<times> scan_end" where
  "unquoted_scan substitution source position escaped =
     (if position < length source then
        (let c = source ! position in
         if c = NL \<or> c = CR then (position, ScanEnd)
         else if c = NUL then (position, ScanError position (InvalidValueCharacter c))
         else if escaped then unquoted_scan substitution source (position + 1) False
         else if c = BSL then unquoted_scan substitution source (position + 1) True
         else if c = DOLLAR \<and> substitution then
           (case unquoted_dollar source position of
              Inl offset \<Rightarrow> (position, ScanError offset (InvalidValueCharacter NUL))
            | Inr i \<Rightarrow> unquoted_scan substitution source (i + 1) False)
         else if (c = SQ \<or> c = DQ) \<and> quote_closes_on_line source position c
         then (position, ScanQuote)
         else if c = HASH \<and> (case previous source position of
                                Some b \<Rightarrow> is_horizontal_whitespace b | None \<Rightarrow> False)
         then (position, ScanEnd)
         else unquoted_scan substitution source (position + 1) False)
      else (position, ScanEnd))"
  by pat_completeness auto
termination
  by (relation "measure (\<lambda>(substitution, source, position, escaped). length source - position)")
    (auto dest: unquoted_dollar_bounds)

declare unquoted_scan.simps [simp del]

fun trim_loop :: "ustr \<Rightarrow> nat \<Rightarrow> nat" where
  "trim_loop value 0 = 0"
| "trim_loop value (Suc n) =
     (if \<not> is_horizontal_whitespace (value ! n) then Suc n
      else if odd (length (takeWhile (\<lambda>c. c = BSL) (rev (take n value)))) then Suc n
      else trim_loop value n)"

definition trim_unquoted_trailing_whitespace :: "ustr \<Rightarrow> ustr" where
  "trim_unquoted_trailing_whitespace value = take (trim_loop value (length value)) value"

section \<open>Segments\<close>

definition parse_quoted ::
  "parser \<Rightarrow> uchar \<Rightarrow> value_style \<Rightarrow> (parse_error + ustr) \<times> parser" where
  "parse_quoted p quote style =
     (let quote_position = pr_position p;
          p = advance p;
          value_start = pr_position p
      in case quoted_scan quote style (po_multiline (pr_options p)) value_start False (p_rest p) of
           (i, ScanEnd) \<Rightarrow>
             (Inl (p_error p quote_position (UnterminatedQuote quote)), p\<lparr>pr_position := i\<rparr>)
         | (i, ScanError offset kind) \<Rightarrow> (Inl (p_error p offset kind), p\<lparr>pr_position := i\<rparr>)
         | (i, ScanQuote) \<Rightarrow>
             (let p = advance (p\<lparr>pr_position := i\<rparr>);
                  raw = drop value_start (take i (pr_source p))
              in case expand p raw value_start style (pr_tracker p) of
                   (r, tr) \<Rightarrow> (r, p\<lparr>pr_tracker := tr\<rparr>)))"

definition parse_unquoted :: "parser \<Rightarrow> (parse_error + ustr \<times> bool) \<times> parser" where
  "parse_unquoted p =
     (let value_start = pr_position p in
      case unquoted_scan (po_substitution (pr_options p)) (pr_source p) value_start False of
        (i, ScanError offset kind) \<Rightarrow> (Inl (p_error p offset kind), p\<lparr>pr_position := i\<rparr>)
      | (i, stop) \<Rightarrow>
          (let ended = (stop = ScanEnd);
               p = p\<lparr>pr_position := i\<rparr>;
               raw = drop value_start (take i (pr_source p));
               raw = (if ended then trim_unquoted_trailing_whitespace raw else raw)
           in case expand p raw value_start Unquoted (pr_tracker p) of
                (Inl e, tr) \<Rightarrow> (Inl e, p\<lparr>pr_tracker := tr\<rparr>)
              | (Inr value, tr) \<Rightarrow>
                  (let p = p\<lparr>pr_tracker := tr\<rparr>;
                       p = (if ended
                            then (if peek p = Some HASH then skip_comment p
                                  else snd (consume_newline p))
                            else p)
                   in (Inr (value, ended), p))))"

text \<open>
  What the operations on segments change: the position, which does not decrease and stays in
  the source, and the tracker.
\<close>

definition stepped :: "parser \<Rightarrow> parser \<Rightarrow> bool" where
  "stepped p q \<longleftrightarrow> (\<exists>i tr. q = p\<lparr>pr_position := i, pr_tracker := tr\<rparr> \<and> pr_position p \<le> i \<and>
     (pr_position p \<le> length (pr_source p) \<longrightarrow> i \<le> length (pr_source p)))"

lemma steppedI: "pr_position p \<le> i \<Longrightarrow>
    (pr_position p \<le> length (pr_source p) \<Longrightarrow> i \<le> length (pr_source p)) \<Longrightarrow>
    stepped p (p\<lparr>pr_position := i, pr_tracker := tr\<rparr>)"
  by (auto simp: stepped_def)

lemma stepped_moved: "moved p q \<Longrightarrow> stepped p q"
  unfolding moved_def stepped_def
proof (elim exE conjE)
  fix i assume "q = p\<lparr>pr_position := i\<rparr>" and *: "pr_position p \<le> i"
    "pr_position p \<le> length (pr_source p) \<longrightarrow> i \<le> length (pr_source p)"
  then have "q = p\<lparr>pr_position := i, pr_tracker := pr_tracker p\<rparr>" by simp
  with * show "\<exists>i tr. q = p\<lparr>pr_position := i, pr_tracker := tr\<rparr> \<and> pr_position p \<le> i \<and>
      (pr_position p \<le> length (pr_source p) \<longrightarrow> i \<le> length (pr_source p))" by blast
qed

lemma stepped_tracker: "stepped p (p\<lparr>pr_tracker := tr\<rparr>)"
  using steppedI [of p "pr_position p" tr] by simp

lemma stepped_trans [trans]: "stepped p q \<Longrightarrow> stepped q r \<Longrightarrow> stepped p r"
  unfolding stepped_def
proof (elim exE conjE)
  fix i j tr tr' assume "q = p\<lparr>pr_position := i, pr_tracker := tr\<rparr>"
    "r = q\<lparr>pr_position := j, pr_tracker := tr'\<rparr>" and *: "pr_position p \<le> i" "pr_position q \<le> j"
    "pr_position p \<le> length (pr_source p) \<longrightarrow> i \<le> length (pr_source p)"
    "pr_position q \<le> length (pr_source q) \<longrightarrow> j \<le> length (pr_source q)"
  then show "\<exists>i tr. r = p\<lparr>pr_position := i, pr_tracker := tr\<rparr> \<and> pr_position p \<le> i \<and>
      (pr_position p \<le> length (pr_source p) \<longrightarrow> i \<le> length (pr_source p))"
    by (intro exI [of _ j] exI [of _ tr']) simp
qed

lemma steppedD:
  assumes "stepped p q"
  shows "pr_source q = pr_source p" "pr_options q = pr_options p" "pr_base q = pr_base p"
    "pr_protected q = pr_protected p" "pr_parsed q = pr_parsed p"
    "pr_input_overrides q = pr_input_overrides p" "pr_failed q = pr_failed p"
    "pr_position p \<le> pr_position q"
    "pr_position p \<le> length (pr_source p) \<Longrightarrow> pr_position q \<le> length (pr_source p)"
  using assms by (auto simp: stepped_def)

lemma key_scan_bounds:
  "fst (key_scan i cs) \<ge> i \<and> fst (key_scan i cs) \<le> i + length cs"
  by (induction i cs rule: key_scan.induct) auto

lemma quoted_scan_bounds:
  "quoted_scan quote style m i esc cs = (j, e) \<Longrightarrow>
   i \<le> j \<and> j \<le> i + length cs \<and> (e = ScanQuote \<longrightarrow> j < i + length cs)"
proof (induction quote style m i esc cs rule: quoted_scan.induct)
  case (1 quote style multiline position escaped)
  then show ?case by simp
next
  case (2 quote style multiline position escaped c cs)
  show ?case
  proof (cases "c = NL \<or> c = CR")
    case True
    show ?thesis
    proof (cases cs)
      case Nil
      with True "2.prems" show ?thesis by (auto split: if_splits)
    next
      case (Cons d ds)
      from 2 True Cons show ?thesis by (simp split: if_splits; force)
    qed
  next
    case False
    with 2 show ?thesis by (simp split: if_splits; force)
  qed
qed

text \<open>One round of the unquoted scan: it stops where it is or goes on from a later position.\<close>

lemma unquoted_scan_step:
  assumes "unquoted_scan sub s i esc = (j, e)" and i: "i < length s"
  shows "j = i \<or> (\<exists>k esc'. i < k \<and> k \<le> length s \<and> unquoted_scan sub s k esc' = (j, e))"
proof -
  have one: ?thesis if "unquoted_scan sub s (Suc i) b = (j, e)" for b
    using that i by (intro disjI2 exI [of _ "Suc i"] exI [of _ b]) simp
  have dollar: ?thesis
    if "unquoted_dollar s i = Inr k" "unquoted_scan sub s (Suc k) False = (j, e)" for k
    using unquoted_dollar_bounds [OF that(1) i] that(2)
    by (intro disjI2 exI [of _ "Suc k"] exI [of _ False]) simp
  show ?thesis
    using assms one dollar
    by (subst (asm) unquoted_scan.simps) (simp add: Let_def split: if_splits sum.splits)
qed

lemma unquoted_scan_bounds:
  assumes "unquoted_scan sub s i esc = (j, e)"
  shows "i \<le> j \<and> (i \<le> length s \<longrightarrow> j \<le> length s) \<and> (e = ScanQuote \<longrightarrow> j < length s)"
  using assms
proof (induction "length s - i" arbitrary: i esc rule: less_induct)
  case less
  show ?case
  proof (cases "i < length s")
    case True
    from unquoted_scan_step [OF less.prems True] show ?thesis
    proof
      assume "j = i"
      with True show ?thesis by simp
    next
      assume "\<exists>k esc'. i < k \<and> k \<le> length s \<and> unquoted_scan sub s k esc' = (j, e)"
      then obtain k esc' where k: "i < k" "k \<le> length s" and r: "unquoted_scan sub s k esc' = (j, e)"
        by blast
      have "length s - k < length s - i" using k by simp
      from less.hyps [OF this r] k show ?thesis by simp
    qed
  next
    case False
    with less.prems show ?thesis by (simp add: unquoted_scan.simps)
  qed
qed

lemma advance_position: "peek p = Some c \<Longrightarrow> advance p = p\<lparr>pr_position := Suc (pr_position p)\<rparr>"
  by (simp add: advance_def)

lemma parse_quoted_stepped:
  assumes "parse_quoted p q style = (r, p')" and "peek p = Some c"
  shows "stepped p p'" and "pr_position p < pr_position p'"
proof -
  let ?p = "p\<lparr>pr_position := Suc (pr_position p)\<rparr>"
  have pos: "pr_position p < length (pr_source p)" using assms(2) by (simp add: peek_iff)
  obtain i e where scan: "quoted_scan q style (po_multiline (pr_options ?p)) (pr_position ?p) False (p_rest ?p) = (i, e)"
    by fastforce
  note b = quoted_scan_bounds [OF scan]
  have i: "Suc (pr_position p) \<le> i" "i \<le> length (pr_source p)" "e = ScanQuote \<longrightarrow> i < length (pr_source p)"
    using b pos by auto
  have "\<exists>j tr. p' = p\<lparr>pr_position := j, pr_tracker := tr\<rparr> \<and> Suc (pr_position p) \<le> j \<and> j \<le> length (pr_source p)"
  proof (cases e)
    case ScanQuote
    then have "peek (p\<lparr>pr_position := i\<rparr>) = Some (pr_source p ! i)" using i by (simp add: peek_iff)
    then have "advance (p\<lparr>pr_position := i\<rparr>) = p\<lparr>pr_position := Suc i\<rparr>"
      by (simp add: advance_position)
    with assms scan ScanQuote i show ?thesis
      by (auto simp: parse_quoted_def Let_def advance_position [OF assms(2)] split: prod.splits
          intro!: exI [of _ "Suc i"])
  next
    case ScanEnd
    with assms scan i show ?thesis
      by (auto simp: parse_quoted_def Let_def advance_position [OF assms(2)]
          intro!: exI [of _ i] exI [of _ "pr_tracker p"])
  next
    case (ScanError off k)
    with assms scan i show ?thesis
      by (auto simp: parse_quoted_def Let_def advance_position [OF assms(2)]
          intro!: exI [of _ i] exI [of _ "pr_tracker p"])
  qed
  then show "stepped p p'" "pr_position p < pr_position p'" by (auto intro: steppedI)
qed

lemma parse_unquoted_stepped:
  assumes "parse_unquoted p = (r, p')"
  shows "stepped p p'"
proof -
  let ?s = "pr_source p"
  obtain i e where scan: "unquoted_scan (po_substitution (pr_options p)) ?s (pr_position p) False = (i, e)"
    by fastforce
  note b = unquoted_scan_bounds [OF scan]
  have st: "stepped p (p\<lparr>pr_position := i, pr_tracker := tr\<rparr>)" for tr
    using b by (intro steppedI) simp_all
  have st': "stepped p (p\<lparr>pr_position := i\<rparr>)" using st [of "pr_tracker p"] by simp
  note mv = stepped_trans [OF st stepped_moved [OF moved_skip_comment]]
    stepped_trans [OF st stepped_moved [OF moved_consume_newline]]
  show ?thesis
    using assms scan mv st st'
    by (auto simp: parse_unquoted_def Let_def split: scan_end.splits sum.splits prod.splits if_splits)
qed

text \<open>
  An unquoted segment that does not end the value stops at a quote that closes on its line; if
  it did not start there, it has consumed something.
\<close>

lemma parse_unquoted_progress:
  assumes "parse_unquoted p = (Inr (v, False), p')"
    and "\<nexists>q. peek p = Some q \<and> (q = SQ \<or> q = DQ) \<and> quote_closes_on_line (pr_source p) (pr_position p) q"
  shows "pr_position p < pr_position p'" and "pr_position p < length (pr_source p)"
proof -
  let ?s = "pr_source p"
  obtain i e where scan: "unquoted_scan (po_substitution (pr_options p)) ?s (pr_position p) False = (i, e)"
    by fastforce
  have p': "e = ScanQuote" "pr_position p' = i"
    using assms(1) scan
    by (auto simp: parse_unquoted_def Let_def split: scan_end.splits sum.splits prod.splits if_splits)
  note b = unquoted_scan_bounds [OF scan]
  show pos: "pr_position p < length ?s" using b p' by linarith
  have dollar: "pr_position p < j"
    if "unquoted_dollar ?s (pr_position p) = Inr k" "unquoted_scan b ?s (Suc k) False = (j, e')" for k b j e'
    using unquoted_dollar_bounds [OF that(1) pos] unquoted_scan_bounds [OF that(2)] by simp
  have "i \<noteq> pr_position p"
    using scan p' assms(2) pos
    by (subst (asm) unquoted_scan.simps)
      (auto simp: Let_def peek_iff split: if_splits sum.splits dest: unquoted_scan_bounds dollar)
  with b p' show "pr_position p < pr_position p'" by simp
qed

section \<open>Values\<close>

definition quote_style :: "uchar \<Rightarrow> value_style" where
  "quote_style quote = (if quote = SQ then SingleQuoted else DoubleQuoted)"

definition opens_segment :: "parser \<Rightarrow> bool \<Rightarrow> uchar option" where
  "opens_segment p first_segment =
     (case peek p of
        Some quote \<Rightarrow>
          if (quote = SQ \<or> quote = DQ) \<and>
             (first_segment \<or> quote_closes_on_line (pr_source p) (pr_position p) quote)
          then Some quote else None
      | None \<Rightarrow> None)"

text \<open>The loop of \<^verbatim>\<open>parse_value\<close> over the segments of a value.\<close>

function value_loop :: "parser \<Rightarrow> ustr \<Rightarrow> bool \<Rightarrow> (parse_error + ustr) \<times> parser" where
  "value_loop p value first_segment =
     (case opens_segment p first_segment of
        Some quote \<Rightarrow>
          (case parse_quoted p quote (quote_style quote) of
             (Inl e, p) \<Rightarrow> (Inl e, p)
           | (Inr v, p) \<Rightarrow> value_loop p (value @ v) False)
      | None \<Rightarrow>
          (case parse_unquoted p of
             (Inl e, p) \<Rightarrow> (Inl e, p)
           | (Inr (segment, ended), p) \<Rightarrow>
               if ended then (Inr (value @ segment), p)
               else value_loop p (value @ segment) False))"
  by pat_completeness auto
termination
proof (relation "measure (\<lambda>(p, value, first_segment). length (pr_source p) - pr_position p)", goal_cases)
  case 1
  show ?case by simp
next
  case (2 p val first_segment r p' v segment ended)
  have u: "parse_unquoted p = (Inr (segment, False), p')" using 2 by simp
  have "\<nexists>q. peek p = Some q \<and> (q = SQ \<or> q = DQ) \<and> quote_closes_on_line (pr_source p) (pr_position p) q"
    using 2(1) by (auto simp: opens_segment_def split: option.splits if_splits)
  from parse_unquoted_progress [OF u this] steppedD(1) [OF parse_unquoted_stepped [OF u]]
  show ?case by simp
next
  case (3 p val first_segment quote r p' v)
  have "peek p = Some quote"
    using 3(1) by (auto simp: opens_segment_def split: option.splits if_splits)
  moreover have "parse_quoted p quote (quote_style quote) = (Inr v, p')" using 3(2,3) by simp
  ultimately show ?case
    using parse_quoted_stepped steppedD(1) peek_iff by fastforce
qed

declare value_loop.simps [simp del]

definition parse_value :: "parser \<Rightarrow> (parse_error + ustr) \<times> parser" where
  "parse_value p = value_loop p [] True"

lemma value_loop_stepped: "value_loop p val first = (r, p') \<Longrightarrow> stepped p p'"
proof (induction p val first rule: value_loop.induct)
  case (1 p val first)
  show ?case
  proof (cases "opens_segment p first")
    case None
    obtain u q where u: "parse_unquoted p = (u, q)" by fastforce
    note st = parse_unquoted_stepped [OF u]
    show ?thesis
    proof (cases u)
      case (Inl e)
      with "1.prems" None u st show ?thesis by (simp add: value_loop.simps)
    next
      case (Inr v)
      obtain segment ended where v: "v = (segment, ended)" by fastforce
      show ?thesis
      proof (cases ended)
        case True
        with "1.prems" None u st Inr v show ?thesis by (simp add: value_loop.simps)
      next
        case False
        with "1.prems" None u Inr v have "value_loop q (val @ segment) False = (r, p')"
          by (subst (asm) value_loop.simps) simp
        from "1.IH"(1) [OF None u [symmetric] Inr v [symmetric] False this] st
        show ?thesis by (metis stepped_trans)
      qed
    qed
  next
    case (Some quote)
    then have "peek p = Some quote" by (auto simp: opens_segment_def split: option.splits if_splits)
    obtain u q where u: "parse_quoted p quote (quote_style quote) = (u, q)" by fastforce
    note st = parse_quoted_stepped(1) [OF u \<open>peek p = Some quote\<close>]
    show ?thesis
    proof (cases u)
      case (Inl e)
      with "1.prems" Some u st show ?thesis by (simp add: value_loop.simps)
    next
      case (Inr v)
      with "1.prems" Some u have "value_loop q (val @ v) False = (r, p')"
        by (subst (asm) value_loop.simps) simp
      from "1.IH"(2) [OF Some u [symmetric] Inr this] st show ?thesis by (metis stepped_trans)
    qed
  qed
qed

section \<open>Assignments and entries\<close>

definition parse_assignment :: "parser \<Rightarrow> (parse_error + ustr \<times> ustr) \<times> parser" where
  "parse_assignment p =
     (let p = consume_export_prefix p;
          key_start = pr_position p
      in case key_scan key_start (p_rest p) of
           (i, ScanError offset kind) \<Rightarrow> (Inl (p_error p offset kind), p\<lparr>pr_position := i\<rparr>)
         | (i, _) \<Rightarrow>
             (let p = p\<lparr>pr_position := i\<rparr> in
              if pr_position p = key_start then (Inl (p_error p key_start MissingKey), p)
              else
                (let key = drop key_start (take (pr_position p) (pr_source p));
                     p = skip_horizontal_whitespace p
                 in if peek p \<noteq> Some EQUALS
                    then (Inl (p_error p (pr_position p) MissingEquals), p)
                    else
                      (let p = skip_horizontal_whitespace (advance p) in
                       if peek p = None \<or> peek p = Some NL \<or> peek p = Some CR \<or> peek p = Some HASH
                       then (Inr (key, []),
                             if peek p = Some HASH then skip_comment p else snd (consume_newline p))
                       else case parse_value p of
                              (Inl e, p) \<Rightarrow> (Inl e, p)
                            | (Inr v, p) \<Rightarrow> (Inr (key, v), p)))))"

lemma parse_assignment_stepped:
  assumes "parse_assignment p = (r, p')"
  shows "stepped p p'" and "r = Inr kv \<Longrightarrow> pr_position p < pr_position p'"
    and "r = Inr kv \<Longrightarrow> pr_position p < length (pr_source p)"
proof -
  define p1 where "p1 = consume_export_prefix p"
  obtain i e where scan: "key_scan (pr_position p1) (p_rest p1) = (i, e)" by fastforce
  define p2 where "p2 = p1\<lparr>pr_position := i\<rparr>"
  define p3 where "p3 = skip_horizontal_whitespace p2"
  define p4 where "p4 = skip_horizontal_whitespace (advance p3)"
  have b: "pr_position p1 \<le> i" "i \<le> pr_position p1 + length (p_rest p1)"
    using key_scan_bounds [of "pr_position p1" "p_rest p1"] scan by simp_all
  have "moved p p1" by (simp add: p1_def moved_moves)
  also have m12: "moved p1 p2" unfolding p2_def using b by (intro movedI) auto
  finally have m2: "moved p p2" .
  also have "moved p2 p3" by (simp add: p3_def moved_moves)
  finally have m3: "moved p p3" .
  also have "moved p3 p4"
    unfolding p4_def by (rule moved_trans [OF moved_advance moved_skip_horizontal_whitespace])
  finally have m4: "moved p p4" .
  note def = assms [unfolded parse_assignment_def Let_def, folded p1_def, unfolded scan, simplified,
      folded p2_def, folded p3_def, folded p4_def]
  obtain pv q where pv: "parse_value p4 = (pv, q)" by fastforce
  have q: "stepped p4 q" using value_loop_stepped pv by (auto simp: parse_value_def)
  have st: "stepped p p2" "stepped p p3" "stepped p (skip_comment p4)"
    "stepped p (snd (consume_newline p4))" "stepped p q"
    using m2 m3 m4 stepped_trans [OF stepped_moved [OF m4] q]
    by (auto intro!: stepped_moved intro: moved_trans moved_moves)
  show "stepped p p'"
    using def pv st by (cases e) (auto split: if_splits sum.splits prod.splits)
  have "pr_position p < length (pr_source p)" if "peek p3 = Some EQUALS"
    using that movedD(1,9) [OF m3] by (auto simp: peek_iff)
  then show "pr_position p < length (pr_source p)" if "r = Inr kv"
    using def pv that by (cases e; simp split: if_splits)
  have "pr_position p < pr_position p4" if "i \<noteq> pr_position p1" "peek p3 = Some EQUALS"
  proof -
    have "pr_position p3 < pr_position (advance p3)" using that(2) by (simp add: advance_position)
    also have "\<dots> \<le> pr_position p4"
      unfolding p4_def using movedD(9) [OF moved_skip_horizontal_whitespace] .
    finally show ?thesis using movedD(9) [OF m3] by simp
  qed
  moreover have "pr_position p4 \<le> pr_position (skip_comment p4)"
    "pr_position p4 \<le> pr_position (snd (consume_newline p4))" "pr_position p4 \<le> pr_position q"
    using movedD(9) [OF moved_skip_comment] movedD(9) [OF moved_consume_newline] steppedD(8) [OF q] by auto
  ultimately show "pr_position p < pr_position p'" if "r = Inr kv"
    using def pv that by (cases e; cases pv; simp split: if_splits; linarith?)
qed

text \<open>The loop of \<^verbatim>\<open>next_entry\<close> over blank lines and comments, up to an assignment.\<close>

lemma consume_newline_progress:
  assumes "consume_newline p = (True, q)"
  shows "pr_position p < pr_position q" and "pr_position p < length (pr_source p)"
proof -
  obtain c where c: "peek p = Some c" "c = CR \<or> c = NL"
    using assms by (auto simp: consume_newline_def split: option.splits if_splits)
  then show "pr_position p < length (pr_source p)" by (simp add: peek_iff)
  have "pr_position p < pr_position (advance p)" using c by (simp add: advance_position)
  moreover have "pr_position (advance p) \<le> pr_position q"
    using assms c movedD(9) [OF moved_advance]
    by (auto simp: consume_newline_def Let_def split: option.splits if_splits)
  ultimately show "pr_position p < pr_position q" by simp
qed

lemma skip_comment_progress:
  assumes "peek p = Some HASH"
  shows "pr_position p < pr_position (skip_comment p)" and "pr_position p < length (pr_source p)"
proof -
  show pos: "pr_position p < length (pr_source p)" using assms by (simp add: peek_iff)
  have "p_rest p = HASH # drop (Suc (pr_position p)) (pr_source p)"
    using assms pos by (simp add: peek_iff Cons_nth_drop_Suc [symmetric])
  then have "0 < length (takeWhile (\<lambda>c. \<not> (c = NL \<or> c = CR)) (p_rest p))" by simp
  with movedD(9) [OF moved_consume_newline] show "pr_position p < pr_position (skip_comment p)"
    unfolding skip_comment_def by (metis (no_types, lifting) less_add_same_cancel1 order_less_le_trans
        parser.select_convs(2) parser.surjective parser.update_convs(2))
qed

function entry_loop :: "parser \<Rightarrow> (parse_error + ustr \<times> ustr) option \<times> parser" where
  "entry_loop p =
     (let p = skip_horizontal_whitespace p in
      if at_end p then (None, p)
      else case consume_newline p of
             (True, p) \<Rightarrow> entry_loop p
           | (False, p) \<Rightarrow>
               if peek p = Some HASH then entry_loop (skip_comment p)
               else case parse_assignment p of
                      (Inr (key, v), p) \<Rightarrow>
                        (Some (Inr (key, v)), p\<lparr>pr_parsed := snd (key_insert (pr_parsed p) key v)\<rparr>)
                    | (Inl e, p) \<Rightarrow> (Some (Inl e), p\<lparr>pr_failed := True\<rparr>))"
  by pat_completeness auto
termination
proof (relation "measure (\<lambda>p. length (pr_source p) - pr_position p)", goal_cases)
  case 1
  show ?case by simp
next
  case (2 p q b p')
  have cn: "consume_newline q = (True, p')" using 2(3,4) by simp
  have src: "pr_source q = pr_source p" "pr_position p \<le> pr_position q"
    using movedD(1,9) [OF moved_skip_horizontal_whitespace, of p] 2(1) by simp_all
  have "pr_source p' = pr_source q" using movedD(1) [OF moved_consume_newline, of q] cn by simp
  with consume_newline_progress [OF cn] src show ?case by simp
next
  case (3 p q b p')
  have "p' = q" using 3 by (auto simp: consume_newline_def Let_def split: option.splits if_splits)
  with 3 skip_comment_progress [of q] movedD [OF moved_skip_horizontal_whitespace, of p]
    movedD(1) [OF moved_skip_comment, of q]
  show ?case by auto
qed

declare entry_loop.simps [simp del]

definition next_entry :: "parser \<Rightarrow> (parse_error + ustr \<times> ustr) option \<times> parser" where
  "next_entry p = (if pr_failed p then (None, p) else entry_loop p)"

lemma entry_loop_unfold:
  assumes q: "q = skip_horizontal_whitespace p"
  shows "at_end q \<Longrightarrow> entry_loop p = (None, q)"
    and "\<not> at_end q \<Longrightarrow> consume_newline q = (True, q') \<Longrightarrow> entry_loop p = entry_loop q'"
    and "\<not> at_end q \<Longrightarrow> peek q = Some HASH \<Longrightarrow> entry_loop p = entry_loop (skip_comment q)"
    and "\<not> at_end q \<Longrightarrow> \<not> fst (consume_newline q) \<Longrightarrow> peek q \<noteq> Some HASH \<Longrightarrow>
      entry_loop p = (case parse_assignment q of
          (Inr (key, v), p) \<Rightarrow> (Some (Inr (key, v)), p\<lparr>pr_parsed := (pr_parsed p)(key \<mapsto> v)\<rparr>)
        | (Inl e, p) \<Rightarrow> (Some (Inl e), p\<lparr>pr_failed := True\<rparr>))"
proof -
  have id: "\<not> fst (consume_newline q) \<Longrightarrow> consume_newline q = (False, q)" for q
    by (auto simp: consume_newline_def Let_def split: option.splits if_splits)
  have hash: "peek q = Some HASH \<Longrightarrow> consume_newline q = (False, q)" for q
    by (simp add: consume_newline_def)
  note u = entry_loop.simps [of p, unfolded Let_def, folded q]
  show "at_end q \<Longrightarrow> entry_loop p = (None, q)" by (simp add: u)
  show "\<not> at_end q \<Longrightarrow> consume_newline q = (True, q') \<Longrightarrow> entry_loop p = entry_loop q'" by (simp add: u)
  show "\<not> at_end q \<Longrightarrow> peek q = Some HASH \<Longrightarrow> entry_loop p = entry_loop (skip_comment q)"
    by (simp add: u hash)
  show "\<not> at_end q \<Longrightarrow> \<not> fst (consume_newline q) \<Longrightarrow> peek q \<noteq> Some HASH \<Longrightarrow>
      entry_loop p = (case parse_assignment q of
          (Inr (key, v), p) \<Rightarrow> (Some (Inr (key, v)), p\<lparr>pr_parsed := (pr_parsed p)(key \<mapsto> v)\<rparr>)
        | (Inl e, p) \<Rightarrow> (Some (Inl e), p\<lparr>pr_failed := True\<rparr>))"
    by (auto simp: u id key_insert_def split: prod.splits sum.splits)
qed

text \<open>
  One entry: the state is changed in the position and the tracker, a successful entry is
  recorded in \<open>pr_parsed\<close> and consumes input, a failed one sets \<open>pr_failed\<close>.
\<close>

lemma entry_loop_spec:
  assumes "entry_loop p = (r, p')"
  shows "\<exists>q. stepped p q \<and>
    (case r of
       None \<Rightarrow> p' = q \<and> (pr_position p \<le> length (pr_source p) \<longrightarrow> pr_position p' = length (pr_source p))
     | Some (Inl e) \<Rightarrow> p' = q\<lparr>pr_failed := True\<rparr>
     | Some (Inr (k, v)) \<Rightarrow> p' = q\<lparr>pr_parsed := (pr_parsed p)(k \<mapsto> v)\<rparr> \<and>
         pr_position p < pr_position q \<and> pr_position p < length (pr_source p))"
  using assms
proof (induction p rule: entry_loop.induct)
  case (1 p)
  define q where "q = skip_horizontal_whitespace p"
  have m: "moved p q" unfolding q_def by (rule moved_skip_horizontal_whitespace)
  note u = entry_loop_unfold [OF q_def]
  obtain b q' where cn: "consume_newline q = (b, q')" by fastforce
  consider (stop) "at_end q" | (nl) "\<not> at_end q" "b" | (comment) "\<not> at_end q" "\<not> b" "peek q = Some HASH"
    | (assign) "\<not> at_end q" "\<not> b" "peek q \<noteq> Some HASH" by blast
  then show ?case
  proof cases
    case stop
    with u(1) "1.prems" movedD(1) [OF m] show ?thesis
      by (auto simp: at_end_def intro!: exI [of _ q] stepped_moved m)
  next
    case nl
    have m': "moved p q'" using moved_trans [OF m moved_consume_newline] cn by (metis snd_conv)
    have "entry_loop q' = (r, p')" using nl cn u(2) "1.prems" by simp
    from "1.IH"(1) [OF q_def _ cn [symmetric] _ this] nl obtain q2 where "stepped q' q2"
      "(case r of
       None \<Rightarrow> p' = q2 \<and> (pr_position q' \<le> length (pr_source q') \<longrightarrow> pr_position p' = length (pr_source q'))
     | Some (Inl e) \<Rightarrow> p' = q2\<lparr>pr_failed := True\<rparr>
     | Some (Inr (k, v)) \<Rightarrow> p' = q2\<lparr>pr_parsed := (pr_parsed q')(k \<mapsto> v)\<rparr> \<and>
         pr_position q' < pr_position q2 \<and> pr_position q' < length (pr_source q'))" by blast
    with stepped_trans [OF stepped_moved [OF m']] movedD [OF m'] show ?thesis
      by (intro exI [of _ q2]) (auto split: option.splits sum.splits)
  next
    case comment
    let ?q = "skip_comment q"
    have "q' = q" using cn comment by (auto simp: consume_newline_def Let_def split: option.splits if_splits)
    have m': "moved p ?q" using moved_trans [OF m moved_skip_comment] .
    have "entry_loop ?q = (r, p')" using comment u(3) "1.prems" by simp
    from "1.IH"(2) [OF q_def _ cn [symmetric] _ _ this [folded \<open>q' = q\<close>]] comment \<open>q' = q\<close>
    obtain q2 where "stepped ?q q2"
      "(case r of
       None \<Rightarrow> p' = q2 \<and> (pr_position ?q \<le> length (pr_source ?q) \<longrightarrow> pr_position p' = length (pr_source ?q))
     | Some (Inl e) \<Rightarrow> p' = q2\<lparr>pr_failed := True\<rparr>
     | Some (Inr (k, v)) \<Rightarrow> p' = q2\<lparr>pr_parsed := (pr_parsed ?q)(k \<mapsto> v)\<rparr> \<and>
         pr_position ?q < pr_position q2 \<and> pr_position ?q < length (pr_source ?q))" by blast
    with stepped_trans [OF stepped_moved [OF m']] movedD [OF m'] show ?thesis
      by (intro exI [of _ q2]) (auto split: option.splits sum.splits)
  next
    case assign
    obtain x q2 where a: "parse_assignment q = (x, q2)" by fastforce
    note st = parse_assignment_stepped [OF a]
    have st2: "stepped p q2" using stepped_trans [OF stepped_moved [OF m] st(1)] .
    have r: "(case x of
          Inr (key, v) \<Rightarrow> (Some (Inr (key, v)), q2\<lparr>pr_parsed := (pr_parsed q2)(key \<mapsto> v)\<rparr>)
        | Inl e \<Rightarrow> (Some (Inl e), q2\<lparr>pr_failed := True\<rparr>)) = (r, p')"
      using u(4) assign cn a "1.prems" by (auto split: sum.splits)
    show ?thesis
    proof (cases x)
      case (Inl e)
      with r st2 show ?thesis by auto
    next
      case (Inr kv)
      with r st2 st(2,3) [OF Inr] movedD [OF m] steppedD(5) [OF st2] show ?thesis
        by (cases kv) (auto intro!: exI [of _ q2])
    qed
  qed
qed

lemma next_entry_Inr:
  assumes "next_entry p = (Some (Inr (k, v)), p')"
  shows "pr_source p' = pr_source p" "pr_position p < pr_position p'"
    "pr_position p < length (pr_source p)" "pr_parsed p' = (pr_parsed p)(k \<mapsto> v)"
    "\<not> pr_failed p'"
proof -
  have f: "\<not> pr_failed p" and e: "entry_loop p = (Some (Inr (k, v)), p')"
    using assms by (auto simp: next_entry_def split: if_splits)
  obtain q where "stepped p q" "p' = q\<lparr>pr_parsed := (pr_parsed p)(k \<mapsto> v)\<rparr>"
    "pr_position p < pr_position q" "pr_position p < length (pr_source p)"
    using entry_loop_spec [OF e] by auto
  with f show "pr_source p' = pr_source p" "pr_position p < pr_position p'"
    "pr_position p < length (pr_source p)" "pr_parsed p' = (pr_parsed p)(k \<mapsto> v)" "\<not> pr_failed p'"
    by (auto dest: steppedD)
qed

end
