(* ===== verification/Dotenv_Load.thy ===== *)
theory Dotenv_Load
  imports Dotenv_Parse
begin

text \<open>
  Reading dotenv input: the iterator over entries (\<^verbatim>\<open>crates/mise-dotenv/src/iter.rs\<close>), the
  environment map, the functions \<^verbatim>\<open>parse\<close> and \<^verbatim>\<open>parse_partial\<close>, and the loader with its precedence
  rules (\<^verbatim>\<open>lib.rs\<close>).  A reader is the result of reading it to a string; the process environment
  and the file system are arguments of the operations that consult them.
\<close>

section \<open>Errors and the iterator\<close>

datatype io_error = NotFound | OtherIo nat

datatype parse_buf_error = BufParse parse_error | BufIo io_error

datatype os_string = OsUnicode ustr | OsInvalid "nat list"

datatype dotenv_error =
    Parse parse_error "ustr option"
  | Io io_error "ustr option"
  | NotPresent ustr
  | NotUnicode os_string ustr
  | NotUnicodeName os_string
  | NoInput

definition error_of_buf :: "parse_buf_error \<Rightarrow> ustr option \<Rightarrow> dotenv_error" where
  "error_of_buf e path = (case e of BufParse pe \<Rightarrow> Parse pe path | BufIo io \<Rightarrow> Io io path)"

definition error_not_found :: "dotenv_error \<Rightarrow> bool" where
  "error_not_found e = (case e of Io io _ \<Rightarrow> io = NotFound | _ \<Rightarrow> False)"

type_synonym reader = "io_error + ustr"
type_synonym env_map = "ustr \<rightharpoonup> ustr"

record iter =
  it_reader :: "reader option"
  it_parser :: "parser option"
  it_options :: parse_options
  it_base :: env_map
  it_protected :: env_map
  it_tracker :: tracker
  it_input_overrides :: bool
  it_read_error :: "io_error option"

definition iter_new ::
  "reader \<Rightarrow> parse_options \<Rightarrow> env_map \<Rightarrow> env_map \<Rightarrow> tracker \<Rightarrow> bool \<Rightarrow> iter" where
  "iter_new rd options base protected tracker input_overrides =
     \<lparr>it_reader = Some rd, it_parser = None, it_options = options, it_base = base,
      it_protected = protected, it_tracker = tracker, it_input_overrides = input_overrides,
      it_read_error = None\<rparr>"

definition iter_initialize :: "iter \<Rightarrow> iter" where
  "iter_initialize it =
     (case it_reader it of
        None \<Rightarrow> it
      | Some rd \<Rightarrow>
          (let it = it\<lparr>it_reader := None\<rparr> in
           case rd of
             Inr source \<Rightarrow>
               it\<lparr>it_parser := Some (parser_new source (it_options it) (it_base it) (it_protected it)
                                       (it_tracker it) (it_input_overrides it)),
                  it_base := Map.empty, it_protected := Map.empty, it_tracker := None\<rparr>
           | Inl e \<Rightarrow> it\<lparr>it_read_error := Some e\<rparr>))"

definition iter_next :: "iter \<Rightarrow> (parse_buf_error + ustr \<times> ustr) option \<times> iter" where
  "iter_next it =
     (let it = iter_initialize it in
      case it_read_error it of
        Some e \<Rightarrow> (Some (Inl (BufIo e)), it\<lparr>it_read_error := None\<rparr>)
      | None \<Rightarrow>
          (case it_parser it of
             None \<Rightarrow> (None, it)
           | Some p \<Rightarrow>
               (case next_entry p of
                  (r, p) \<Rightarrow>
                    (map_option (\<lambda>r. case r of Inl e \<Rightarrow> Inl (BufParse e) | Inr kv \<Rightarrow> Inr kv) r,
                     it\<lparr>it_parser := Some p\<rparr>))))"

definition iter_todo :: "iter \<Rightarrow> nat" where
  "iter_todo it =
     (case it_reader it of
        Some (Inr source) \<Rightarrow> Suc (length source)
      | Some (Inl e) \<Rightarrow> 0
      | None \<Rightarrow> (case it_parser it of
                   Some p \<Rightarrow> length (pr_source p) - pr_position p
                 | None \<Rightarrow> 0))"

lemma iter_next_decreases:
  assumes "iter_next it = (Some (Inr kv), it')"
  shows "iter_todo it' < iter_todo it"
proof -
  obtain k v where kv: "kv = (k, v)" by fastforce
  define it1 where "it1 = iter_initialize it"
  have no: "it_read_error it1 = None" and "it_parser it1 \<noteq> None"
    using assms by (auto simp: iter_next_def Let_def it1_def [symmetric] split: option.splits)
  then obtain p where p: "it_parser it1 = Some p" by blast
  obtain r p' where r: "next_entry p = (r, p')" by fastforce
  have "r = Some (Inr (k, v))" "it' = it1\<lparr>it_parser := Some p'\<rparr>"
    using assms no p r kv
    by (cases r; cases "the r"; simp add: iter_next_def Let_def it1_def [symmetric])+
  then have lt: "length (pr_source p') - pr_position p' < length (pr_source p) - pr_position p"
    using next_entry_Inr [of p k v p'] r by simp
  have "it_reader it1 = None" "length (pr_source p) - pr_position p \<le> iter_todo it"
    using no p unfolding it1_def
    by (auto simp: iter_initialize_def iter_todo_def parser_new_def Let_def split: option.splits sum.splits)
  with lt \<open>it' = _\<close> show ?thesis by (simp add: iter_todo_def)
qed

text \<open>
  Draining an iterator until it ends or fails: the entries read, the error that stopped it, and
  its final state.  Both \<^verbatim>\<open>collect::<Result<Vec<_>, _>>\<close> and the \<^verbatim>\<open>for\<close> loops of the code stop at the
  first error.
\<close>

function iter_drain :: "iter \<Rightarrow> (ustr \<times> ustr) list \<times> parse_buf_error option \<times> iter" where
  "iter_drain it =
     (case iter_next it of
        (None, it) \<Rightarrow> ([], None, it)
      | (Some (Inl e), it) \<Rightarrow> ([], Some e, it)
      | (Some (Inr kv), it) \<Rightarrow>
          (case iter_drain it of (items, e, it) \<Rightarrow> (kv # items, e, it)))"
  by pat_completeness auto
termination
  by (relation "measure iter_todo") (auto intro: iter_next_decreases [OF sym])

declare iter_drain.simps [simp del]

section \<open>The environment map\<close>

definition em_insert :: "env_map \<Rightarrow> ustr \<times> ustr \<Rightarrow> env_map" where
  "em_insert m kv = snd (key_insert m (fst kv) (snd kv))"

definition em_extend :: "env_map \<Rightarrow> (ustr \<times> ustr) list \<Rightarrow> env_map" where
  "em_extend m kvs = foldl em_insert m kvs"

definition em_from_iter :: "(ustr \<times> ustr) list \<Rightarrow> env_map" where
  "em_from_iter kvs = em_extend Map.empty kvs"

text \<open>
  \<^verbatim>\<open>extend\<close> with the entries of another map, in whatever order they are produced: the entries of a
  map have different keys, so the order does not matter.
\<close>

definition em_extend_map :: "env_map \<Rightarrow> env_map \<Rightarrow> env_map" where
  "em_extend_map m n = (\<lambda>k. case n k of Some v \<Rightarrow> Some v | None \<Rightarrow> m k)"

definition em_var :: "env_map \<Rightarrow> ustr \<Rightarrow> dotenv_error + ustr" where
  "em_var m key = (case key_get m key of Some v \<Rightarrow> Inr v | None \<Rightarrow> Inl (NotPresent key))"

fun environment_loop :: "env_map \<Rightarrow> (os_string \<times> os_string) list \<Rightarrow> dotenv_error + env_map" where
  "environment_loop m [] = Inr m"
| "environment_loop m ((name, v) # vars) =
     (case name of
        OsInvalid bs \<Rightarrow> Inl (NotUnicodeName name)
      | OsUnicode n \<Rightarrow>
          (case v of
             OsInvalid bs \<Rightarrow> Inl (NotUnicode v n)
           | OsUnicode w \<Rightarrow> environment_loop (em_insert m (n, w)) vars))"

definition environment_variables :: "(os_string \<times> os_string) list \<Rightarrow> dotenv_error + env_map" where
  "environment_variables vars = environment_loop Map.empty vars"

section \<open>Parsing a string\<close>

definition parse_iter :: "ustr \<Rightarrow> bool \<Rightarrow> (ustr \<times> ustr) list \<Rightarrow> iter" where
  "parse_iter content substitution substitutions =
     (let protected = foldl (\<lambda>m kv. snd (key_insert m (fst kv) (snd kv))) Map.empty substitutions
      in iter_new (Inr content) (po_set_substitution substitution po_new) Map.empty protected None True)"

definition parse :: "ustr \<Rightarrow> bool \<Rightarrow> (ustr \<times> ustr) list \<Rightarrow> dotenv_error + (ustr \<times> ustr) list" where
  "parse content substitution substitutions =
     (case iter_drain (parse_iter content substitution substitutions) of
        (items, None, _) \<Rightarrow> Inr items
      | (_, Some e, _) \<Rightarrow> Inl (error_of_buf e None))"

definition parse_partial ::
  "ustr \<Rightarrow> bool \<Rightarrow> (ustr \<times> ustr) list \<Rightarrow> (ustr \<times> ustr) list \<times> dotenv_error option" where
  "parse_partial content substitution substitutions =
     (case iter_drain (parse_iter content substitution substitutions) of
        (items, None, _) \<Rightarrow> (items, None)
      | (items, Some e, _) \<Rightarrow> (items, Some (error_of_buf e None)))"

definition iter_load :: "iter \<Rightarrow> (parse_buf_error + env_map) \<times> iter" where
  "iter_load it =
     (case iter_drain it of
        (items, None, it) \<Rightarrow> (Inr (em_from_iter items), it)
      | (items, Some e, it) \<Rightarrow> (Inl e, it))"

section \<open>The loader\<close>

datatype env_sequence = EnvOnly | EnvThenInput | InputOnly | InputThenEnv

datatype dotenv_input = InPath ustr | InReader reader "ustr option"

record env_loader =
  el_inputs :: "dotenv_input list"
  el_sequence :: env_sequence
  el_parse_options :: parse_options
  el_substitutions :: env_map
  el_tracker :: tracker
  el_ignore_missing :: bool

definition el_empty :: env_loader where
  "el_empty = \<lparr>el_inputs = [], el_sequence = InputThenEnv, el_parse_options = po_new,
     el_substitutions = Map.empty, el_tracker = None, el_ignore_missing = False\<rparr>"

definition el_with_path :: "ustr \<Rightarrow> env_loader" where
  "el_with_path path = el_empty\<lparr>el_inputs := [InPath path]\<rparr>"

definition el_new :: env_loader where
  "el_new = el_with_path (lit ''./.env'')"

definition el_with_paths :: "ustr list \<Rightarrow> env_loader" where
  "el_with_paths paths = el_empty\<lparr>el_inputs := map InPath paths\<rparr>"

definition el_with_reader :: "reader \<Rightarrow> env_loader" where
  "el_with_reader rdr = el_empty\<lparr>el_inputs := [InReader rdr None]\<rparr>"

definition el_with_readers :: "reader list \<Rightarrow> env_loader" where
  "el_with_readers readers = el_empty\<lparr>el_inputs := map (\<lambda>r. InReader r None) readers\<rparr>"

definition el_path :: "ustr \<Rightarrow> env_loader \<Rightarrow> env_loader" where
  "el_path path l =
     (case el_inputs l of
        [InReader rdr context] \<Rightarrow> l\<lparr>el_inputs := [InReader rdr (Some path)]\<rparr>
      | _ \<Rightarrow> l\<lparr>el_inputs := [InPath path]\<rparr>)"

definition el_required :: "bool \<Rightarrow> env_loader \<Rightarrow> env_loader" where
  "el_required required l = l\<lparr>el_ignore_missing := \<not> required\<rparr>"

definition el_set_sequence :: "env_sequence \<Rightarrow> env_loader \<Rightarrow> env_loader" where
  "el_set_sequence sequence l = l\<lparr>el_sequence := sequence\<rparr>"

definition el_substitution :: "bool \<Rightarrow> env_loader \<Rightarrow> env_loader" where
  "el_substitution enabled l = l\<lparr>el_parse_options := po_set_substitution enabled (el_parse_options l)\<rparr>"

definition el_multiline :: "bool \<Rightarrow> env_loader \<Rightarrow> env_loader" where
  "el_multiline enabled l = l\<lparr>el_parse_options := po_set_multiline enabled (el_parse_options l)\<rparr>"

definition el_set_parse_options :: "parse_options \<Rightarrow> env_loader \<Rightarrow> env_loader" where
  "el_set_parse_options options l = l\<lparr>el_parse_options := options\<rparr>"

definition el_add_substitutions :: "(ustr \<times> ustr) list \<Rightarrow> env_loader \<Rightarrow> env_loader" where
  "el_add_substitutions values l = l\<lparr>el_substitutions := em_extend (el_substitutions l) values\<rparr>"

text \<open>\<^verbatim>\<open>File::open\<close>: an error, or the reader of the opened file.\<close>

type_synonym file_system = "ustr \<Rightarrow> io_error + reader"

definition open_input ::
  "file_system \<Rightarrow> bool \<Rightarrow> dotenv_input \<Rightarrow> dotenv_error + (reader \<times> ustr option) option" where
  "open_input fs ignore_missing input =
     (case input of
        InPath path \<Rightarrow>
          (case fs path of
             Inr file \<Rightarrow> Inr (Some (file, Some path))
           | Inl e \<Rightarrow> if ignore_missing \<and> e = NotFound then Inr None else Inl (Io e (Some path)))
      | InReader rdr path \<Rightarrow> Inr (Some (rdr, path)))"

definition iter_final_tracker :: "iter \<Rightarrow> tracker" where
  "iter_final_tracker it = (case it_parser it of Some p \<Rightarrow> pr_tracker p | None \<Rightarrow> it_tracker it)"

text \<open>The loop of \<^verbatim>\<open>load_input\<close> over the inputs; the tracker is shared by all of them.\<close>

fun input_loop ::
  "file_system \<Rightarrow> env_loader \<Rightarrow> env_map \<Rightarrow> dotenv_input list \<Rightarrow> env_map \<Rightarrow> tracker
     \<Rightarrow> (dotenv_error + env_map) \<times> tracker" where
  "input_loop fs l protected [] accumulated tr = (Inr accumulated, tr)"
| "input_loop fs l protected (input # inputs) accumulated tr =
     (case open_input fs (el_ignore_missing l) input of
        Inl e \<Rightarrow> (Inl e, tr)
      | Inr None \<Rightarrow> input_loop fs l protected inputs accumulated tr
      | Inr (Some (rdr, path)) \<Rightarrow>
          (case iter_load (iter_new rdr (el_parse_options l) accumulated protected tr
                             (el_sequence l \<noteq> InputThenEnv)) of
             (Inl e, it) \<Rightarrow> (Inl (error_of_buf e path), iter_final_tracker it)
           | (Inr parsed, it) \<Rightarrow>
               input_loop fs l protected inputs (em_extend_map accumulated parsed)
                 (iter_final_tracker it)))"

definition load_input ::
  "file_system \<Rightarrow> env_loader \<Rightarrow> env_map \<Rightarrow> (dotenv_error + env_map) \<times> tracker" where
  "load_input fs l environment =
     (if el_inputs l = [] then (Inl NoInput, el_tracker l)
      else
        (let protects_environment =
               (case el_sequence l of
                  EnvThenInput \<Rightarrow> True | InputThenEnv \<Rightarrow> True
                | EnvOnly \<Rightarrow> False | InputOnly \<Rightarrow> False);
             protected = em_extend_map (if protects_environment then environment else Map.empty)
                           (el_substitutions l)
         in input_loop fs l protected (el_inputs l) Map.empty (el_tracker l)))"

definition load ::
  "(os_string \<times> os_string) list \<Rightarrow> file_system \<Rightarrow> env_loader \<Rightarrow> (dotenv_error + env_map) \<times> tracker" where
  "load vars fs l =
     (case (if el_sequence l = InputOnly then Inr Map.empty else environment_variables vars) of
        Inl e \<Rightarrow> (Inl e, el_tracker l)
      | Inr environment \<Rightarrow>
          (case el_sequence l of
             EnvOnly \<Rightarrow> (Inr environment, el_tracker l)
           | EnvThenInput \<Rightarrow>
               (case load_input fs l environment of
                  (Inl e, tr) \<Rightarrow> (Inl e, tr)
                | (Inr input, tr) \<Rightarrow> (Inr (em_extend_map environment input), tr))
           | InputOnly \<Rightarrow> load_input fs l environment
           | InputThenEnv \<Rightarrow>
               (case load_input fs l environment of
                  (Inl e, tr) \<Rightarrow> (Inl e, tr)
                | (Inr input, tr) \<Rightarrow> (Inr (em_extend_map input environment), tr))))"

definition load_with_substitution_dependencies ::
  "(os_string \<times> os_string) list \<Rightarrow> file_system \<Rightarrow> env_loader \<Rightarrow> dotenv_error + env_map \<times> ustr set" where
  "load_with_substitution_dependencies vars fs l =
     (case load vars fs (l\<lparr>el_tracker := Some {}\<rparr>) of
        (Inl e, tr) \<Rightarrow> Inl e
      | (Inr m, tr) \<Rightarrow> Inr (m, case tr of Some deps \<Rightarrow> deps | None \<Rightarrow> {}))"

end
