(* ===== verification/Dotenv_Render.thy ===== *)
theory Dotenv_Render
  imports Dotenv_Lex
begin

text \<open>
  Writing dotenv documents: \<^verbatim>\<open>render_value\<close>, \<^verbatim>\<open>render_var\<close> and \<^verbatim>\<open>render\<close> of
  \<^verbatim>\<open>crates/mise-dotenv/src/render.rs\<close>, with the tests that decide whether a value can be written
  without quotes.
\<close>

datatype render_error =
    EmptyKey
  | RenderInvalidKeyCharacter uchar
  | RenderInvalidValueCharacter uchar

fun has_closing_quote :: "bool \<Rightarrow> ustr \<Rightarrow> uchar \<Rightarrow> bool" where
  "has_closing_quote escaped [] quote = False"
| "has_closing_quote escaped (c # rest) quote =
     (if escaped then has_closing_quote False rest quote
      else if c = BSL \<and> quote = DQ then has_closing_quote True rest quote
      else if c = quote then True
      else has_closing_quote False rest quote)"

text \<open>The two loops of \<^verbatim>\<open>is_unquoted_safe\<close>.\<close>

fun unquoted_chars_safe :: "bool \<Rightarrow> uchar option \<Rightarrow> ustr \<Rightarrow> bool" where
  "unquoted_chars_safe escaped prev [] = True"
| "unquoted_chars_safe escaped prev (c # rest) =
     (if c = NUL \<or> c = NL \<or> c = CR then False
      else if (c = SQ \<or> c = DQ) \<and> \<not> escaped \<and> has_closing_quote False rest c then False
      else if c = HASH \<and> (case prev of None \<Rightarrow> True | Some b \<Rightarrow> is_horizontal_whitespace b) \<and> \<not> escaped
      then False
      else unquoted_chars_safe (c = BSL \<and> \<not> escaped) (Some c) rest)"

fun no_decoded_escape :: "ustr \<Rightarrow> bool" where
  "no_decoded_escape [] = True"
| "no_decoded_escape (c # rest) =
     (if c \<noteq> BSL then no_decoded_escape rest
      else case rest of
             [] \<Rightarrow> True
           | escaped # rest' \<Rightarrow>
               if escaped \<in> {BSL, SQ, DQ, DOLLAR, HASH, SP, TAB} then False
               else no_decoded_escape rest')"

definition is_unquoted_safe :: "ustr \<Rightarrow> bool" where
  "is_unquoted_safe value =
     (case value of
        [] \<Rightarrow> True
      | first # _ \<Rightarrow>
          if first \<in> {SQ, DQ, HASH, NL, CR} \<or> is_horizontal_whitespace first then False
          else if is_horizontal_whitespace (last value) \<and>
                  even (length (takeWhile (\<lambda>c. c = BSL) (rev (butlast value))))
          then False
          else unquoted_chars_safe False None value \<and> no_decoded_escape value)"

definition render_char :: "uchar \<Rightarrow> ustr" where
  "render_char c =
     (if c = 7 then [BSL, of_char (CHR ''a'')]
      else if c = 8 then [BSL, of_char (CHR ''b'')]
      else if c = 12 then [BSL, of_char (CHR ''f'')]
      else if c = NL then [BSL, of_char (CHR ''n'')]
      else if c = CR then [BSL, of_char (CHR ''r'')]
      else if c = TAB then [BSL, of_char (CHR ''t'')]
      else if c = 11 then [BSL, of_char (CHR ''v'')]
      else if c = BSL then [BSL, BSL]
      else if c = DQ then [BSL, DQ]
      else if c = DOLLAR then [BSL, DOLLAR]
      else [c])"

definition render_value :: "ustr \<Rightarrow> render_error + ustr" where
  "render_value value =
     (if NUL \<in> set value then Inl (RenderInvalidValueCharacter NUL)
      else if is_unquoted_safe value then Inr value
      else Inr ([DQ] @ concat (map render_char value) @ [DQ]))"

definition bad_key_char :: "uchar \<Rightarrow> bool" where
  "bad_key_char c \<longleftrightarrow> c = EQUALS \<or> c = HASH \<or> is_whitespace c \<or> is_control c"

definition validate_key :: "ustr \<Rightarrow> render_error + unit" where
  "validate_key key =
     (if key = [] then Inl EmptyKey
      else if starts_with [BOM] key then Inl (RenderInvalidKeyCharacter BOM)
      else case List.find bad_key_char key of
             Some c \<Rightarrow> Inl (RenderInvalidKeyCharacter c)
           | None \<Rightarrow> Inr ())"

definition render_var :: "ustr \<Rightarrow> ustr \<Rightarrow> render_error + ustr" where
  "render_var key value =
     (case validate_key key of
        Inl e \<Rightarrow> Inl e
      | Inr _ \<Rightarrow>
          (case render_value value of
             Inl e \<Rightarrow> Inl e
           | Inr v \<Rightarrow> Inr (key @ [EQUALS] @ v)))"

fun render_loop :: "ustr \<Rightarrow> (ustr \<times> ustr) list \<Rightarrow> render_error + ustr" where
  "render_loop document [] = Inr document"
| "render_loop document ((key, v) # variables) =
     (let document = (if document \<noteq> [] then document @ [NL] else document) in
      case render_var key v of
        Inl e \<Rightarrow> Inl e
      | Inr rendered \<Rightarrow> render_loop (document @ rendered) variables)"

definition render :: "(ustr \<times> ustr) list \<Rightarrow> render_error + ustr" where
  "render variables = render_loop [] variables"

end
