(* ===== verification/Dotenv_Errors.thy ===== *)
theory Dotenv_Errors
  imports Dotenv_Load Dotenv_Render
begin

text \<open>
  Where dotenv errors point, and when the writer and the reader fail: every syntax error carries
  the position, the line number and the text of the line it was found on.
\<close>

section \<open>Lines\<close>

text \<open>The number of line breaks of a text; a carriage return and line feed are one.\<close>

fun line_breaks :: "ustr \<Rightarrow> nat" where
  "line_breaks [] = 0"
| "line_breaks (c # cs) =
     (if c = CR then
        Suc (case cs of [] \<Rightarrow> 0 | d # ds \<Rightarrow> if d = NL then line_breaks ds else line_breaks cs)
      else if c = NL then Suc (line_breaks cs)
      else line_breaks cs)"

text \<open>A position is the start of a line of the text before it.\<close>

definition line_start_at :: "ustr \<Rightarrow> nat \<Rightarrow> nat \<Rightarrow> bool" where
  "line_start_at source i j \<longleftrightarrow> i \<le> j \<and> (i = 0 \<or> is_line_break (source ! (i - 1))) \<and>
     (\<forall>k. i \<le> k \<and> k < j \<longrightarrow> \<not> is_line_break (source ! k))"

lemma slas_loop_spec:
  assumes "position \<le> offset" "offset \<le> length source" "line_start_at source line_start position"
  shows "fst (slas_loop source offset line line_start position) =
      line + line_breaks (drop position (take offset source)) \<and>
    line_start_at source (snd (slas_loop source offset line line_start position)) offset"
  using assms
proof (induction source offset line line_start position rule: slas_loop.induct)
  case (1 source offset line line_start position)
  show ?case
  proof (cases "position < offset")
    case False
    then have "position = offset" using "1.prems" by simp
    with "1.prems" show ?thesis by (simp add: slas_loop.simps)
  next
    case True
    let ?t = "take offset source"
    have d: "drop position ?t = source ! position # drop (Suc position) ?t"
      using True "1.prems"(2) by (simp add: Cons_nth_drop_Suc [symmetric])
    have d2: "drop (Suc position) ?t = (if Suc position < offset
        then source ! Suc position # drop (Suc (Suc position)) ?t else [])"
      using "1.prems"(2) by (auto simp: Cons_nth_drop_Suc [symmetric])
    have at: "line_start_at source (Suc i) (Suc i)" if "source ! i = CR \<or> source ! i = NL" for i
      using that by (auto simp: line_start_at_def is_line_break_def)
    consider (crlf) "source ! position = CR" "Suc position < offset" "source ! Suc position = NL"
      | (cr) "source ! position = CR" "\<not> (Suc position < offset \<and> source ! Suc position = NL)"
      | (nl) "source ! position = NL" | (other) "\<not> is_line_break (source ! position)"
      by (auto simp: is_line_break_def)
    then show ?thesis
    proof cases
      case crlf
      with 1 True d d2 at [of "Suc position"] show ?thesis
        by (subst (1 2) slas_loop.simps) simp
    next
      case cr
      with 1 True d d2 at [of position] show ?thesis
        by (subst (1 2) slas_loop.simps) (auto split: list.splits if_splits)
    next
      case nl
      with 1 True d at [of position] show ?thesis by (subst (1 2) slas_loop.simps) simp
    next
      case other
      then have "line_start_at source line_start (Suc position)"
        using "1.prems"(3) by (auto simp: line_start_at_def less_Suc_eq)
      with other 1 True d show ?thesis
        by (subst (1 2) slas_loop.simps) (simp add: is_line_break_def)
    qed
  qed
qed

text \<open>
  An error that points at position \<open>i\<close> of the source: its byte offset is that of \<open>i\<close>, its line
  number counts the line breaks before \<open>i\<close>, and its source line, which has no line break, is the
  line through \<open>i\<close>, the text before \<open>i\<close> on that line being its first \<open>column - 1\<close> characters.
\<close>

definition points_at :: "ustr \<Rightarrow> nat \<Rightarrow> parse_error \<Rightarrow> bool" where
  "points_at source i e \<longleftrightarrow>
     i \<le> length source \<and>
     pe_byte_offset e = byte_len (take i source) \<and>
     pe_line e = Suc (line_breaks (take i source)) \<and>
     (\<exists>before after.
        source = before @ pe_source_line e @ after \<and>
        (before = [] \<or> is_line_break (last before)) \<and>
        (after = [] \<or> is_line_break (hd after)) \<and>
        list_all (\<lambda>c. \<not> is_line_break c) (pe_source_line e) \<and>
        take i source = before @ take (pe_column e - 1) (pe_source_line e) \<and>
        1 \<le> pe_column e \<and> pe_column e \<le> length (pe_source_line e) + 1)"

lemma mk_error_points: "points_at source (min i (length source)) (mk_error source i kind)"
proof -
  let ?i = "min i (length source)" and ?nb = "\<lambda>c. \<not> (c = NL \<or> c = CR)"
  obtain line ls where l: "source_line_and_start source ?i = (line, ls)" by fastforce
  have spec: "line = 1 + line_breaks (take ?i source)" "line_start_at source ls ?i"
    using slas_loop_spec [of 0 ?i source 0 1] l
    by (simp_all add: source_line_and_start_def line_start_at_def)
  define seg where "seg = drop ls (take ?i source)"
  define sl where "sl = takeWhile ?nb (drop ls source)"
  define aft where "aft = dropWhile ?nb (drop ls source)"
  have ls: "ls \<le> ?i" using spec(2) by (simp add: line_start_at_def)
  have nb: "\<forall>c\<in>set seg. ?nb c"
  proof
    fix c assume "c \<in> set seg"
    then obtain n where n: "n < length seg" "seg ! n = c" by (auto simp: in_set_conv_nth)
    then have "n < ?i - ls" by (simp add: seg_def)
    with ls have lt: "ls + n < ?i" by linarith
    then have "\<not> is_line_break (source ! (ls + n))"
      using spec(2) unfolding line_start_at_def by (meson le_add1)
    moreover have "c = source ! (ls + n)" using n(2) ls lt by (auto simp: seg_def)
    ultimately show "?nb c" by (simp add: is_line_break_def)
  qed
  have dls: "drop ls source = seg @ drop ?i source"
    unfolding seg_def using ls by (metis append_take_drop_id drop_append drop_take le_add_diff_inverse
        take_drop add.commute drop_drop)
  have slseg: "sl = seg @ takeWhile ?nb (drop ?i source)"
    unfolding sl_def dls by (rule takeWhile_append2) (use nb in blast)
  have err: "mk_error source i kind = \<lparr>pe_kind = kind, pe_line = line, pe_column = length seg + 1,
      pe_byte_offset = byte_len (take ?i source), pe_source_line = sl\<rparr>"
    by (simp add: mk_error_def Let_def l seg_def sl_def)
  have before: "take ls source = [] \<or> is_line_break (last (take ls source))"
    using spec(2) ls by (auto simp: line_start_at_def last_conv_nth)
  have after: "aft = [] \<or> is_line_break (hd aft)"
    using hd_dropWhile [of ?nb "drop ls source"] by (auto simp: aft_def is_line_break_def)
  have "source = take ls source @ sl @ aft" by (simp add: sl_def aft_def)
  moreover have "take ?i source = take ls source @ take (length seg) sl"
    using ls by (simp add: slseg seg_def) (metis append_take_drop_id min.absorb1 take_take)
  moreover have "list_all (\<lambda>c. \<not> is_line_break c) sl"
    by (auto simp: list_all_iff sl_def is_line_break_def dest: set_takeWhileD)
  moreover have "length seg \<le> length sl" by (simp add: slseg)
  ultimately show ?thesis
    unfolding points_at_def err using spec(1) before after by auto
qed

section \<open>Errors of the parser\<close>

definition error_in :: "ustr \<Rightarrow> parse_error \<Rightarrow> bool" where
  "error_in source e \<longleftrightarrow> (\<exists>i. points_at source i e)"

lemma p_error_in [simp]: "error_in (pr_source p) (p_error p i kind)"
  using mk_error_points by (auto simp: error_in_def p_error_def)

lemma evaluate_substitution_error:
  assumes "evaluate_substitution ex p expression off tr = (Inl e, tr')"
    and "\<And>w o' t e t'. length w < length expression \<Longrightarrow> ex w o' t = (Inl e, t') \<Longrightarrow> error_in (pr_source p) e"
  shows "error_in (pr_source p) e"
proof -
  have ex: "error_in (pr_source p) e'"
    if "find_operator substitution_operators (drop (substitution_name_end True expression) expression)
      = Some (operator, w)" and "0 < substitution_name_end True expression" and "expression \<noteq> []"
      and "ex w o' t = (Inl e', t')" for w o' t operator e' t'
  proof (rule assms(2) [OF _ that(4)])
    have "length w \<le> length expression - substitution_name_end True expression"
      using find_operator_Some [OF that(1)] by (metis length_append length_drop le_add2)
    also have "\<dots> < length expression" using that(2,3) by simp
    finally show "length w < length expression" .
  qed
  show ?thesis
    using assms(1) unfolding evaluate_substitution_def Let_def required_variable_def
    by (auto split: if_splits prod.splits option.splits sum.splits dest: ex)
qed

lemma expand_dollar_error:
  assumes "expand_dollar ex p raw i off out tr = (Inl e, tr')"
    and ex: "\<And>w o' t e t'. length w < length raw \<Longrightarrow> ex w o' t = (Inl e, t') \<Longrightarrow> error_in (pr_source p) e"
  shows "error_in (pr_source p) e"
proof -
  have "error_in (pr_source p) e'"
    if "evaluate_substitution ex p (drop (Suc i) (take n raw)) o' t = (Inl e', t')" for n o' t e' t'
    using that by (rule evaluate_substitution_error) (rule ex, simp_all)
  then show ?thesis
    using assms(1) unfolding expand_dollar_def Let_def
    by (auto split: if_splits prod.splits option.splits sum.splits list.splits)
qed

lemma expand_loop_error:
  "expand_loop p raw i off style out tr = (Inl e, tr') \<Longrightarrow> error_in (pr_source p) e"
proof (induction p raw i off style out tr arbitrary: e tr' rule: expand_loop.induct)
  case (1 p raw i off style out tr)
  show ?case
  proof (cases "i < length raw")
    case False
    with "1.prems" show ?thesis by (simp add: expand_loop.simps)
  next
    case True
    show ?thesis
    proof (cases "raw ! i = DOLLAR \<and> po_substitution (pr_options p) \<and> style \<noteq> SingleQuoted")
      case True
      with \<open>i < length raw\<close> have b: "\<not> (raw ! i = BSL \<and> style \<noteq> SingleQuoted)" by simp
      let ?ex = "\<lambda>word offset tr. expand_loop p word 0 offset style [] tr"
      obtain r t where d: "expand_dollar ?ex p raw (i + 1) off out tr = (r, t)" by fastforce
      show ?thesis
      proof (cases r)
        case (Inl e')
        have "e' = e" using "1.prems" \<open>i < length raw\<close> True b d Inl by (subst (asm) expand_loop.simps) simp
        with d Inl show ?thesis
          using expand_dollar_error [of ?ex p raw "i + 1" off out tr e' t] "1.IH"(2) [OF \<open>i < length raw\<close> b True]
          by blast
      next
        case (Inr x)
        obtain j out' where x: "x = (j, out')" by fastforce
        with Inr d "1.prems" \<open>i < length raw\<close> True b
        have "expand_loop p raw j off style out' t = (Inl e, tr')" by (subst (asm) expand_loop.simps) simp
        then show ?thesis
          using "1.IH"(3) [OF \<open>i < length raw\<close> b True d [symmetric] Inr x [symmetric]] by blast
      qed
    next
      case False
      with "1.prems" "1.IH"(1,4,5) \<open>i < length raw\<close> show ?thesis
        by (subst (asm) expand_loop.simps) (auto split: list.splits if_splits)
    qed
  qed
qed

lemma expand_error: "expand p raw off style tr = (Inl e, tr') \<Longrightarrow> error_in (pr_source p) e"
  by (auto simp: expand_def dest: expand_loop_error)

lemma parse_quoted_error:
  assumes "parse_quoted p q style = (Inl e, p')"
  shows "error_in (pr_source p) e"
proof -
  have src: "pr_source (advance p) = pr_source p" "pr_source (advance (p\<lparr>pr_position := i\<rparr>)) = pr_source p"
    "pr_source (advance ((advance p)\<lparr>pr_position := i\<rparr>)) = pr_source p" for i
    using movedD(1) [OF moved_advance] by simp_all
  have err: "error_in (pr_source p) (p_error (advance p) off k)" for off k
    using p_error_in [of "advance p"] by (simp only: src)
  have ex: "error_in (pr_source p) e'"
    if "expand (advance ((advance p)\<lparr>pr_position := i\<rparr>)) raw off st tr = (Inl e', tr')" for i raw off st tr e' tr'
    using expand_error [OF that] by (simp only: src)
  show ?thesis
    using assms unfolding parse_quoted_def Let_def
    by (auto split: prod.splits scan_end.splits intro: err dest: ex)
qed

lemma parse_unquoted_error:
  assumes "parse_unquoted p = (Inl e, p')"
  shows "error_in (pr_source p) e"
proof -
  have ex: "error_in (pr_source p) e'"
    if "expand (p\<lparr>pr_position := i\<rparr>) raw off st tr = (Inl e', tr')" for i raw off st tr e' tr'
    using expand_error [OF that] by simp
  show ?thesis
    using assms unfolding parse_unquoted_def Let_def
    by (auto split: prod.splits scan_end.splits sum.splits if_splits dest: ex)
qed

lemma value_loop_error: "value_loop p v first = (Inl e, p') \<Longrightarrow> error_in (pr_source p) e"
proof (induction p v first rule: value_loop.induct)
  case (1 p v first)
  show ?case
  proof (cases "opens_segment p first")
    case None
    obtain u q where u: "parse_unquoted p = (u, q)" by fastforce
    show ?thesis
    proof (cases u)
      case (Inl e')
      with "1.prems" None u parse_unquoted_error [of p e' q] show ?thesis by (simp add: value_loop.simps)
    next
      case (Inr x)
      obtain segment ended where x: "x = (segment, ended)" by fastforce
      have "\<not> ended" "value_loop q (v @ segment) False = (Inl e, p')"
        using "1.prems" None u Inr x by (simp_all add: value_loop.simps [of p] split: if_splits)
      from "1.IH"(1) [OF None u [symmetric] Inr x [symmetric] this] show ?thesis
        using steppedD(1) [OF parse_unquoted_stepped [OF u]] by simp
    qed
  next
    case (Some quote)
    then have pk: "peek p = Some quote" by (auto simp: opens_segment_def split: option.splits if_splits)
    obtain u q where u: "parse_quoted p quote (quote_style quote) = (u, q)" by fastforce
    show ?thesis
    proof (cases u)
      case (Inl e')
      with "1.prems" Some u parse_quoted_error [of p quote _ e' q] show ?thesis by (simp add: value_loop.simps)
    next
      case (Inr x)
      have "value_loop q (v @ x) False = (Inl e, p')"
        using "1.prems" Some u Inr by (simp add: value_loop.simps [of p])
      from "1.IH"(2) [OF Some u [symmetric] Inr this] show ?thesis
        using steppedD(1) [OF parse_quoted_stepped(1) [OF u pk]] by simp
    qed
  qed
qed

lemma parse_assignment_error:
  assumes "parse_assignment p = (Inl e, p')"
  shows "error_in (pr_source p) e"
proof -
  define p1 where "p1 = consume_export_prefix p"
  obtain i s where scan: "key_scan (pr_position p1) (p_rest p1) = (i, s)" by fastforce
  define p2 where "p2 = p1\<lparr>pr_position := i\<rparr>"
  define p3 where "p3 = skip_horizontal_whitespace p2"
  define p4 where "p4 = skip_horizontal_whitespace (advance p3)"
  have src: "pr_source p1 = pr_source p" "pr_source p2 = pr_source p" "pr_source p3 = pr_source p"
    "pr_source p4 = pr_source p"
    using movedD(1) [OF moved_consume_export_prefix] movedD(1) [OF moved_skip_horizontal_whitespace]
      movedD(1) [OF moved_advance]
    by (simp_all add: p1_def p2_def p3_def p4_def)
  note def = assms [unfolded parse_assignment_def Let_def, folded p1_def, unfolded scan, simplified,
      folded p2_def, folded p3_def, folded p4_def]
  have err: "error_in (pr_source p) (p_error p1 off k)" "error_in (pr_source p) (p_error p2 off k)"
    "error_in (pr_source p) (p_error p3 off k)" for off k
    using p_error_in [of p1] p_error_in [of p2] p_error_in [of p3] by (simp_all only: src)
  have "error_in (pr_source p) e'" if "parse_value p4 = (Inl e', q)" for e' q
    using that value_loop_error [of p4 "[]" True e' q] by (simp add: parse_value_def src)
  with def err show ?thesis by (cases s) (auto split: if_splits prod.splits sum.splits)
qed

lemma entry_loop_error: "entry_loop p = (Some (Inl e), p') \<Longrightarrow> error_in (pr_source p) e"
proof (induction p rule: entry_loop.induct)
  case (1 p)
  define q where "q = skip_horizontal_whitespace p"
  have src: "pr_source q = pr_source p" "pr_source (snd (consume_newline q)) = pr_source p"
    "pr_source (skip_comment q) = pr_source p"
    using movedD(1) [OF moved_skip_horizontal_whitespace] movedD(1) [OF moved_consume_newline]
      movedD(1) [OF moved_skip_comment] by (simp_all add: q_def)
  note u = entry_loop_unfold [OF q_def]
  obtain b q' where cn: "consume_newline q = (b, q')" by fastforce
  consider (stop) "at_end q" | (nl) "\<not> at_end q" "b" | (comment) "\<not> at_end q" "\<not> b" "peek q = Some HASH"
    | (assign) "\<not> at_end q" "\<not> b" "peek q \<noteq> Some HASH" by blast
  then show ?case
  proof cases
    case stop
    with u(1) "1.prems" show ?thesis by simp
  next
    case nl
    then have "entry_loop q' = (Some (Inl e), p')" using cn u(2) "1.prems" by simp
    from "1.IH"(1) [OF q_def _ cn [symmetric] _ this] nl src(2) cn show ?thesis by simp
  next
    case comment
    have "q' = q" using cn comment by (auto simp: consume_newline_def Let_def split: option.splits if_splits)
    have "entry_loop (skip_comment q) = (Some (Inl e), p')" using comment u(3) "1.prems" by simp
    from "1.IH"(2) [OF q_def _ cn [symmetric] _ _ this [folded \<open>q' = q\<close>]] comment \<open>q' = q\<close> src(3)
    show ?thesis by simp
  next
    case assign
    obtain x q2 where a: "parse_assignment q = (x, q2)" by fastforce
    then have "x = Inl e" using u(4) assign cn "1.prems" by (auto split: sum.splits prod.splits)
    with parse_assignment_error [of q e q2] a src(1) show ?thesis by simp
  qed
qed

lemma drain_error:
  "iter_drain it = (items, Some e, it') \<Longrightarrow> it_read_error it = None \<Longrightarrow>
   (case it_reader it of
      Some (Inr source) \<Rightarrow> src = (if starts_with [BOM] source then drop 1 source else source)
    | Some (Inl _) \<Rightarrow> False
    | None \<Rightarrow> (case it_parser it of Some p \<Rightarrow> src = pr_source p | None \<Rightarrow> False)) \<Longrightarrow>
   \<exists>pe. e = BufParse pe \<and> error_in src pe"
proof (induction it arbitrary: items rule: iter_drain.induct)
  case (1 it)
  define it1 where "it1 = iter_initialize it"
  define p where "p = the (it_parser it1)"
  have p: "it_parser it1 = Some p" and src: "src = pr_source p"
    and fields: "it_read_error it1 = None" "it_reader it1 = None"
    using "1.prems"(2,3) unfolding p_def it1_def
    by (auto simp: iter_initialize_def parser_new_def Let_def split: option.splits sum.splits)
  obtain r p' where ne: "next_entry p = (r, p')" by fastforce
  have nx: "iter_next it =
      (map_option (\<lambda>r. case r of Inl e \<Rightarrow> Inl (BufParse e) | Inr kv \<Rightarrow> Inr kv) r, it1\<lparr>it_parser := Some p'\<rparr>)"
    by (simp add: iter_next_def it1_def [symmetric] fields p ne Let_def)
  show ?case
  proof (cases r)
    case None
    with nx "1.prems"(1) show ?thesis by (simp add: iter_drain.simps)
  next
    case (Some x)
    show ?thesis
    proof (cases x)
      case (Inl pe)
      with Some ne have "entry_loop p = (Some (Inl pe), p')" by (simp add: next_entry_def split: if_splits)
      with entry_loop_error src nx Some Inl "1.prems"(1) show ?thesis
        by (auto simp: iter_drain.simps)
    next
      case (Inr kv)
      obtain k v where kv: "kv = (k, v)" by fastforce
      have n: "iter_next it = (Some (Inr kv), it1\<lparr>it_parser := Some p'\<rparr>)" using nx Some Inr by simp
      obtain items' where d: "iter_drain (it1\<lparr>it_parser := Some p'\<rparr>) = (items', Some e, it')"
        using "1.prems"(1) n by (subst (asm) iter_drain.simps) (auto split: prod.splits)
      have "pr_source p' = pr_source p" using next_entry_Inr(1) ne Some Inr kv by blast
      with "1.IH" [OF n [symmetric] refl refl d] fields src show ?thesis by simp
    qed
  qed
qed

text \<open>
  \<^bold>\<open>C8.\<close> Error positions: \<^verbatim>\<open>parse\<close> fails only with a syntax error, and the error points into the
  document (without its byte-order mark): its byte offset, line number, column and source line
  describe the same position.
\<close>

theorem parse_error_located:
  assumes "parse content substitution substitutions = Inl err"
  shows "\<exists>e i. err = Parse e None \<and>
    points_at (if starts_with [BOM] content then drop 1 content else content) i e"
proof -
  obtain items e it where d: "iter_drain (parse_iter content substitution substitutions) = (items, Some e, it)"
    and err: "err = error_of_buf e None"
    using assms by (auto simp: parse_def split: prod.splits option.splits)
  from drain_error [OF d] obtain pe where "e = BufParse pe"
    "error_in (if starts_with [BOM] content then drop 1 content else content) pe"
    by (auto simp: parse_iter_def iter_new_def Let_def)
  with err show ?thesis by (auto simp: error_of_buf_def error_in_def)
qed

theorem parse_error_located_witness:
  "\<exists>e i. parse [EQUALS] False [] = Inl (Parse e None) \<and> points_at [EQUALS] i e"
proof -
  have "isl (parse [EQUALS] False [])"
    by (simp add: parse_def parse_iter_def iter_new_def iter_drain.simps iter_next_def
        iter_initialize_def parser_new_def next_entry_def entry_loop.simps
        skip_horizontal_whitespace_def at_end_def consume_newline_def parse_assignment_def
        consume_export_prefix_def peek_def starts_with_def lit_def uchar_simps)
  then obtain err where err: "parse [EQUALS] False [] = Inl err" by (auto simp: isl_def)
  have "\<not> starts_with [BOM] [EQUALS]" by (simp add: starts_with_def)
  with parse_error_located [OF err] err show ?thesis by simp
qed

section \<open>Failures of the writer\<close>

lemma render_value_Inr: "(\<exists>r. render_value v = Inr r) \<longleftrightarrow> NUL \<notin> set v"
  by (auto simp: render_value_def)

lemma validate_key_Inr: "validate_key k = Inr () \<longleftrightarrow>
    k \<noteq> [] \<and> hd k \<noteq> BOM \<and> list_all (\<lambda>c. \<not> bad_key_char c) k"
proof -
  have "(case List.find bad_key_char k of Some c \<Rightarrow> Inl (RenderInvalidKeyCharacter c) | None \<Rightarrow> Inr ()) = Inr ()
      \<longleftrightarrow> List.find bad_key_char k = None" by (simp split: option.split)
  then show ?thesis
    by (cases k) (auto simp: validate_key_def starts_with_iff find_None_iff list_all_iff)
qed

definition renderable :: "ustr \<times> ustr \<Rightarrow> bool" where
  "renderable kv \<longleftrightarrow> fst kv \<noteq> [] \<and> hd (fst kv) \<noteq> BOM \<and>
     list_all (\<lambda>c. \<not> (c = EQUALS \<or> c = HASH \<or> is_whitespace c \<or> is_control c)) (fst kv) \<and>
     NUL \<notin> set (snd kv)"

lemma render_var_Inr: "(\<exists>l. render_var k v = Inr l) \<longleftrightarrow> renderable (k, v)"
proof -
  have "(\<exists>l. render_var k v = Inr l) \<longleftrightarrow> validate_key k = Inr () \<and> (\<exists>r. render_value v = Inr r)"
    by (auto simp: render_var_def split: sum.splits)
  then show ?thesis
    by (simp add: validate_key_Inr render_value_Inr renderable_def bad_key_char_def [abs_def])
qed


end
