(* ===== verification/Dotenv_Roundtrip.thy ===== *)
theory Dotenv_Roundtrip
  imports Dotenv_Load Dotenv_Render
begin

text \<open>
  What the dotenv reader and writer promise each other: a rendered document parses back to the
  assignments it was rendered from.  The theory first gives the reference semantics of values
  when substitution is off, a recursion on the text, and shows that the index-driven loop of
  the code computes it; then it follows one rendered assignment through the parser.
\<close>

section \<open>Values without substitution\<close>

fun unescape :: "value_style \<Rightarrow> ustr \<Rightarrow> ustr" where
  "unescape style [] = []"
| "unescape style (c # cs) =
     (if c = BSL \<and> style \<noteq> SingleQuoted then
        (case cs of [] \<Rightarrow> [BSL] | e # r \<Rightarrow> push_escape [] style e @ unescape style r)
      else if c = CR then
        (case cs of
           [] \<Rightarrow> [NL]
         | d # r \<Rightarrow> if d = NL then NL # unescape style r else NL # unescape style cs)
      else c # unescape style cs)"

lemma push_escape_append: "push_escape out style e = out @ push_escape [] style e"
  by (simp add: push_escape_def Let_def split: option.split)

lemma expand_loop_plain:
  assumes "\<not> po_substitution (pr_options p)"
  shows "expand_loop p raw i off style out tr = (Inr (out @ unescape style (drop i raw)), tr)"
proof (induction "length raw - i" arbitrary: i out rule: less_induct)
  case less
  show ?case
  proof (cases "i < length raw")
    case False
    then show ?thesis by (simp add: expand_loop.simps [of p raw i])
  next
    case True
    have d: "drop i raw = raw ! i # drop (Suc i) raw" using True by (simp add: Cons_nth_drop_Suc)
    have IH: "i < j \<Longrightarrow> expand_loop p raw j off style out' tr = (Inr (out' @ unescape style (drop j raw)), tr)"
      for j out' using less [of j] True by simp
    have two: "drop (Suc i) raw = e # r \<Longrightarrow> drop (Suc (Suc i)) raw = r" for e r
      by (metis drop_Suc list.sel(3) tl_drop)
    consider (bsl) "raw ! i = BSL" "style \<noteq> SingleQuoted"
      | (cr) "\<not> (raw ! i = BSL \<and> style \<noteq> SingleQuoted)" "raw ! i = CR"
      | (other) "\<not> (raw ! i = BSL \<and> style \<noteq> SingleQuoted)" "raw ! i \<noteq> CR" by blast
    then show ?thesis
    proof cases
      case bsl
      then show ?thesis
        using True two IH [of "Suc (Suc i)"] push_escape_append [of out style]
        by (subst expand_loop.simps) (auto simp: d split: list.splits)
    next
      case cr
      then show ?thesis
        using True two IH [of "Suc i"] IH [of "Suc (Suc i)"] assms
        by (subst expand_loop.simps) (auto simp: d starts_with_def split: list.splits)
    next
      case other
      then show ?thesis
        using True IH [of "Suc i"] assms by (subst expand_loop.simps) (cases style; simp add: d)
    qed
  qed
qed

lemma expand_plain:
  "\<not> po_substitution (pr_options p) \<Longrightarrow> expand p raw off style tr = (Inr (unescape style raw), tr)"
  by (simp add: expand_def expand_loop_plain)

lemma unescape_Unquoted_id: "no_decoded_escape v \<Longrightarrow> CR \<notin> set v \<Longrightarrow> unescape Unquoted v = v"
  by (induction v rule: no_decoded_escape.induct)
    (auto simp: push_escape_def split: list.splits if_splits)

lemma unescape_render_char:
  "unescape DoubleQuoted (render_char c @ r) = c # unescape DoubleQuoted r"
  by (simp add: render_char_def push_escape_def Let_def)

lemma unescape_render: "unescape DoubleQuoted (concat (map render_char v)) = v"
  by (induction v) (simp_all add: unescape_render_char)

section \<open>Scans over rendered text\<close>

definition line_rest :: "ustr \<Rightarrow> bool" where
  "line_rest post \<longleftrightarrow> (case post of [] \<Rightarrow> True | c # _ \<Rightarrow> c = NL)"

lemma closes_on_line_value:
  assumes "NL \<notin> set v" "CR \<notin> set v" "line_rest post"
  shows "closes_on_line q esc (v @ post) = has_closing_quote esc v q"
  using assms
proof (induction v arbitrary: esc q)
  case Nil
  then show ?case by (cases post) (simp_all add: line_rest_def)
next
  case (Cons c v)
  then have IH: "closes_on_line q e (v @ post) = has_closing_quote e v q" for e q by simp
  from Cons.prems show ?case by (cases esc; cases "c = BSL \<and> q = DQ"; force simp: IH)
qed

lemma unquoted_chars_safe_set:
  "unquoted_chars_safe esc prev v \<Longrightarrow> NL \<notin> set v \<and> CR \<notin> set v \<and> NUL \<notin> set v"
  by (induction esc prev v rule: unquoted_chars_safe.induct) (auto split: if_splits)

lemma previous_last: "pre \<noteq> [] \<Longrightarrow> previous (pre @ r) (length pre) = Some (last pre)"
  by (cases pre rule: rev_cases) (simp_all add: previous_def)

lemma unquoted_scan_safe:
  assumes "unquoted_chars_safe esc prev v" and "line_rest post" and "s = pre @ v @ post"
    and "prev = None \<or> (pre \<noteq> [] \<and> prev = Some (last pre))"
  shows "unquoted_scan False s (length pre) esc = (length pre + length v, ScanEnd)"
  using assms
proof (induction v arbitrary: pre esc prev)
  case Nil
  show ?case
  proof (cases post)
    case Nil
    with Nil.prems show ?thesis by (simp add: unquoted_scan.simps)
  next
    case (Cons c r)
    with Nil.prems show ?thesis
      by (subst unquoted_scan.simps) (simp add: line_rest_def)
  qed
next
  case (Cons c v)
  have s: "s = (pre @ [c]) @ v @ post" using Cons.prems(3) by simp
  have nth: "length pre < length s" "s ! length pre = c" using Cons.prems(3) by simp_all
  have set: "NL \<notin> set v" "CR \<notin> set v" "c \<noteq> NL" "c \<noteq> CR" "c \<noteq> NUL"
    using unquoted_chars_safe_set [OF Cons.prems(1)] by auto
  have quote: "quote_closes_on_line s (length pre) q = has_closing_quote False v q" for q
    using closes_on_line_value [OF set(1,2) Cons.prems(2)] s
    by (simp add: quote_closes_on_line_def)
  have one: "unquoted_scan False s (Suc (length pre)) (c = BSL \<and> \<not> esc) = (length pre + length (c # v), ScanEnd)"
    using Cons.IH [OF _ Cons.prems(2) s, of "c = BSL \<and> \<not> esc" "Some c"] Cons.prems(1)
    by (simp split: if_splits)
  have hash: "\<not> (case previous s (length pre) of Some b \<Rightarrow> is_horizontal_whitespace b | None \<Rightarrow> False)"
    if "c = HASH" "\<not> esc"
    using that Cons.prems(1,4) by (auto simp: s previous_last)
  show ?case
  proof (cases esc)
    case True
    with one nth set show ?thesis by (subst unquoted_scan.simps) (simp add: Let_def)
  next
    case False
    then have "\<not> ((c = SQ \<or> c = DQ) \<and> has_closing_quote False v c)"
      using Cons.prems(1) by (simp split: if_splits)
    with False one nth set quote hash show ?thesis
      by (subst unquoted_scan.simps) (cases "c = BSL"; simp add: Let_def)
  qed
qed

section \<open>Segments of a rendered line\<close>

lemma trim_id:
  assumes "v = [] \<or> \<not> (is_horizontal_whitespace (last v) \<and>
      even (length (takeWhile (\<lambda>c. c = BSL) (rev (butlast v)))))"
  shows "trim_unquoted_trailing_whitespace v = v"
proof (cases v rule: rev_cases)
  case Nil
  then show ?thesis by (simp add: trim_unquoted_trailing_whitespace_def)
next
  case (snoc w c)
  with assms show ?thesis
    by (simp add: trim_unquoted_trailing_whitespace_def)
qed

lemma end_of_line:
  assumes "pr_source p = pre @ post" "pr_position p = length pre" "line_rest post"
  shows "peek p \<noteq> Some HASH"
    and "snd (consume_newline p) = p\<lparr>pr_position := length pre + length (take 1 post)\<rparr>"
proof -
  have rest: "p_rest p = post" using assms by simp
  show "peek p \<noteq> Some HASH" using assms(3) rest by (auto simp: peek_def line_rest_def split: list.splits)
  show "snd (consume_newline p) = p\<lparr>pr_position := length pre + length (take 1 post)\<rparr>"
  proof (cases post)
    case Nil
    have "p\<lparr>pr_position := length pre\<rparr> = p" using assms(2) by simp
    with Nil rest show ?thesis by (simp add: consume_newline_def peek_def)
  next
    case (Cons c r)
    then have "peek p = Some NL" using assms(3) rest by (simp add: peek_def line_rest_def)
    then show ?thesis using assms(2) Cons by (simp add: consume_newline_def advance_position)
  qed
qed

definition unquoted_ok :: "ustr \<Rightarrow> bool" where
  "unquoted_ok v \<longleftrightarrow> unquoted_chars_safe False None v \<and> no_decoded_escape v \<and>
     trim_unquoted_trailing_whitespace v = v"

lemma parse_unquoted_line:
  assumes "pr_source p = pre @ v @ post" "pr_position p = length pre" "line_rest post"
    and "\<not> po_substitution (pr_options p)" and v: "unquoted_ok v"
  shows "parse_unquoted p =
    (Inr (v, True), p\<lparr>pr_position := length pre + length v + length (take 1 post)\<rparr>)"
proof -
  have safe: "unquoted_chars_safe False None v" and ne: "no_decoded_escape v"
    and trim: "trim_unquoted_trailing_whitespace v = v"
    using v by (simp_all add: unquoted_ok_def)
  let ?p = "p\<lparr>pr_position := length pre + length v\<rparr>"
  have scan: "unquoted_scan False (pr_source p) (length pre) False = (length pre + length v, ScanEnd)"
    using unquoted_scan_safe [OF safe assms(3,1)] by simp
  have src: "pr_source ?p = (pre @ v) @ post" "pr_position ?p = length (pre @ v)"
    using assms(1) by simp_all
  have "unescape Unquoted v = v"
    using unescape_Unquoted_id [OF ne] unquoted_chars_safe_set [OF safe] by blast
  moreover have "drop (length pre) (take (length pre + length v) (pr_source p)) = v"
    by (simp add: assms(1))
  ultimately show ?thesis
    using scan trim assms(2,4) end_of_line [OF src assms(3)]
    by (simp add: parse_unquoted_def Let_def expand_plain)
qed

lemma quoted_scan_rendered:
  assumes "NUL \<notin> set v"
  shows "quoted_scan DQ DoubleQuoted m i False (concat (map render_char v) @ DQ # post) =
    (i + length (concat (map render_char v)), ScanQuote)"
  using assms
proof (induction v arbitrary: i)
  case Nil
  show ?case by simp
next
  case (Cons c v)
  have "quoted_scan DQ DoubleQuoted m i False (render_char c @ r) =
      quoted_scan DQ DoubleQuoted m (i + length (render_char c)) False r" for r
    using Cons.prems by (simp add: render_char_def)
  from this [of "concat (map render_char v) @ DQ # post"] Cons show ?case
    by (simp add: add.assoc)
qed

lemma parse_quoted_line:
  assumes "pr_source p = pre @ [DQ] @ concat (map render_char v) @ [DQ] @ post"
    and "pr_position p = length pre" and "\<not> po_substitution (pr_options p)" and "NUL \<notin> set v"
  shows "parse_quoted p DQ DoubleQuoted =
    (Inr v, p\<lparr>pr_position := length pre + 2 + length (concat (map render_char v))\<rparr>)"
proof -
  let ?r = "concat (map render_char v)"
  let ?i = "Suc (length pre)"
  have pk: "peek p = Some DQ" using assms(1,2) by (simp add: peek_iff)
  have scan: "quoted_scan DQ DoubleQuoted m ?i False (drop ?i (pr_source p)) = (?i + length ?r, ScanQuote)" for m
    using quoted_scan_rendered [OF assms(4), of m ?i post] assms(1) by simp
  have pk': "peek (p\<lparr>pr_position := ?i + length ?r\<rparr>) = Some DQ"
    using assms(1) by (simp add: peek_iff nth_append)
  have "drop ?i (take (?i + length ?r) (pr_source p)) = ?r" by (simp add: assms(1))
  then show ?thesis
    using scan assms(2,3) advance_position [OF pk] advance_position [OF pk']
    by (simp add: parse_quoted_def Let_def expand_plain unescape_render)
qed

section \<open>One rendered assignment\<close>

lemma unquoted_safe_ok:
  assumes "is_unquoted_safe v"
  shows "unquoted_ok v"
proof (cases v)
  case Nil
  then show ?thesis by (simp add: unquoted_ok_def trim_id)
next
  case (Cons c w)
  then have "v \<noteq> []" by simp
  with assms show ?thesis
    by (simp add: is_unquoted_safe_def unquoted_ok_def trim_id Cons split: if_splits
        del: unquoted_chars_safe.simps no_decoded_escape.simps)
qed

lemma unquoted_ok_Nil: "unquoted_ok []"
  by (simp add: unquoted_ok_def trim_id)

lemma parse_value_line:
  assumes "pr_source p = pre @ r @ post" "pr_position p = length pre" "line_rest post"
    and sub: "\<not> po_substitution (pr_options p)" and r: "render_value v = Inr r" and "r \<noteq> []"
  shows "parse_value p = (Inr v, p\<lparr>pr_position := length pre + length r + length (take 1 post)\<rparr>)"
proof -
  have nul: "NUL \<notin> set v" using r by (auto simp: render_value_def split: if_splits)
  show ?thesis
  proof (cases "is_unquoted_safe v")
    case True
    then have rv: "r = v" using r nul by (simp add: render_value_def)
    obtain c w where v: "v = c # w" using \<open>r \<noteq> []\<close> rv by (cases v) auto
    have "c \<noteq> SQ" "c \<noteq> DQ" using True v by (auto simp: is_unquoted_safe_def split: if_splits)
    moreover have "peek p = Some c" using assms(1,2) rv v by (simp add: peek_iff)
    ultimately have "opens_segment p True = None" by (simp add: opens_segment_def)
    moreover have "parse_unquoted p = (Inr (v, True), p\<lparr>pr_position := length pre + length v + length (take 1 post)\<rparr>)"
      using parse_unquoted_line [OF _ assms(2,3) sub unquoted_safe_ok [OF True]] assms(1) rv by simp
    ultimately show ?thesis by (simp add: parse_value_def value_loop.simps rv)
  next
    case False
    let ?e = "concat (map render_char v)"
    have rq: "r = [DQ] @ ?e @ [DQ]" using r nul False by (simp add: render_value_def)
    have src: "pr_source p = pre @ [DQ] @ ?e @ [DQ] @ post" using assms(1) rq by simp
    have "peek p = Some DQ" using src assms(2) by (simp add: peek_iff)
    then have opn: "opens_segment p True = Some DQ" by (simp add: opens_segment_def)
    let ?q = "p\<lparr>pr_position := length pre + 2 + length ?e\<rparr>"
    let ?pre = "pre @ [DQ] @ ?e @ [DQ]"
    have q: "parse_quoted p DQ DoubleQuoted = (Inr v, ?q)"
      by (rule parse_quoted_line [OF src assms(2) sub nul])
    have srcq: "pr_source ?q = ?pre @ [] @ post" "pr_position ?q = length ?pre" using src by simp_all
    have "p_rest ?q = post" using src by simp
    then have none: "opens_segment ?q False = None"
      using assms(3) by (auto simp: opens_segment_def peek_def line_rest_def split: list.splits)
    have "\<not> po_substitution (pr_options ?q)" using sub by simp
    note u = parse_unquoted_line [OF srcq assms(3) this unquoted_ok_Nil]
    have "value_loop ?q v False = (Inr v, p\<lparr>pr_position := length pre + length r + length (take 1 post)\<rparr>)"
      using none u by (subst value_loop.simps) (simp add: rq)
    then show ?thesis
      unfolding parse_value_def using opn q by (subst value_loop.simps) (simp add: quote_style_def)
  qed
qed

lemma key_scan_key:
  "\<forall>c\<in>set key. \<not> bad_key_char c \<Longrightarrow> key_scan i (key @ EQUALS # r) = (i + length key, ScanEnd)"
proof (induction key arbitrary: i)
  case Nil
  then show ?case by simp
next
  case (Cons c key)
  have "\<not> is_whitespace c" "\<not> is_control c" "c \<noteq> EQUALS" "c \<noteq> HASH"
    using Cons.prems by (auto simp: bad_key_char_def)
  moreover from this have "c \<noteq> NL" "c \<noteq> CR" "c \<noteq> NUL" by (auto simp: uchar_simps)
  ultimately show ?case using Cons by (simp add: is_horizontal_whitespace_def)
qed

lemma validate_keyD:
  assumes "validate_key key = Inr ()"
  shows "key \<noteq> []" "\<forall>c\<in>set key. \<not> bad_key_char c" "hd key \<noteq> BOM"
  using assms
  by (auto simp: validate_key_def starts_with_iff find_None_iff neq_Nil_conv
      split: if_splits option.splits)

lemma not_export_prefix:
  assumes "\<forall>c\<in>set key. \<not> bad_key_char c" and "p_rest p = key @ EQUALS # r"
  shows "consume_export_prefix p = p"
proof -
  have "\<not> is_horizontal_whitespace n" if "key @ EQUALS # r = lit ''export'' @ n # x" for n x
  proof -
    have e: "EQUALS \<notin> set (lit ''export'')" by (simp add: lit_def)
    have "(\<exists>u. key = lit ''export'' @ u \<and> u @ EQUALS # r = n # x) \<or>
        (\<exists>u. key @ u = lit ''export'' \<and> EQUALS # r = u @ n # x)"
      using that by (auto simp: append_eq_append_conv2)
    then have "n = EQUALS \<or> n \<in> set key"
    proof (elim disjE exE conjE)
      fix u assume "key = lit ''export'' @ u" "u @ EQUALS # r = n # x"
      then show ?thesis by (cases u) auto
    next
      fix u assume k: "key @ u = lit ''export''" and u: "EQUALS # r = u @ n # x"
      have "set u \<subseteq> set (lit ''export'')" unfolding k [symmetric] by simp
      with e have "EQUALS \<notin> set u" by blast
      with u have "u = []" by (cases u) simp_all
      with u show ?thesis by simp
    qed
    then show ?thesis
    proof
      assume "n = EQUALS"
      then show ?thesis by (simp add: uchar_simps)
    next
      assume "n \<in> set key"
      with assms(1) have "\<not> is_whitespace n" by (simp add: bad_key_char_def)
      then show ?thesis by (simp add: is_horizontal_whitespace_def)
    qed
  qed
  then show ?thesis
    using assms(2)
    by (auto simp: consume_export_prefix_def strip_prefix_Some split: option.splits list.splits)
qed

lemma skip_horizontal_whitespace_id:
  "(case p_rest p of [] \<Rightarrow> True | c # _ \<Rightarrow> \<not> is_horizontal_whitespace c) \<Longrightarrow>
   skip_horizontal_whitespace p = p"
  by (cases "p_rest p") (simp_all add: skip_horizontal_whitespace_def)

lemma rendered_value_first:
  assumes "render_value v = Inr (c # r)"
  shows "\<not> is_horizontal_whitespace c" "c \<noteq> NL" "c \<noteq> CR" "c \<noteq> HASH"
proof -
  consider "v = c # r" "is_unquoted_safe v" | "c = DQ"
    using assms by (auto simp: render_value_def split: if_splits)
  then show "\<not> is_horizontal_whitespace c" "c \<noteq> NL" "c \<noteq> CR" "c \<noteq> HASH"
    by (cases; simp add: is_unquoted_safe_def uchar_simps split: if_splits)+
qed

lemma parse_assignment_line:
  assumes "pr_source p = pre @ line @ post" "pr_position p = length pre" "line_rest post"
    and sub: "\<not> po_substitution (pr_options p)" and line: "render_var key v = Inr line"
  shows "parse_assignment p =
    (Inr (key, v), p\<lparr>pr_position := length pre + length line + length (take 1 post)\<rparr>)"
proof -
  obtain r where vk: "validate_key key = Inr ()" and r: "render_value v = Inr r"
    and l: "line = key @ [EQUALS] @ r"
    using line by (auto simp: render_var_def split: sum.splits)
  note k = validate_keyD [OF vk]
  have rest: "p_rest p = key @ EQUALS # (r @ post)" using assms(1,2) l by simp
  have exp: "consume_export_prefix p = p" by (rule not_export_prefix [OF k(2) rest])
  have scan: "key_scan (length pre) (drop (length pre) (pr_source p)) = (length pre + length key, ScanEnd)"
    using key_scan_key [OF k(2)] rest assms(2) by simp
  let ?p2 = "p\<lparr>pr_position := length pre + length key\<rparr>"
  let ?p3 = "p\<lparr>pr_position := Suc (length pre + length key)\<rparr>"
  let ?pre = "pre @ key @ [EQUALS]"
  have rest2: "p_rest ?p2 = EQUALS # (r @ post)" using assms(1) l by simp
  have skip2: "skip_horizontal_whitespace ?p2 = ?p2"
    by (rule skip_horizontal_whitespace_id) (simp only: rest2, simp add: uchar_simps)
  have pk2: "peek ?p2 = Some EQUALS" by (simp only: peek_def rest2 list.case)
  have src3: "pr_source ?p3 = ?pre @ r @ post" "pr_position ?p3 = length ?pre"
    using assms(1) l by simp_all
  have rest3: "p_rest ?p3 = r @ post" using src3 by simp
  have key: "drop (length pre) (take (length pre + length key) (pr_source p)) = key"
    using assms(1) l by simp
  have adv: "advance ?p2 = ?p3" by (simp add: advance_position [OF pk2])
  show ?thesis
  proof (cases r)
    case Nil
    then have skip3: "skip_horizontal_whitespace ?p3 = ?p3"
      using rest3 assms(3)
      by (intro skip_horizontal_whitespace_id) (auto simp: line_rest_def uchar_simps split: list.splits)
    have "peek ?p3 = None \<or> peek ?p3 = Some NL"
      using rest3 Nil assms(3) by (auto simp: peek_def line_rest_def split: list.splits)
    moreover have "v = []"
      using r Nil by (auto simp: render_value_def split: if_splits)
    moreover have "snd (consume_newline ?p3) = ?p3\<lparr>pr_position := length ?pre + length (take 1 post)\<rparr>"
      by (rule end_of_line(2) [OF _ _ assms(3)]) (use src3 Nil in simp_all)
    ultimately show ?thesis
      using assms(2) k(1) Nil l
      by (auto simp: parse_assignment_def Let_def exp scan skip2 pk2 adv skip3 key)
  next
    case (Cons c r')
    note f = rendered_value_first [OF r [unfolded Cons]]
    have skip3: "skip_horizontal_whitespace ?p3 = ?p3"
      using rest3 Cons f(1) by (intro skip_horizontal_whitespace_id) simp
    have pk3: "peek ?p3 = Some c" using rest3 Cons by (simp add: peek_def)
    have "parse_value ?p3 = (Inr v, ?p3\<lparr>pr_position := length ?pre + length r + length (take 1 post)\<rparr>)"
      by (rule parse_value_line [OF src3 assms(3) _ r]) (simp_all add: sub Cons)
    with pk3 f show ?thesis
      using assms(2) k(1) l
      by (simp add: parse_assignment_def Let_def exp scan skip2 pk2 adv skip3 key)
  qed
qed

lemma next_entry_line:
  assumes "pr_source p = pre @ line @ post" "pr_position p = length pre" "line_rest post"
    and sub: "\<not> po_substitution (pr_options p)" and line: "render_var key v = Inr line"
    and "\<not> pr_failed p"
  shows "next_entry p = (Some (Inr (key, v)),
    p\<lparr>pr_position := length pre + length line + length (take 1 post),
      pr_parsed := (pr_parsed p)(key \<mapsto> v)\<rparr>)"
proof -
  obtain r where vk: "validate_key key = Inr ()" and l: "line = key @ [EQUALS] @ r"
    using line by (auto simp: render_var_def split: sum.splits)
  note k = validate_keyD [OF vk]
  obtain c key' where key: "key = c # key'" using k(1) by (cases key) auto
  have rest: "p_rest p = c # key' @ EQUALS # r @ post" using assms(1,2) l key by simp
  have c: "\<not> is_horizontal_whitespace c" "c \<noteq> HASH" "c \<noteq> NL" "c \<noteq> CR"
    using k(2) key by (auto simp: bad_key_char_def uchar_simps)
  have skip: "p = skip_horizontal_whitespace p"
    using skip_horizontal_whitespace_id [of p] rest c(1) by simp
  have pk: "peek p = Some c" using rest by (simp add: peek_def)
  then have "\<not> fst (consume_newline p)" "\<not> at_end p" "peek p \<noteq> Some HASH"
    using c pk by (simp_all add: consume_newline_def at_end_def) (simp add: peek_iff)
  from entry_loop_unfold(4) [OF skip this(2,1,3)] parse_assignment_line [OF assms(1-5)] assms(6)
  show ?thesis by (simp add: next_entry_def)
qed

section \<open>Whole documents\<close>

fun join_lines :: "ustr list \<Rightarrow> ustr" where
  "join_lines [] = []"
| "join_lines (l # ls) = l @ concat (map (\<lambda>l. NL # l) ls)"

abbreviation rendered :: "(ustr \<times> ustr) list \<Rightarrow> ustr list \<Rightarrow> bool" where
  "rendered \<equiv> list_all2 (\<lambda>kv l. render_var (fst kv) (snd kv) = Inr l)"

lemma render_var_nonempty: "render_var k v = Inr l \<Longrightarrow> l \<noteq> []"
  by (auto simp: render_var_def split: sum.splits)

lemma render_loop_lines:
  "d \<noteq> [] \<Longrightarrow> render_loop d kvs = Inr doc \<Longrightarrow>
   \<exists>ls. rendered kvs ls \<and> doc = d @ concat (map (\<lambda>l. NL # l) ls)"
proof (induction kvs arbitrary: d)
  case Nil
  then show ?case by simp
next
  case (Cons kv kvs)
  obtain k v where kv: "kv = (k, v)" by fastforce
  obtain l where l: "render_var k v = Inr l" and "render_loop ((d @ [NL]) @ l) kvs = Inr doc"
    using Cons.prems kv by (auto simp: Let_def split: sum.splits)
  from Cons.IH [OF _ this(2)] obtain ls where "rendered kvs ls"
    "doc = ((d @ [NL]) @ l) @ concat (map (\<lambda>l. NL # l) ls)" by auto
  with l kv show ?case by (intro exI [of _ "l # ls"]) simp
qed

lemma render_lines:
  assumes "render kvs = Inr doc"
  obtains ls where "rendered kvs ls" "doc = join_lines ls"
proof (cases kvs)
  case Nil
  with assms that [of "[]"] show ?thesis by (simp add: render_def)
next
  case (Cons kv kvs')
  obtain k v where kv: "kv = (k, v)" by fastforce
  obtain l where l: "render_var k v = Inr l" and d: "render_loop l kvs' = Inr doc"
    using assms Cons kv by (auto simp: render_def Let_def split: sum.splits)
  from render_loop_lines [OF render_var_nonempty [OF l] d] obtain ls where "rendered kvs' ls"
    "doc = l @ concat (map (\<lambda>l. NL # l) ls)" by blast
  with l kv Cons that [of "l # ls"] show ?thesis by simp
qed

text \<open>An initialised iterator over a parser.\<close>

lemma iter_next_running:
  assumes "it_reader it = None" "it_read_error it = None" "it_parser it = Some p"
    and "next_entry p = (Some (Inr kv), p')"
  shows "iter_next it = (Some (Inr kv), it\<lparr>it_parser := Some p'\<rparr>)"
  using assms by (simp add: iter_next_def iter_initialize_def)

lemma next_entry_end:
  assumes "pr_position p = length (pr_source p)" "\<not> pr_failed p"
  shows "next_entry p = (None, p)"
proof -
  have "p = skip_horizontal_whitespace p" "at_end p"
    using skip_horizontal_whitespace_id [of p] assms by (simp_all add: at_end_def)
  from entry_loop_unfold(1) [OF this] assms show ?thesis by (simp add: next_entry_def)
qed

lemma drain_lines:
  assumes "rendered kvs ls" "it_reader it = None" "it_read_error it = None" "it_parser it = Some p"
    and "pr_source p = pre @ join_lines ls" "pr_position p = length pre"
    and "\<not> po_substitution (pr_options p)" "\<not> pr_failed p"
  shows "\<exists>it'. iter_drain it = (kvs, None, it')"
  using assms
proof (induction kvs ls arbitrary: it p pre rule: list_all2_induct)
  case Nil
  have "next_entry p = (None, p)" using Nil by (intro next_entry_end) simp_all
  with Nil show ?case by (simp add: iter_drain.simps iter_next_def iter_initialize_def)
next
  case (Cons kv kvs l ls)
  obtain k v where kv: "kv = (k, v)" by fastforce
  let ?post = "concat (map (\<lambda>l. NL # l) ls)"
  let ?p = "p\<lparr>pr_position := length pre + length l + length (take 1 ?post),
      pr_parsed := (pr_parsed p)(k \<mapsto> v)\<rparr>"
  have src: "pr_source p = pre @ l @ ?post" using Cons.prems by simp
  have lr: "line_rest ?post" by (cases ls) (simp_all add: line_rest_def)
  have l: "render_var k v = Inr l" using Cons.hyps(1) kv by simp
  have ne: "next_entry p = (Some (Inr kv), ?p)"
    unfolding kv by (rule next_entry_line [OF src Cons.prems(5) lr Cons.prems(6) l Cons.prems(7)])
  have "\<exists>it'. iter_drain (it\<lparr>it_parser := Some ?p\<rparr>) = (kvs, None, it')"
  proof (rule Cons.IH [of _ ?p "pre @ l @ take 1 ?post"])
    show "pr_source ?p = (pre @ l @ take 1 ?post) @ join_lines ls"
      using src by (cases ls) simp_all
  qed (use Cons.prems in simp_all)
  with iter_next_running [OF Cons.prems(1-3) ne] show ?case
    by (subst iter_drain.simps) auto
qed

lemma rendered_parses:
  assumes "render kvs = Inr doc"
  shows "parse doc False substitutions = Inr kvs"
proof -
  obtain ls where ls: "rendered kvs ls" and doc: "doc = join_lines ls"
    using render_lines [OF assms] .
  have nobom: "\<not> starts_with [BOM] doc"
  proof (cases kvs)
    case Nil
    with ls doc show ?thesis by (simp add: starts_with_def)
  next
    case (Cons kv kvs')
    obtain l ls' where l: "ls = l # ls'" "render_var (fst kv) (snd kv) = Inr l"
      using ls Cons by (auto simp: list_all2_Cons1)
    then obtain r where "validate_key (fst kv) = Inr ()" "l = fst kv @ EQUALS # r"
      by (auto simp: render_var_def split: sum.splits)
    with validate_keyD [OF this(1)] l doc show ?thesis
      by (cases "fst kv") (auto simp: starts_with_iff)
  qed
  define it where "it = parse_iter doc False substitutions"
  define p where "p = parser_new doc (po_set_substitution False po_new) Map.empty
    (it_protected it) None True"
  define it1 where "it1 = it\<lparr>it_reader := None, it_parser := Some p, it_base := Map.empty,
    it_protected := Map.empty, it_tracker := None\<rparr>"
  have init: "iter_initialize it = it1"
    by (simp add: iter_initialize_def it_def parse_iter_def iter_new_def it1_def p_def Let_def)
  have fields: "it_reader it1 = None" "it_read_error it1 = None" "it_parser it1 = Some p"
    by (simp_all add: it1_def it_def parse_iter_def iter_new_def Let_def)
  have "iter_initialize it1 = it1" by (simp add: iter_initialize_def fields)
  then have "iter_next it = iter_next it1" by (simp add: iter_next_def init)
  then have "iter_drain it = iter_drain it1" by (subst (1 2) iter_drain.simps) simp
  moreover have "\<exists>it'. iter_drain it1 = (kvs, None, it')"
    by (rule drain_lines [OF ls fields, of "[]"])
      (simp_all add: p_def parser_new_def nobom [unfolded doc] doc po_set_substitution_def)
  ultimately show ?thesis by (auto simp: parse_def it_def)
qed

text \<open>
  \<^bold>\<open>C7.\<close> Round trip: every document that \<^verbatim>\<open>render\<close> produces parses back, with substitution off, to
  exactly the assignments it was rendered from, in order, whatever the keys and values are.
\<close>

theorem render_parse_roundtrip:
  assumes "render kvs = Inr doc"
  shows "parse doc False substitutions = Inr kvs"
  using assms by (rule rendered_parses)

text \<open>An assignment whose value needs no quotes and one whose value needs quotes and escapes.\<close>

theorem render_parse_roundtrip_witness:
  "parse (lit ''A=a b'' @ [NL] @ lit ''B='' @ [DQ, BSL, DQ, SP, DQ]) False [] =
   Inr [(lit ''A'', lit ''a b''), (lit ''B'', [DQ, SP])]"
proof (rule render_parse_roundtrip)
  show "render [(lit ''A'', lit ''a b''), (lit ''B'', [DQ, SP])] =
      Inr (lit ''A=a b'' @ [NL] @ lit ''B='' @ [DQ, BSL, DQ, SP, DQ])"
    by (simp add: lit_def render_def render_var_def validate_key_def render_value_def
        is_unquoted_safe_def bad_key_char_def starts_with_def render_char_def uchar_simps)
qed

end
