(* ===== verification/Dotenv_Precedence.thy ===== *)
theory Dotenv_Precedence
  imports Dotenv_Roundtrip
begin

text \<open>
  How variables reach a parsed document.  The parser consults its variable maps only through
  substitution, so with substitution off the entries of a document do not depend on them; from
  this follows what the loader returns for several inputs and for each order of environment and
  input.
\<close>

section \<open>Exchanging the variable maps\<close>

definition with_vars ::
  "env_map \<Rightarrow> env_map \<Rightarrow> env_map \<Rightarrow> tracker \<Rightarrow> bool \<Rightarrow> parser \<Rightarrow> parser" where
  "with_vars b pt m t ov p = p\<lparr>pr_base := b, pr_protected := pt, pr_parsed := m, pr_tracker := t,
     pr_input_overrides := ov\<rparr>"

lemma with_vars_fields [simp]:
  "pr_source (with_vars b pt m t ov p) = pr_source p"
  "pr_position (with_vars b pt m t ov p) = pr_position p"
  "pr_options (with_vars b pt m t ov p) = pr_options p"
  "pr_failed (with_vars b pt m t ov p) = pr_failed p"
  "pr_parsed (with_vars b pt m t ov p) = m"
  "pr_tracker (with_vars b pt m t ov p) = t"
  "pr_base (with_vars b pt m t ov p) = b"
  "pr_protected (with_vars b pt m t ov p) = pt"
  "pr_input_overrides (with_vars b pt m t ov p) = ov"
  "(with_vars b pt m t ov p)\<lparr>pr_position := i\<rparr> = with_vars b pt m t ov (p\<lparr>pr_position := i\<rparr>)"
  "(with_vars b pt m t ov p)\<lparr>pr_failed := f\<rparr> = with_vars b pt m t ov (p\<lparr>pr_failed := f\<rparr>)"
  "(with_vars b pt m t ov p)\<lparr>pr_tracker := t'\<rparr> = with_vars b pt m t' ov p"
  "(with_vars b pt m t ov p)\<lparr>pr_parsed := m'\<rparr> = with_vars b pt m' t ov p"
  "with_vars b pt m t ov (p\<lparr>pr_tracker := t'\<rparr>) = with_vars b pt m t ov p"
  "with_vars b pt m t ov (p\<lparr>pr_parsed := m'\<rparr>) = with_vars b pt m t ov p"
  by (simp_all add: with_vars_def)

lemma with_vars_moves [simp]:
  "peek (with_vars b pt m t ov p) = peek p"
  "p_error (with_vars b pt m t ov p) off k = p_error p off k"
  "at_end (with_vars b pt m t ov p) = at_end p"
  "advance (with_vars b pt m t ov p) = with_vars b pt m t ov (advance p)"
  "skip_horizontal_whitespace (with_vars b pt m t ov p) = with_vars b pt m t ov (skip_horizontal_whitespace p)"
  "consume_newline (with_vars b pt m t ov p) = apsnd (with_vars b pt m t ov) (consume_newline p)"
  "skip_comment (with_vars b pt m t ov p) = with_vars b pt m t ov (skip_comment p)"
  "consume_export_prefix (with_vars b pt m t ov p) = with_vars b pt m t ov (consume_export_prefix p)"
  "opens_segment (with_vars b pt m t ov p) f = opens_segment p f"
proof -
  let ?w = "with_vars b pt m t ov"
  show pk: "peek (?w p) = peek p" for p by (simp add: peek_def)
  show "p_error (?w p) off k = p_error p off k" by (simp add: p_error_def)
  show "at_end (?w p) = at_end p" by (simp add: at_end_def)
  show adv: "advance (?w p) = ?w (advance p)" for p
    by (simp add: advance_def pk split: option.split)
  show sk: "skip_horizontal_whitespace (?w p) = ?w (skip_horizontal_whitespace p)" for p
    by (simp add: skip_horizontal_whitespace_def)
  show cn: "consume_newline (?w p) = apsnd ?w (consume_newline p)" for p
    by (simp add: consume_newline_def pk adv Let_def split: option.split)
  show "skip_comment (?w p) = ?w (skip_comment p)"
    by (simp add: skip_comment_def cn)
  show "consume_export_prefix (?w p) = ?w (consume_export_prefix p)"
    by (simp add: consume_export_prefix_def sk split: option.split list.split)
  show "opens_segment (?w p) f = opens_segment p f"
    by (simp add: opens_segment_def pk split: option.split)
qed

section \<open>Substitution off\<close>

text \<open>
  With substitution off an operation on segments leaves the tracker as it is and gives the same
  result for any variable maps.
\<close>

lemma parse_quoted_vars:
  assumes "\<not> po_substitution (pr_options p)"
  shows "parse_quoted (with_vars b pt m t ov p) q style =
    apsnd (with_vars b pt m t ov) (parse_quoted p q style)"
proof -
  have opt: "pr_options (advance p) = pr_options p" "pr_options (advance ((advance p)\<lparr>pr_position := i\<rparr>)) = pr_options p" for i
    using movedD(2) [OF moved_advance] by simp_all
  show ?thesis
    using assms opt
    by (simp add: parse_quoted_def Let_def expand_plain split: prod.split scan_end.split)
qed

lemma parse_unquoted_vars:
  assumes "\<not> po_substitution (pr_options p)"
  shows "parse_unquoted (with_vars b pt m t ov p) =
    apsnd (with_vars b pt m t ov) (parse_unquoted p)"
  using assms
  by (simp add: parse_unquoted_def Let_def expand_plain split: prod.split scan_end.split)

lemma value_loop_vars:
  "\<not> po_substitution (pr_options p) \<Longrightarrow>
   value_loop (with_vars b pt m t ov p) v f = apsnd (with_vars b pt m t ov) (value_loop p v f)"
proof (induction p v f rule: value_loop.induct)
  case (1 p v f)
  let ?w = "with_vars b pt m t ov"
  show ?case
  proof (cases "opens_segment p f")
    case None
    obtain u q where u: "parse_unquoted p = (u, q)" by fastforce
    have "\<not> po_substitution (pr_options q)"
      using "1.prems" steppedD(2) [OF parse_unquoted_stepped [OF u]] by simp
    with None u "1.IH"(1) [OF None u [symmetric]] show ?thesis
      by (subst (1 2) value_loop.simps)
        (auto simp: parse_unquoted_vars [OF "1.prems"] split: sum.split)
  next
    case (Some quote)
    then have pk: "peek p = Some quote" by (auto simp: opens_segment_def split: option.splits if_splits)
    obtain u q where u: "parse_quoted p quote (quote_style quote) = (u, q)" by fastforce
    have "\<not> po_substitution (pr_options q)"
      using "1.prems" steppedD(2) [OF parse_quoted_stepped(1) [OF u pk]] by simp
    with Some u "1.IH"(2) [OF Some u [symmetric]] show ?thesis
      by (subst (1 2) value_loop.simps)
        (auto simp: parse_quoted_vars [OF "1.prems"] split: sum.split)
  qed
qed

lemma parse_assignment_vars:
  assumes "\<not> po_substitution (pr_options p)"
  shows "parse_assignment (with_vars b pt m t ov p) =
    apsnd (with_vars b pt m t ov) (parse_assignment p)"
proof -
  have opt: "pr_options (skip_horizontal_whitespace q) = pr_options q" "pr_options (advance q) = pr_options q"
    "pr_options (consume_export_prefix q) = pr_options q" for q
    using movedD(2) [OF moved_advance] movedD(2) [OF moved_skip_horizontal_whitespace]
      movedD(2) [OF moved_consume_export_prefix] by simp_all
  then show ?thesis
    using assms
    by (simp add: parse_assignment_def Let_def parse_value_def value_loop_vars
        split: prod.split scan_end.split sum.split)
qed

text \<open>What one entry does to \<open>pr_parsed\<close>.\<close>

definition record_entry :: "(parse_error + ustr \<times> ustr) option \<Rightarrow> env_map \<Rightarrow> env_map" where
  "record_entry r m = (case r of Some (Inr (k, v)) \<Rightarrow> m(k \<mapsto> v) | _ \<Rightarrow> m)"

lemma entry_loop_vars:
  "\<not> po_substitution (pr_options p) \<Longrightarrow>
   entry_loop (with_vars b pt m t ov p) =
     (fst (entry_loop p), with_vars b pt (record_entry (fst (entry_loop p)) m) t ov (snd (entry_loop p)))"
proof (induction p rule: entry_loop.induct)
  case (1 p)
  let ?w = "with_vars b pt m t ov"
  define q where "q = skip_horizontal_whitespace p"
  have wq: "?w q = skip_horizontal_whitespace (?w p)" by (simp add: q_def)
  note u = entry_loop_unfold [OF q_def] and uw = entry_loop_unfold [OF wq]
  have opt: "pr_options q = pr_options p" "pr_options (snd (consume_newline q)) = pr_options p"
    "pr_options (skip_comment q) = pr_options p"
    using movedD(2) [OF moved_skip_horizontal_whitespace] movedD(2) [OF moved_consume_newline]
      movedD(2) [OF moved_skip_comment] by (simp_all add: q_def)
  obtain c q' where cn: "consume_newline q = (c, q')" by fastforce
  consider (stop) "at_end q" | (nl) "\<not> at_end q" "c" | (comment) "\<not> at_end q" "\<not> c" "peek q = Some HASH"
    | (assign) "\<not> at_end q" "\<not> c" "peek q \<noteq> Some HASH" by blast
  then show ?case
  proof cases
    case stop
    with u(1) uw(1) show ?thesis by (simp add: record_entry_def)
  next
    case nl
    have "\<not> po_substitution (pr_options q')" using opt(2) cn "1.prems" by simp
    from "1.IH"(1) [OF q_def nl(1) cn [symmetric] _ this] nl cn u(2) uw(2) show ?thesis by simp
  next
    case comment
    have "q' = q" using cn comment by (auto simp: consume_newline_def Let_def split: option.splits if_splits)
    have "\<not> po_substitution (pr_options (skip_comment q))" using opt(3) "1.prems" by simp
    with "1.IH"(2) [OF q_def comment(1) cn [symmetric]] comment \<open>q' = q\<close> u(3) uw(3)
    show ?thesis by simp
  next
    case assign
    obtain x q2 where a: "parse_assignment q = (x, q2)" by fastforce
    have "parse_assignment (?w q) = (x, ?w q2)"
      using parse_assignment_vars [of q] opt(1) "1.prems" a by simp
    with u(4) uw(4) assign cn a show ?thesis
      by (cases x) (auto simp: record_entry_def)
  qed
qed

lemma next_entry_vars:
  assumes "\<not> po_substitution (pr_options p)"
  shows "\<exists>m'. next_entry (with_vars b pt m t ov p) = apsnd (with_vars b pt m' t ov) (next_entry p)"
proof -
  obtain r q where e: "entry_loop p = (r, q)" by fastforce
  show ?thesis
  proof (cases "pr_failed p")
    case True
    then show ?thesis by (auto simp: next_entry_def)
  next
    case False
    with entry_loop_vars [OF assms] e show ?thesis by (auto simp: next_entry_def)
  qed
qed

lemma next_entry_options:
  assumes "next_entry p = (r, q)"
  shows "pr_options q = pr_options p"
proof (cases "pr_failed p")
  case True
  with assms show ?thesis by (simp add: next_entry_def)
next
  case False
  then have "entry_loop p = (r, q)" using assms by (simp add: next_entry_def)
  from entry_loop_spec [OF this] obtain q' where st: "stepped p q'" and q: "pr_options q = pr_options q'"
    by (cases r; cases "the r") auto
  with steppedD(2) [OF st] show ?thesis by simp
qed

section \<open>Documents\<close>

lemma drain_vars:
  assumes "it_reader it = None" "it_read_error it = None" "it_parser it = Some p"
    and "it_reader it2 = None" "it_read_error it2 = None"
    and "it_parser it2 = Some (with_vars b pt m t ov p)"
    and "\<not> po_substitution (pr_options p)"
  shows "fst (iter_drain it2) = fst (iter_drain it) \<and> fst (snd (iter_drain it2)) = fst (snd (iter_drain it))"
  using assms
proof (induction it arbitrary: p it2 m rule: iter_drain.induct)
  case (1 it)
  obtain r q where ne: "next_entry p = (r, q)" by fastforce
  obtain m' where ne2: "next_entry (with_vars b pt m t ov p) = (r, with_vars b pt m' t ov q)"
    using next_entry_vars [OF "1.prems"(7)] ne by fastforce
  have opt: "\<not> po_substitution (pr_options q)" using next_entry_options [OF ne] "1.prems"(7) by simp
  let ?r = "map_option (\<lambda>r. case r of Inl e \<Rightarrow> Inl (BufParse e) | Inr kv \<Rightarrow> Inr kv) r"
  have n1: "iter_next it = (?r, it\<lparr>it_parser := Some q\<rparr>)"
    using "1.prems" ne by (simp add: iter_next_def iter_initialize_def)
  have n2: "iter_next it2 = (?r, it2\<lparr>it_parser := Some (with_vars b pt m' t ov q)\<rparr>)"
    using "1.prems" ne2 by (simp add: iter_next_def iter_initialize_def)
  show ?case
  proof (cases "\<exists>kv. r = Some (Inr kv)")
    case True
    then obtain kv where r: "r = Some (Inr kv)" by blast
    have "fst (iter_drain (it2\<lparr>it_parser := Some (with_vars b pt m' t ov q)\<rparr>)) = fst (iter_drain (it\<lparr>it_parser := Some q\<rparr>)) \<and>
      fst (snd (iter_drain (it2\<lparr>it_parser := Some (with_vars b pt m' t ov q)\<rparr>))) = fst (snd (iter_drain (it\<lparr>it_parser := Some q\<rparr>)))"
      by (rule "1.IH" [OF n1 [symmetric], of _ kv q]) (use r opt "1.prems" in simp_all)
    then show ?thesis
      using n1 n2 r by (subst (1 2 3 4) iter_drain.simps) (auto split: prod.splits)
  next
    case False
    then show ?thesis
      using n1 n2 by (subst (1 2 3 4) iter_drain.simps) (auto split: option.splits sum.splits)
  qed
qed

lemma em_extend_map_of: "em_extend m kvs = m ++ map_of (rev kvs)"
  by (induction kvs arbitrary: m)
    (simp_all add: em_extend_def em_insert_def key_insert_def map_add_assoc [symmetric])

lemma em_from_iter_map_of: "em_from_iter kvs = map_of (rev kvs)"
  by (simp add: em_from_iter_def em_extend_map_of)

lemma em_extend_map_add: "em_extend_map m n = m ++ n"
  by (simp add: em_extend_map_def map_add_def fun_eq_iff)

text \<open>Draining a new iterator over a readable source starts with its parser.\<close>

definition started :: "iter \<Rightarrow> ustr \<Rightarrow> iter" where
  "started it source = it\<lparr>it_reader := None,
     it_parser := Some (parser_new source (it_options it) (it_base it) (it_protected it)
       (it_tracker it) (it_input_overrides it)),
     it_base := Map.empty, it_protected := Map.empty, it_tracker := None\<rparr>"

lemma drain_started:
  assumes "it_reader it = Some (Inr source)"
  shows "iter_drain it = iter_drain (started it source)"
proof -
  have "iter_initialize it = started it source" using assms by (simp add: iter_initialize_def started_def Let_def)
  moreover have "iter_initialize (started it source) = started it source"
    by (simp add: iter_initialize_def started_def)
  ultimately have "iter_next it = iter_next (started it source)" by (simp add: iter_next_def)
  then show ?thesis by (subst (1 2) iter_drain.simps) simp
qed

lemma iter_load_parse:
  assumes "parse source False [] = Inr items"
  shows "fst (iter_load (iter_new (Inr source) po_new b pt t ov)) = Inr (map_of (rev items))"
proof -
  let ?it = "iter_new (Inr source) po_new b pt t ov" and ?ref = "parse_iter source False []"
  define p where "p = parser_new source po_new Map.empty Map.empty None True"
  have po: "po_set_substitution False po_new = po_new" by (simp add: po_set_substitution_def po_new_def)
  have f0: "it_reader ?ref = Some (Inr source)" "it_parser (started ?ref source) = Some p"
    "it_reader (started ?ref source) = None" "it_read_error (started ?ref source) = None"
    by (simp_all add: parse_iter_def iter_new_def started_def po p_def)
  have f1: "it_reader ?it = Some (Inr source)"
    "it_parser (started ?it source) = Some (with_vars b pt Map.empty t ov p)"
    "it_reader (started ?it source) = None" "it_read_error (started ?it source) = None"
    by (simp_all add: iter_new_def started_def p_def parser_new_def with_vars_def)
  have "\<not> po_substitution (pr_options p)" by (simp add: p_def parser_new_def po_new_def)
  from drain_vars [OF f0(3,4,2) f1(3,4,2) this] drain_started [OF f0(1)] drain_started [OF f1(1)]
  have "fst (iter_drain ?it) = fst (iter_drain ?ref)" "fst (snd (iter_drain ?it)) = fst (snd (iter_drain ?ref))"
    by simp_all
  moreover obtain it where "iter_drain ?ref = (items, None, it)"
    using assms by (auto simp: parse_def split: prod.splits option.splits)
  ultimately obtain it' where "iter_drain ?it = (items, None, it')" by (metis prod.collapse fst_conv snd_conv)
  then show ?thesis by (simp add: iter_load_def em_from_iter_map_of)
qed

section \<open>The loader\<close>

text \<open>What an input contributes: nothing if it is missing and may be, else its assignments.\<close>

definition input_gives :: "file_system \<Rightarrow> bool \<Rightarrow> dotenv_input \<Rightarrow> (ustr \<times> ustr) list \<Rightarrow> bool" where
  "input_gives fs ignore_missing input items \<longleftrightarrow>
     (case open_input fs ignore_missing input of
        Inr None \<Rightarrow> items = []
      | Inr (Some (Inr doc, path)) \<Rightarrow> parse doc False [] = Inr items
      | _ \<Rightarrow> False)"

lemma input_loop_items:
  assumes "list_all2 (input_gives fs (el_ignore_missing l)) inputs itemss" "el_parse_options l = po_new"
  shows "fst (input_loop fs l protected inputs acc tr) = Inr (acc ++ map_of (rev (concat itemss)))"
  using assms
proof (induction inputs itemss arbitrary: acc tr rule: list_all2_induct)
  case Nil
  then show ?case by simp
next
  case (Cons input inputs items itemss)
  show ?case
  proof (cases "open_input fs (el_ignore_missing l) input = Inr None")
    case True
    with Cons show ?thesis by (simp add: input_gives_def)
  next
    case False
    then obtain doc path where o: "open_input fs (el_ignore_missing l) input = Inr (Some (Inr doc, path))"
      and d: "parse doc False [] = Inr items"
      using Cons.hyps(1) by (auto simp: input_gives_def split: sum.splits option.splits)
    obtain it where "iter_load (iter_new (Inr doc) po_new acc protected tr (el_sequence l \<noteq> InputThenEnv)) =
        (Inr (map_of (rev items)), it)"
      using iter_load_parse [OF d] by (metis prod.collapse)
    with o Cons show ?thesis by (simp add: em_extend_map_add)
  qed
qed

text \<open>
  \<^bold>\<open>C10.\<close> Precedence: for inputs that open (or are missing and optional) and parse, with the default
  options, \<^verbatim>\<open>load\<close> succeeds; among the inputs the last assignment of a name wins, whichever input
  it is in; and the sequence decides between environment and input: \<^verbatim>\<open>EnvThenInput\<close> lets the input
  override the environment, \<^verbatim>\<open>InputThenEnv\<close> never changes a variable of the environment.
\<close>

theorem load_precedence:
  assumes "list_all2 (input_gives fs (el_ignore_missing l)) (el_inputs l) itemss"
    and "el_inputs l \<noteq> []" and "el_parse_options l = po_new"
    and "environment_variables vars = Inr env"
  shows "fst (load vars fs l) =
    (let input = map_of (rev (concat itemss)) in
     Inr (case el_sequence l of
            EnvOnly \<Rightarrow> env
          | EnvThenInput \<Rightarrow> env ++ input
          | InputOnly \<Rightarrow> input
          | InputThenEnv \<Rightarrow> input ++ env))"
proof -
  have "fst (load_input fs l e) = Inr (map_of (rev (concat itemss)))" for e
    using input_loop_items [OF assms(1,3), of _ Map.empty] assms(2) by (simp add: load_input_def Let_def)
  then have "\<exists>tr. load_input fs l e = (Inr (map_of (rev (concat itemss))), tr)" for e
    by (metis prod.collapse)
  then obtain t1 t2 where "load_input fs l env = (Inr (map_of (rev (concat itemss))), t1)"
    "load_input fs l Map.empty = (Inr (map_of (rev (concat itemss))), t2)" by blast
  then show ?thesis
    by (cases "el_sequence l") (simp_all add: load_def assms(4) em_extend_map_add)
qed

theorem load_precedence_witness:
  "fst (load [(OsUnicode (lit ''B''), OsUnicode (lit ''3''))] (\<lambda>_. Inl NotFound)
     (el_with_readers [Inr (lit ''A=1'' @ NL # lit ''B=2''), Inr (lit ''A=4'')])) =
   Inr [lit ''B'' \<mapsto> lit ''3'', lit ''A'' \<mapsto> lit ''4'']"
proof -
  let ?l = "el_with_readers [Inr (lit ''A=1'' @ NL # lit ''B=2''), Inr (lit ''A=4'')]"
  let ?items = "[[(lit ''A'', lit ''1''), (lit ''B'', lit ''2'')], [(lit ''A'', lit ''4'')]]"
  note ev = lit_def render_def render_var_def validate_key_def render_value_def is_unquoted_safe_def
    bad_key_char_def starts_with_def uchar_simps
  have p1: "parse (lit ''A=1'' @ NL # lit ''B=2'') False [] = Inr [(lit ''A'', lit ''1''), (lit ''B'', lit ''2'')]"
    by (rule rendered_parses) (simp add: ev)
  have p2: "parse (lit ''A=4'') False [] = Inr [(lit ''A'', lit ''4'')]"
    by (rule rendered_parses) (simp add: ev)
  have l: "el_inputs ?l = [InReader (Inr (lit ''A=1'' @ NL # lit ''B=2'')) None, InReader (Inr (lit ''A=4'')) None]"
    "el_parse_options ?l = po_new" "el_sequence ?l = InputThenEnv" "\<not> el_ignore_missing ?l"
    by (simp_all add: el_with_readers_def el_empty_def)
  have "list_all2 (input_gives (\<lambda>_. Inl NotFound) (el_ignore_missing ?l)) (el_inputs ?l) ?items"
    using p1 p2 by (simp add: l input_gives_def open_input_def)
  from load_precedence [OF this, of "[(OsUnicode (lit ''B''), OsUnicode (lit ''3''))]" "[lit ''B'' \<mapsto> lit ''3'']"]
  show ?thesis
    by (simp add: l environment_variables_def em_insert_def key_insert_def) (simp add: lit_def fun_eq_iff)
qed

end
