(* ===== verification/Wildcard.thy ===== *)
theory Wildcard
  imports Mise_Prelude
begin

text \<open>
  Wildcard patterns for environment variable names, \<^verbatim>\<open>crates/mise-util/src/wildcard.rs\<close>: a star
  matches any text and a question mark any one character.  The code is a greedy scan that
  remembers the last star; the theory compares it with the recursive definition of matching.
\<close>

section \<open>The model\<close>

type_synonym wildcard_patterns = "ustr list"

text \<open>The main loop: input index, pattern index, last star, input index at the last star.\<close>

function wc_loop :: "ustr \<Rightarrow> ustr \<Rightarrow> nat \<Rightarrow> nat \<Rightarrow> nat option \<Rightarrow> nat \<Rightarrow> bool" where
  "wc_loop input wildcard input_idx wildcard_idx star_idx star_input_idx =
     (if input_idx < length input then
        (if wildcard_idx < length wildcard \<and>
            (wildcard ! wildcard_idx = QUESTION \<or> wildcard ! wildcard_idx = input ! input_idx)
         then wc_loop input wildcard (input_idx + 1) (wildcard_idx + 1) star_idx star_input_idx
         else if wildcard_idx < length wildcard \<and> wildcard ! wildcard_idx = STAR
         then wc_loop input wildcard input_idx (wildcard_idx + 1) (Some wildcard_idx) input_idx
         else case star_idx of
                Some idx \<Rightarrow>
                  wc_loop input wildcard (star_input_idx + 1) (idx + 1) star_idx (star_input_idx + 1)
              | None \<Rightarrow> False)
      else wildcard_idx + length (takeWhile (\<lambda>c. c = STAR) (drop wildcard_idx wildcard)) = length wildcard)"
  by pat_completeness auto
termination
  by (relation "measures [
        \<lambda>(input, wildcard, i, w, star, si). if si \<le> i then 0 else 1,
        \<lambda>(input, wildcard, i, w, star, si). if i < length input then Suc (length input - si) else 0,
        \<lambda>(input, wildcard, i, w, star, si). length wildcard - w]") auto

declare wc_loop.simps [simp del]

definition wildcard_match :: "ustr \<Rightarrow> ustr \<Rightarrow> bool" where
  "wildcard_match input wildcard = wc_loop input wildcard 0 0 None 0"

fun match_any :: "wildcard_patterns \<Rightarrow> ustr \<Rightarrow> bool" where
  "match_any [] input = False"
| "match_any (pattern # patterns) input =
     (if wildcard_match input pattern then True else match_any patterns input)"

section \<open>Matching\<close>

fun wmatch :: "ustr \<Rightarrow> ustr \<Rightarrow> bool" where
  "wmatch [] [] = True"
| "wmatch (c # s) [] = False"
| "wmatch [] (p # ps) = (p = STAR \<and> wmatch [] ps)"
| "wmatch (c # s) (p # ps) =
     (if p = STAR then wmatch (c # s) ps \<or> wmatch s (p # ps)
      else (p = QUESTION \<or> p = c) \<and> wmatch s ps)"

lemma wmatch_star: "wmatch s (STAR # ps) \<longleftrightarrow> (\<exists>n\<le>length s. wmatch (drop n s) ps)"
proof (induction s)
  case Nil
  then show ?case by simp
next
  case (Cons c s)
  have "wmatch (c # s) (STAR # ps) \<longleftrightarrow> wmatch (c # s) ps \<or> (\<exists>n\<le>length s. wmatch (drop n s) ps)"
    using Cons.IH by simp
  also have "\<dots> \<longleftrightarrow> (\<exists>n\<le>length (c # s). wmatch (drop n (c # s)) ps)" (is "?l \<longleftrightarrow> ?r")
  proof
    assume ?r
    then obtain n where "n \<le> Suc (length s)" "wmatch (drop n (c # s)) ps" by auto
    then show ?l by (cases n) auto
  qed (auto intro: exI [of _ 0] exI [of _ "Suc _"])
  finally show ?case .
qed

lemma wmatch_Nil: "wmatch [] ps \<longleftrightarrow> (\<forall>p\<in>set ps. p = STAR)"
  by (induction ps) auto

text \<open>A stretch of the pattern without stars consumes as many characters.\<close>

lemma wmatch_segment:
  "STAR \<notin> set seg \<Longrightarrow> wmatch s (seg @ ps) \<Longrightarrow> length seg \<le> length s \<and> wmatch (drop (length seg) s) ps"
proof (induction seg arbitrary: s)
  case Nil
  then show ?case by simp
next
  case (Cons p seg)
  then show ?case by (cases s) (auto split: if_splits)
qed

lemma wmatch_step:
  assumes "i < length s" "w < length p" "p ! w \<noteq> STAR"
  shows "wmatch (drop i s) (drop w p) \<longleftrightarrow>
    (p ! w = QUESTION \<or> p ! w = s ! i) \<and> wmatch (drop (Suc i) s) (drop (Suc w) p)"
proof -
  have "drop i s = s ! i # drop (Suc i) s" "drop w p = p ! w # drop (Suc w) p"
    using assms by (simp_all add: Cons_nth_drop_Suc)
  with assms(3) show ?thesis by simp
qed

lemma wmatch_at_star:
  assumes "w < length p" "p ! w = STAR"
  shows "wmatch (drop i s) (drop w p) \<longleftrightarrow>
    wmatch (drop i s) (drop (Suc w) p) \<or> wmatch (drop (Suc i) s) (drop w p)"
proof -
  have p: "drop w p = STAR # drop (Suc w) p" using assms by (simp add: Cons_nth_drop_Suc [symmetric])
  show ?thesis
  proof (cases "i < length s")
    case True
    then have "drop i s = s ! i # drop (Suc i) s" by (simp add: Cons_nth_drop_Suc)
    with p show ?thesis by simp
  next
    case False
    with p show ?thesis by simp
  qed
qed

section \<open>Correctness of the scan\<close>

text \<open>What the scan still has to decide in a given state.\<close>

definition wc_goal :: "ustr \<Rightarrow> ustr \<Rightarrow> nat \<Rightarrow> nat \<Rightarrow> nat option \<Rightarrow> nat \<Rightarrow> bool" where
  "wc_goal s p i w star si \<longleftrightarrow> wmatch (drop i s) (drop w p) \<or>
     (case star of None \<Rightarrow> False | Some x \<Rightarrow> wmatch (drop (Suc si) s) (drop x p))"

definition star_ok :: "ustr \<Rightarrow> nat option \<Rightarrow> bool" where
  "star_ok p star \<longleftrightarrow> (case star of None \<Rightarrow> True | Some x \<Rightarrow> x < length p \<and> p ! x = STAR)"

text \<open>Soundness needs nothing of the input.\<close>

lemma wc_loop_sound:
  "wc_loop s p i w star si \<Longrightarrow> star_ok p star \<Longrightarrow> w \<le> length p \<Longrightarrow> wc_goal s p i w star si"
proof (induction s p i w star si rule: wc_loop.induct)
  case (1 s p i w star si)
  show ?case
  proof (cases "i < length s")
    case False
    with "1.prems"(1,3) have "length (takeWhile (\<lambda>c. c = STAR) (drop w p)) = length (drop w p)"
      by (simp add: wc_loop.simps)
    then have "\<forall>c\<in>set (drop w p). c = STAR" by (simp only: takeWhile_all_length)
    with False show ?thesis by (simp add: wc_goal_def wmatch_Nil)
  next
    case True
    consider (eq) "w < length p" "p ! w = QUESTION \<or> p ! w = s ! i"
      | (star) "\<not> (w < length p \<and> (p ! w = QUESTION \<or> p ! w = s ! i))" "w < length p" "p ! w = STAR"
      | (restart) x where "\<not> (w < length p \<and> (p ! w = QUESTION \<or> p ! w = s ! i))"
          "\<not> (w < length p \<and> p ! w = STAR)" "star = Some x"
      | (fail) "\<not> (w < length p \<and> (p ! w = QUESTION \<or> p ! w = s ! i))"
          "\<not> (w < length p \<and> p ! w = STAR)" "star = None" by fastforce
    then show ?thesis
    proof cases
      case eq
      then have "wc_goal s p (i + 1) (w + 1) star si"
        using 1 True by (subst (asm) (3) wc_loop.simps) simp
      moreover have "wmatch (drop i s) (drop w p)" if "wmatch (drop (Suc i) s) (drop (Suc w) p)"
      proof (cases "p ! w = STAR")
        case True
        with wmatch_at_star [OF eq(1) True] show ?thesis
          using that by blast
      next
        case False
        with wmatch_step [OF \<open>i < length s\<close> eq(1) False] eq that show ?thesis by blast
      qed
      ultimately show ?thesis by (auto simp: wc_goal_def)
    next
      case star
      then have "wc_goal s p i (w + 1) (Some w) i"
        using 1 True by (subst (asm) (3) wc_loop.simps) (simp add: star_ok_def)
      with wmatch_at_star [OF star(2,3), of i s] show ?thesis by (auto simp: wc_goal_def)
    next
      case restart
      have x: "x < length p" "p ! x = STAR" using "1.prems"(2) restart by (simp_all add: star_ok_def)
      have "wc_goal s p (si + 1) (x + 1) star (si + 1)"
        using 1 True restart x by (subst (asm) (3) wc_loop.simps) (simp add: star_ok_def)
      with wmatch_at_star [OF x, of "Suc si" s] restart show ?thesis by (auto simp: wc_goal_def)
    next
      case fail
      with "1.prems"(1) True show ?thesis by (simp add: wc_loop.simps)
    qed
  qed
qed

text \<open>
  For completeness the input must not contain a star itself.  Since the last star the scan has
  matched the pattern characters after it, none of them a star, against as many input
  characters; hence a later restart can only leave less input for the next star.
\<close>

definition wc_inv :: "ustr \<Rightarrow> ustr \<Rightarrow> nat \<Rightarrow> nat \<Rightarrow> nat option \<Rightarrow> nat \<Rightarrow> bool" where
  "wc_inv s p i w star si \<longleftrightarrow> i \<le> length s \<and> w \<le> length p \<and>
     (case star of None \<Rightarrow> True
      | Some x \<Rightarrow> x < w \<and> p ! x = STAR \<and> i + Suc x = si + w \<and>
          (\<forall>n. x < n \<and> n < w \<longrightarrow> p ! n \<noteq> STAR))"

lemma restart_leaves_less:
  assumes inv: "wc_inv s p i w (Some x) si" and m: "wmatch (drop (Suc si) s) (drop x p)"
  obtains n where "i < n" "wmatch (drop n s) (drop w p)"
proof -
  have x: "x < w" "w \<le> length p" "p ! x = STAR" "i + Suc x = si + w" "i \<le> length s"
    "\<forall>n. x < n \<and> n < w \<longrightarrow> p ! n \<noteq> STAR"
    using inv by (auto simp: wc_inv_def)
  define seg where "seg = drop (Suc x) (take w p)"
  have p: "drop x p = STAR # (seg @ drop w p)"
  proof -
    have "drop x p = p ! x # drop (Suc x) p" using x(1,2) by (simp add: Cons_nth_drop_Suc)
    moreover have "drop (Suc x) p = seg @ drop w p"
      using x(1,2) by (simp add: seg_def drop_take) (metis append_take_drop_id drop_drop le_add_diff_inverse2 Suc_leI)
    ultimately show ?thesis using x(3) by simp
  qed
  have len: "length seg = w - Suc x" using x by (simp add: seg_def)
  have seg: "STAR \<notin> set seg"
  proof
    assume "STAR \<in> set seg"
    then obtain n where n: "n < length seg" "seg ! n = STAR" by (auto simp: in_set_conv_nth)
    then have "p ! (Suc x + n) = STAR" "Suc x + n < w" using len x(2) by (simp_all add: seg_def)
    with x(6) show False by auto
  qed
  obtain k where k: "k \<le> length s - Suc si" "wmatch (drop (k + Suc si) s) (seg @ drop w p)"
    using m unfolding p wmatch_star by auto
  from wmatch_segment [OF seg k(2)] have "wmatch (drop (k + Suc si + length seg) s) (drop w p)"
    by (simp add: add.commute)
  moreover have "i < k + Suc si + length seg" using x len by linarith
  ultimately show ?thesis using that by blast
qed

lemma wmatch_star_earlier:
  assumes "w < length p" "p ! w = STAR" "wmatch (drop n s) (drop w p)" "i \<le> n"
  shows "wmatch (drop i s) (drop w p)"
  using assms(4)
proof (induction rule: inc_induct)
  case base
  show ?case by (rule assms(3))
next
  case (step m)
  then show ?case using wmatch_at_star [OF assms(1,2), of m s] by blast
qed

lemma wc_loop_complete:
  "wc_goal s p i w star si \<Longrightarrow> STAR \<notin> set s \<Longrightarrow> wc_inv s p i w star si \<Longrightarrow> wc_loop s p i w star si"
proof (induction s p i w star si rule: wc_loop.induct)
  case (1 s p i w star si)
  show ?case
  proof (cases "i < length s")
    case False
    then have i: "i = length s" using "1.prems"(3) by (simp add: wc_inv_def)
    have "wmatch [] (drop w p)"
    proof (cases star)
      case None
      with "1.prems"(1) i show ?thesis by (simp add: wc_goal_def)
    next
      case (Some x)
      consider "wmatch (drop i s) (drop w p)" | "wmatch (drop (Suc si) s) (drop x p)"
        using "1.prems"(1) Some by (auto simp: wc_goal_def)
      then show ?thesis
      proof cases
        case 1
        with i show ?thesis by simp
      next
        case 2
        with "1.prems"(3) Some obtain n where "i < n" "wmatch (drop n s) (drop w p)"
          using restart_leaves_less by blast
        with i show ?thesis by simp
      qed
    qed
    then have "\<forall>c\<in>set (drop w p). c = STAR" by (simp only: wmatch_Nil)
    then have "length (takeWhile (\<lambda>c. c = STAR) (drop w p)) = length (drop w p)"
      by (simp only: takeWhile_all_length)
    with i "1.prems"(3) show ?thesis by (subst wc_loop.simps) (simp add: wc_inv_def)
  next
    case True
    have si: "s ! i \<noteq> STAR" using True "1.prems"(2) by (metis nth_mem)
    consider (eq) "w < length p" "p ! w = QUESTION \<or> p ! w = s ! i"
      | (star) "\<not> (w < length p \<and> (p ! w = QUESTION \<or> p ! w = s ! i))" "w < length p" "p ! w = STAR"
      | (restart) "\<not> (w < length p \<and> (p ! w = QUESTION \<or> p ! w = s ! i))"
          "\<not> (w < length p \<and> p ! w = STAR)" by fastforce
    then show ?thesis
    proof cases
      case eq
      then have ns: "p ! w \<noteq> STAR" using si by auto
      have "wc_goal s p (i + 1) (w + 1) star si"
        using "1.prems"(1) wmatch_step [OF True eq(1) ns] by (auto simp: wc_goal_def)
      moreover have "wc_inv s p (i + 1) (w + 1) star si"
        using "1.prems"(3) True eq(1) ns by (auto simp: wc_inv_def less_Suc_eq split: option.splits)
      ultimately show ?thesis
        using "1.IH"(1) [OF True _ _ "1.prems"(2)] eq True by (subst wc_loop.simps) simp
    next
      case star
      have "wmatch (drop i s) (drop w p)"
      proof (cases star)
        case None
        with "1.prems"(1) show ?thesis by (simp add: wc_goal_def)
      next
        case (Some x)
        then consider "wmatch (drop i s) (drop w p)" | "wmatch (drop (Suc si) s) (drop x p)"
          using "1.prems"(1) by (auto simp: wc_goal_def)
        then show ?thesis
        proof cases
          case 2
          with "1.prems"(3) Some obtain n where "i < n" "wmatch (drop n s) (drop w p)"
            using restart_leaves_less by blast
          with wmatch_star_earlier [OF star(2,3)] show ?thesis by simp
        qed
      qed
      then have "wc_goal s p i (w + 1) (Some w) i"
        using wmatch_at_star [OF star(2,3), of i s] by (simp add: wc_goal_def)
      moreover have "wc_inv s p i (w + 1) (Some w) i"
        using "1.prems"(3) star by (auto simp: wc_inv_def)
      ultimately show ?thesis
        using "1.IH"(2) [OF True star(1) _ _ "1.prems"(2)] star True by (subst wc_loop.simps) simp
    next
      case restart
      have no: "\<not> wmatch (drop i s) (drop w p)"
      proof (cases "w < length p")
        case True
        with wmatch_step [OF \<open>i < length s\<close> True] restart show ?thesis by blast
      next
        case False
        with \<open>i < length s\<close> show ?thesis by (cases "drop i s") auto
      qed
      then obtain x where x: "star = Some x" "wmatch (drop (Suc si) s) (drop x p)"
        using "1.prems"(1) by (auto simp: wc_goal_def split: option.splits)
      have px: "x < length p" "p ! x = STAR" "si \<le> i" using "1.prems"(3) x by (auto simp: wc_inv_def)
      have "wc_goal s p (si + 1) (x + 1) star (si + 1)"
        using x wmatch_at_star [OF px(1,2), of "Suc si" s] by (auto simp: wc_goal_def)
      moreover have "wc_inv s p (si + 1) (x + 1) star (si + 1)"
        using px x True by (auto simp: wc_inv_def)
      ultimately show ?thesis
        using "1.IH"(3) [OF True restart x(1) _ "1.prems"(2)] restart True x(1)
        by (subst wc_loop.simps) (cases "w < length p"; simp)
    qed
  qed
qed

text \<open>
  A name that contains a star is not matched by the pattern \<^verbatim>\<open>*\<close>, which matches every name:
  the scan compares the pattern's star with the name's star as ordinary characters first and
  never records it as a wildcard.
\<close>

lemma wildcard_literal_star:
  "wmatch (lit ''*b'') (lit ''*'') \<and> \<not> wildcard_match (lit ''*b'') (lit ''*'')"
  by (simp add: wildcard_match_def wc_loop.simps lit_def)

text \<open>
  \<^bold>\<open>C11.\<close> Wildcard matching: the scan accepts only names that match the pattern, and for names
  without a star it accepts exactly those, whatever stars and question marks the pattern has.  For names with
  a star it may be too strict: the pattern \<^verbatim>\<open>*\<close> does not match the name \<^verbatim>\<open>*b\<close>.
\<close>

theorem wildcard_match_correct:
  "(wildcard_match input wildcard \<longrightarrow> wmatch input wildcard) \<and>
   (STAR \<notin> set input \<longrightarrow> wildcard_match input wildcard = wmatch input wildcard) \<and>
   wmatch (lit ''*b'') (lit ''*'') \<and> \<not> wildcard_match (lit ''*b'') (lit ''*'')"
proof -
  have "wildcard_match input wildcard \<Longrightarrow> wmatch input wildcard"
    using wc_loop_sound [of input wildcard 0 0 None 0]
    by (simp add: wildcard_match_def star_ok_def wc_goal_def)
  moreover have "wildcard_match input wildcard" if "STAR \<notin> set input" "wmatch input wildcard"
    using wc_loop_complete [of input wildcard 0 0 None 0] that
    by (simp add: wildcard_match_def wc_inv_def wc_goal_def)
  ultimately show ?thesis using wildcard_literal_star by blast
qed

theorem wildcard_match_correct_witness:
  "wmatch (lit ''AUTH_PROD_KEY'') (lit ''AUTH_*_KEY'')
   = wildcard_match (lit ''AUTH_PROD_KEY'') (lit ''AUTH_*_KEY'')"
  using wildcard_match_correct [of "lit ''AUTH_PROD_KEY''" "lit ''AUTH_*_KEY''"]
  by (simp add: lit_def)

end
