(* ===== verification/Path_Buf.thy ===== *)
theory Path_Buf
  imports Mise_Prelude "HOL-Library.Multiset"
begin

text \<open>
  The part of \<^verbatim>\<open>std::path\<close> and \<^verbatim>\<open>std::env\<close> that the PATH code of mise relies on, for Unix: the
  components of a path, the equality of paths that they induce, splitting and joining the
  PATH variable, and hash maps and sets keyed by paths.  On top of it the path helpers of
  \<^verbatim>\<open>crates/mise-util/src/file.rs\<close> that recognise the shim directories.  A path is a Unicode
  string, so that \<^verbatim>\<open>to_string_lossy\<close> is the identity.
\<close>

named_theorems path_simps "evaluation of paths and PATH strings"

section \<open>Splitting a string at a separator\<close>

text \<open>\<^verbatim>\<open>str::split\<close> on one character: always at least one part.\<close>

fun split_on :: "'a \<Rightarrow> 'a list \<Rightarrow> 'a list list" where
  "split_on d [] = [[]]"
| "split_on d (c # s) =
     (if c = d then [] # split_on d s
      else (case split_on d s of [] \<Rightarrow> [[c]] | p # ps \<Rightarrow> (c # p) # ps))"

fun join_with :: "'a \<Rightarrow> 'a list list \<Rightarrow> 'a list" where
  "join_with d [] = []"
| "join_with d [p] = p"
| "join_with d (p # q # ps) = p @ d # join_with d (q # ps)"

lemma split_on_not_Nil [simp]: "split_on d s \<noteq> []"
  by (induction s) (auto split: list.splits)

lemma join_split_on [simp]: "join_with d (split_on d s) = s"
proof (induction s)
  case Nil
  then show ?case by simp
next
  case (Cons c s)
  obtain p ps where s: "split_on d s = p # ps"
    by (metis split_on_not_Nil neq_Nil_conv)
  from Cons s show ?case by (cases ps) auto
qed

lemma split_on_no_sep: "p \<in> set (split_on d s) \<Longrightarrow> d \<notin> set p"
proof (induction s arbitrary: p)
  case Nil
  then show ?case by simp
next
  case (Cons c s)
  obtain q qs where s: "split_on d s = q # qs"
    by (metis split_on_not_Nil neq_Nil_conv)
  from Cons.prems Cons.IH s show ?case by (auto split: if_splits)
qed

lemma split_on_append: "d \<notin> set p \<Longrightarrow> split_on d (p @ d # s) = p # split_on d s"
  by (induction p) auto

lemma split_on_single: "d \<notin> set p \<Longrightarrow> split_on d p = [p]"
  by (induction p) auto

lemma split_on_join:
  assumes "ps \<noteq> []" and "\<forall>p\<in>set ps. d \<notin> set p"
  shows "split_on d (join_with d ps) = ps"
  using assms
  by (induction d ps rule: join_with.induct) (auto simp: split_on_append split_on_single)

lemma length_join_with:
  "ps \<noteq> [] \<Longrightarrow> length (join_with d ps) + 1 = sum_list (map (\<lambda>p. length p + 1) ps)"
  by (induction d ps rule: join_with.induct) auto

section \<open>Components and equality of paths\<close>

datatype component = RootDir | CurDir | ParentDir | Normal ustr

text \<open>
  \<^verbatim>\<open>Path::components\<close>: repeated separators and interior \<^verbatim>\<open>.\<close> entries vanish, a leading \<^verbatim>\<open>.\<close>
  of a relative path is kept.
\<close>

definition component_of :: "ustr \<Rightarrow> component option" where
  "component_of p =
     (if p = [] \<or> p = [DOT] then None
      else if p = [DOT, DOT] then Some ParentDir
      else Some (Normal p))"

definition components :: "ustr \<Rightarrow> component list" where
  "components s =
     (case split_on SLASH s of
        [] \<Rightarrow> []
      | p # ps \<Rightarrow>
          (if p = [] then (if ps = [] then [] else [RootDir])
           else if p = [DOT] then [CurDir]
           else List.map_filter component_of [p])
          @ List.map_filter component_of ps)"

text \<open>\<^verbatim>\<open>PathBuf\<close>'s equality and hash are those of its components.\<close>

definition path_eq :: "ustr \<Rightarrow> ustr \<Rightarrow> bool" where
  "path_eq p q = (components p = components q)"

definition path_in :: "ustr \<Rightarrow> ustr list \<Rightarrow> bool" where
  "path_in p ps = (components p \<in> components ` set ps)"

definition path_count :: "ustr \<Rightarrow> ustr list \<Rightarrow> nat" where
  "path_count p ps = count_list (map components ps) (components p)"

lemma path_eq_refl [simp]: "path_eq p p"
  by (simp add: path_eq_def)

lemma path_in_Nil [simp]: "\<not> path_in p []"
  by (simp add: path_in_def)

lemma path_in_Cons [simp]: "path_in p (q # ps) \<longleftrightarrow> path_eq p q \<or> path_in p ps"
  by (auto simp: path_in_def path_eq_def)

lemma path_in_append [simp]: "path_in p (ps @ qs) \<longleftrightarrow> path_in p ps \<or> path_in p qs"
  by (auto simp: path_in_def)

lemma path_in_mem: "p \<in> set ps \<Longrightarrow> path_in p ps"
  by (simp add: path_in_def)

lemma path_in_iff: "path_in p ps \<longleftrightarrow> (\<exists>q\<in>set ps. path_eq p q)"
  by (auto simp: path_in_def path_eq_def)

lemma path_count_Nil [simp]: "path_count p [] = 0"
  by (simp add: path_count_def)

lemma path_count_Cons [simp]:
  "path_count p (q # ps) = (if path_eq p q then 1 else 0) + path_count p ps"
  by (simp add: path_count_def path_eq_def)

lemma path_count_append [simp]: "path_count p (ps @ qs) = path_count p ps + path_count p qs"
  by (simp add: path_count_def)

lemma path_count_0_iff: "path_count p ps = 0 \<longleftrightarrow> \<not> path_in p ps"
  by (induction ps) auto

lemma path_count_cong: "path_eq p q \<Longrightarrow> path_count p ps = path_count q ps"
  by (simp add: path_count_def path_eq_def)

lemma path_in_cong: "path_eq p q \<Longrightarrow> path_in p ps = path_in q ps"
  by (simp add: path_in_def path_eq_def)

section \<open>The PATH variable\<close>

text \<open>\<^verbatim>\<open>std::env::split_paths\<close> and \<^verbatim>\<open>std::env::join_paths\<close>; joining fails on an entry with a colon.\<close>

definition split_paths :: "ustr \<Rightarrow> ustr list" where
  "split_paths s = split_on COLON s"

definition join_paths :: "ustr list \<Rightarrow> ustr option" where
  "join_paths ps = (if \<exists>p\<in>set ps. COLON \<in> set p then None else Some (join_with COLON ps))"

lemma split_paths_not_Nil [simp]: "split_paths s \<noteq> []"
  by (simp add: split_paths_def)

lemma split_paths_no_colon: "p \<in> set (split_paths s) \<Longrightarrow> COLON \<notin> set p"
  unfolding split_paths_def by (rule split_on_no_sep)

lemma join_paths_Some: "\<forall>p\<in>set ps. COLON \<notin> set p \<Longrightarrow> join_paths ps = Some (join_with COLON ps)"
  by (auto simp: join_paths_def)

lemma join_split_paths [simp]: "join_paths (split_paths s) = Some s"
proof -
  have "join_paths (split_paths s) = Some (join_with COLON (split_paths s))"
    using split_paths_no_colon by (blast intro: join_paths_Some)
  then show ?thesis by (simp add: split_paths_def)
qed

lemma split_join_paths: "join_paths ps = Some s \<Longrightarrow> ps \<noteq> [] \<Longrightarrow> split_paths s = ps"
  unfolding join_paths_def split_paths_def
  by (auto simp: split_on_join split: if_splits)

section \<open>Hash maps keyed by paths\<close>

text \<open>
  A \<^verbatim>\<open>HashMap<PathBuf, usize>\<close> as an association list that keeps the path first inserted for a
  key.  The code iterates such maps only to write entries of pairwise different keys, so the
  iteration order is immaterial; the model takes the order of insertion.
\<close>

type_synonym path_map = "(ustr \<times> nat) list"

fun pm_get :: "path_map \<Rightarrow> ustr \<Rightarrow> nat option" where
  "pm_get [] p = None"
| "pm_get ((q, n) # m) p = (if path_eq p q then Some n else pm_get m p)"

fun pm_insert :: "ustr \<Rightarrow> nat \<Rightarrow> path_map \<Rightarrow> path_map" where
  "pm_insert p n [] = [(p, n)]"
| "pm_insert p n ((q, k) # m) = (if path_eq p q then (q, n) # m else (q, k) # pm_insert p n m)"

definition pm_get_or :: "nat \<Rightarrow> path_map \<Rightarrow> ustr \<Rightarrow> nat" where
  "pm_get_or d m p = (case pm_get m p of None \<Rightarrow> d | Some n \<Rightarrow> n)"

lemma pm_get_insert [simp]:
  "pm_get (pm_insert p n m) q = (if path_eq q p then Some n else pm_get m q)"
  by (induction m) (auto simp: path_eq_def)

lemma pm_get_cong: "path_eq p q \<Longrightarrow> pm_get m p = pm_get m q"
  by (induction m) (auto simp: path_eq_def)

lemma pm_get_None_iff: "pm_get m p = None \<longleftrightarrow> \<not> path_in p (map fst m)"
  by (induction m p rule: pm_get.induct) simp_all

lemma pm_insert_keys:
  "map components (map fst (pm_insert p n m)) =
     (if path_in p (map fst m) then map components (map fst m)
      else map components (map fst m) @ [components p])"
  by (induction p n m rule: pm_insert.induct) (simp_all add: path_eq_def)

lemma pm_insert_distinct:
  "distinct (map components (map fst m)) \<Longrightarrow> distinct (map components (map fst (pm_insert p n m)))"
  unfolding pm_insert_keys by (auto simp: path_in_def)

section \<open>Tilde expansion and the shim directories\<close>

text \<open>
  What the path helpers read from their surroundings: the home and shim directories of the
  loaded settings and the file system's canonicalisation, \<^verbatim>\<open>None\<close> where it fails.
\<close>

record path_ctx =
  pc_home :: ustr
  pc_shims :: ustr
  pc_system_shims :: ustr
  pc_canonicalize :: "ustr \<Rightarrow> ustr option"

fun component_str :: "component \<Rightarrow> ustr" where
  "component_str RootDir = [SLASH]"
| "component_str CurDir = [DOT]"
| "component_str ParentDir = [DOT, DOT]"
| "component_str (Normal p) = p"

text \<open>\<^verbatim>\<open>PathBuf::push\<close>: an absolute path replaces the buffer, a separator is added when needed.\<close>

definition path_push :: "ustr \<Rightarrow> ustr \<Rightarrow> ustr" where
  "path_push buf p =
     (if starts_with [SLASH] p then p
      else if buf = [] \<or> last buf = SLASH then buf @ p
      else buf @ SLASH # p)"

definition replace_path :: "path_ctx \<Rightarrow> ustr \<Rightarrow> ustr" where
  "replace_path c path =
     (case strip_prefix [Normal [126]] (components path) of
        Some rest \<Rightarrow> foldl (\<lambda>expanded comp. path_push expanded (component_str comp)) (pc_home c) rest
      | None \<Rightarrow> path)"

definition paths_eq :: "ustr \<Rightarrow> ustr \<Rightarrow> bool" where
  "paths_eq a b = path_eq a b"

definition canonicalize_or_self :: "path_ctx \<Rightarrow> ustr \<Rightarrow> ustr" where
  "canonicalize_or_self c path = (case pc_canonicalize c path of Some p \<Rightarrow> p | None \<Rightarrow> path)"

definition is_mise_shims_dir :: "path_ctx \<Rightarrow> ustr \<Rightarrow> bool" where
  "is_mise_shims_dir c path =
     (let resolved = replace_path c path;
          user_shims = pc_shims c;
          sys_shims = pc_system_shims c
      in if paths_eq resolved user_shims \<or> paths_eq resolved sys_shims then True
         else let canon_input = canonicalize_or_self c resolved;
                  canon_user = canonicalize_or_self c user_shims;
                  canon_sys = canonicalize_or_self c sys_shims
              in paths_eq canon_input canon_user \<or> paths_eq canon_input canon_sys)"

lemmas [path_simps] = path_eq_def component_of_def components_def split_paths_def
  join_paths_def path_push_def replace_path_def paths_eq_def canonicalize_or_self_def
  is_mise_shims_dir_def List.map_filter_simps lit_def starts_with_def pm_get_or_def

lemma components_examples:
  "components (lit ''/a//b/./c/'') = [RootDir, Normal (lit ''a''), Normal (lit ''b''), Normal (lit ''c'')]"
  "components (lit ''./a'') = [CurDir, Normal (lit ''a'')]"
  "components (lit ''.'') = [CurDir]"
  "components (lit ''/'') = [RootDir]"
  "components (lit '''') = []"
  "components (lit ''a/../.'') = [Normal (lit ''a''), ParentDir]"
  by (simp_all add: path_simps)

end
