(* ===== verification/Path_Env.thy ===== *)
theory Path_Env
  imports Path_Buf "HOL-Library.Sublist"
begin

text \<open>
  The PATH that mise hands to the programs it starts: \<^verbatim>\<open>PathEnv\<close> of
  \<^verbatim>\<open>crates/mise-util/src/path_env.rs\<close>, with the test for directories below mise's install
  directories.  The theorems: removing later duplicates never changes which directory a
  lookup finds, the entries mise adds come directly before the shims (or before everything
  inherited), and joining a PATH built from a PATH string never panics.
\<close>

section \<open>State and operations\<close>

record path_env =
  pe_pre :: "ustr list"
  pe_mise :: "ustr list"
  pe_marked :: "ustr list"
  pe_post :: "ustr list"
  pe_seen_shims :: bool

definition pe_new :: path_env where
  "pe_new = \<lparr> pe_pre = [], pe_mise = [], pe_marked = [], pe_post = [], pe_seen_shims = False \<rparr>"

definition pe_add :: "path_env \<Rightarrow> ustr \<Rightarrow> path_env" where
  "pe_add pe path = pe\<lparr> pe_mise := pe_mise pe @ split_paths path \<rparr>"

text \<open>The filter of \<^verbatim>\<open>to_vec\<close>: \<^verbatim>\<open>seen.insert\<close> is true for the first path of its components.\<close>

fun to_vec_filter :: "ustr list \<Rightarrow> ustr list \<Rightarrow> ustr list" where
  "to_vec_filter seen [] = []"
| "to_vec_filter seen (p # ps) =
     (if path_in p seen then to_vec_filter seen ps else p # to_vec_filter (p # seen) ps)"

definition to_vec :: "path_env \<Rightarrow> ustr list" where
  "to_vec pe = to_vec_filter [] (pe_pre pe @ pe_mise pe @ pe_post pe)"

definition mark_managed :: "path_env \<Rightarrow> ustr \<Rightarrow> path_env" where
  "mark_managed pe path = pe\<lparr> pe_marked := pe_marked pe @ [path] \<rparr>"

definition managed_entries :: "path_env \<Rightarrow> ustr list" where
  "managed_entries pe = filter (\<lambda>p. path_in p (pe_mise pe @ pe_marked pe)) (to_vec pe)"

text \<open>\<^verbatim>\<open>join\<close> unwraps the result of \<^verbatim>\<open>join_paths\<close>: \<^const>\<open>None\<close> is the panic.\<close>

definition pe_join :: "path_env \<Rightarrow> ustr option" where
  "pe_join pe = join_paths (to_vec pe)"

text \<open>One step of the loop of \<^verbatim>\<open>from_iter\<close>, and the loop.\<close>

definition from_iter_step :: "path_ctx \<Rightarrow> bool \<Rightarrow> path_env \<Rightarrow> ustr \<Rightarrow> path_env" where
  "from_iter_step c activate_aggressive pe path =
     (if pe_seen_shims pe then pe\<lparr> pe_post := pe_post pe @ [path] \<rparr>
      else if is_mise_shims_dir c path \<and> \<not> activate_aggressive
      then pe\<lparr> pe_seen_shims := True, pe_post := pe_post pe @ [path] \<rparr>
      else pe\<lparr> pe_pre := pe_pre pe @ [path] \<rparr>)"

definition pe_from_iter :: "path_ctx \<Rightarrow> bool \<Rightarrow> ustr list \<Rightarrow> path_env" where
  "pe_from_iter c activate_aggressive paths =
     (let pe = foldl (from_iter_step c activate_aggressive) pe_new paths
      in if \<not> pe_seen_shims pe then pe\<lparr> pe_post := pe_pre pe, pe_pre := [] \<rparr> else pe)"

definition from_path_str :: "path_ctx \<Rightarrow> bool \<Rightarrow> ustr \<Rightarrow> path_env" where
  "from_path_str c activate_aggressive path = pe_from_iter c activate_aggressive (split_paths path)"

section \<open>Install directories\<close>

text \<open>
  What the install-path test reads: the primary install directory, the install store, the
  shared directories and the file system.
\<close>

record install_ctx =
  ic_installs :: ustr
  ic_install_store :: ustr
  ic_shared_install_dirs :: "ustr list"
  ic_canonicalize :: "ustr \<Rightarrow> ustr option"

definition mise_install_dirs :: "install_ctx \<Rightarrow> ustr list" where
  "mise_install_dirs c =
     [ic_installs c]
     @ (if \<not> path_eq (ic_install_store c) (ic_installs c) then [ic_install_store c] else [])
     @ ic_shared_install_dirs c"

text \<open>\<^verbatim>\<open>str::rsplit_once\<close> on one character.\<close>

definition rsplit_once :: "'a \<Rightarrow> 'a list \<Rightarrow> ('a list \<times> 'a list) option" where
  "rsplit_once d s = map_option (\<lambda>(a, b). (rev b, rev a)) (split_once d (rev s))"

definition is_base32 :: "uchar \<Rightarrow> bool" where
  "is_base32 b \<longleftrightarrow> is_ascii_lowercase b \<or> (50 \<le> b \<and> b \<le> 55)"

definition is_installation_name :: "ustr \<Rightarrow> bool" where
  "is_installation_name name =
     (case rsplit_once MINUS name of
        None \<Rightarrow> False
      | Some (label, hash) \<Rightarrow>
          label \<noteq> [] \<and> 8 \<le> byte_len hash \<and> byte_len hash \<le> 52 \<and> (\<forall>b\<in>set hash. is_base32 b))"

text \<open>The closure \<^verbatim>\<open>within\<close> of \<^verbatim>\<open>is_mise_install_path\<close>.\<close>

definition within_install :: "ustr \<Rightarrow> ustr \<Rightarrow> bool \<Rightarrow> bool" where
  "within_install dir path is_store =
     (case strip_prefix (components dir) (components path) of
        Some rest \<Rightarrow>
          if is_store
          then (case rest of [] \<Rightarrow> False | first # _ \<Rightarrow> is_installation_name (component_str first))
          else True
      | None \<Rightarrow> False)"

definition is_mise_install_path :: "install_ctx \<Rightarrow> ustr \<Rightarrow> ustr list \<Rightarrow> bool" where
  "is_mise_install_path c path install_dirs =
     (let store = ic_install_store c;
          separate_store = (\<not> path_eq store (ic_installs c));
          canonical_store = ic_canonicalize c store
      in if \<exists>d\<in>set install_dirs. within_install d path (separate_store \<and> path_eq d store) then True
         else (case ic_canonicalize c path of
             None \<Rightarrow> False
           | Some path \<Rightarrow>
               \<exists>d\<in>set install_dirs.
                 (case ic_canonicalize c d of
                    None \<Rightarrow> False
                  | Some canonical \<Rightarrow>
                      within_install canonical path
                        (separate_store \<and>
                          (path_eq d store
                           \<or> (case canonical_store of
                                None \<Rightarrow> False | Some s \<Rightarrow> path_eq canonical s))))))"

section \<open>The length warning\<close>

text \<open>\<^verbatim>\<open>encode_utf16().count()\<close>: characters beyond the basic plane take two units.\<close>

definition path_len_utf16 :: "ustr \<Rightarrow> nat" where
  "path_len_utf16 path = sum_list (map (\<lambda>c. if c < 65536 then 1 else 2) path)"

definition WINDOWS_CMD_PATH_LIMIT :: nat where
  "WINDOWS_CMD_PATH_LIMIT = 8191"

definition cmd_would_ignore_path :: "bool \<Rightarrow> nat \<Rightarrow> bool" where
  "cmd_would_ignore_path windows len \<longleftrightarrow> windows \<and> len > WINDOWS_CMD_PATH_LIMIT"

section \<open>Removing duplicates\<close>

lemma to_vec_filter_components:
  "components ` set (to_vec_filter seen ps) = components ` set ps - components ` set seen"
  by (induction seen ps rule: to_vec_filter.induct) (auto simp: path_in_def)

lemma to_vec_filter_distinct: "distinct (map components (to_vec_filter seen ps))"
proof (induction seen ps rule: to_vec_filter.induct)
  case (2 seen p ps)
  have "components p \<notin> components ` set (to_vec_filter (p # seen) ps)"
    by (simp add: to_vec_filter_components)
  with 2 show ?case by simp
qed simp

lemma to_vec_filter_subseq: "subseq (to_vec_filter seen ps) ps"
  by (induction seen ps rule: to_vec_filter.induct) (auto intro: subseq_Cons')

lemma set_to_vec_filter: "set (to_vec_filter seen ps) \<subseteq> set ps"
  by (induction seen ps rule: to_vec_filter.induct) auto

text \<open>A property of paths that PATH lookup can test: it does not separate equal paths.\<close>

definition path_property :: "(ustr \<Rightarrow> bool) \<Rightarrow> bool" where
  "path_property P \<longleftrightarrow> (\<forall>p q. components p = components q \<longrightarrow> P p = P q)"

lemma path_propertyD: "path_property P \<Longrightarrow> components p = components q \<Longrightarrow> P p = P q"
  unfolding path_property_def by blast

lemma find_to_vec_filter:
  assumes "path_property P" and "\<forall>q\<in>set seen. \<not> P q"
  shows "find P (to_vec_filter seen ps) = find P ps"
  using assms(2)
proof (induction seen ps rule: to_vec_filter.induct)
  case (2 seen p ps)
  show ?case
  proof (cases "path_in p seen")
    case True
    then obtain q where "q \<in> set seen" "components p = components q"
      by (auto simp: path_in_def)
    with "2.prems" path_propertyD [OF assms(1)] have "\<not> P p" by blast
    with 2 True show ?thesis by simp
  next
    case False
    with 2 show ?thesis by simp
  qed
qed simp

section \<open>Where the added entries go\<close>

text \<open>The entry at which \<^verbatim>\<open>from_iter\<close> splits the inherited PATH.\<close>

abbreviation shims_boundary :: "path_ctx \<Rightarrow> bool \<Rightarrow> ustr \<Rightarrow> bool" where
  "shims_boundary c aggressive p \<equiv> is_mise_shims_dir c p \<and> \<not> aggressive"

lemma from_iter_seen:
  "pe_seen_shims pe \<Longrightarrow>
     foldl (from_iter_step c ag) pe ps = pe\<lparr> pe_post := pe_post pe @ ps \<rparr>"
  by (induction ps arbitrary: pe) (simp_all add: from_iter_step_def)

lemma from_iter_loop:
  assumes "\<not> pe_seen_shims pe"
  shows "foldl (from_iter_step c ag) pe ps =
    (if \<exists>p\<in>set ps. shims_boundary c ag p
     then pe\<lparr> pe_pre := pe_pre pe @ takeWhile (\<lambda>p. \<not> shims_boundary c ag p) ps,
              pe_seen_shims := True,
              pe_post := pe_post pe @ dropWhile (\<lambda>p. \<not> shims_boundary c ag p) ps \<rparr>
     else pe\<lparr> pe_pre := pe_pre pe @ ps \<rparr>)"
  using assms
proof (induction ps arbitrary: pe)
  case Nil
  then show ?case by simp
next
  case (Cons p ps)
  show ?case
  proof (cases "shims_boundary c ag p")
    case True
    with Cons.prems have "from_iter_step c ag pe p =
        pe\<lparr> pe_seen_shims := True, pe_post := pe_post pe @ [p] \<rparr>"
      by (simp add: from_iter_step_def)
    with True show ?thesis by (simp add: from_iter_seen)
  next
    case False
    with Cons.prems have "from_iter_step c ag pe p = pe\<lparr> pe_pre := pe_pre pe @ [p] \<rparr>"
      by (auto simp: from_iter_step_def)
    with Cons False show ?thesis by auto
  qed
qed

lemma pe_from_iter_eq:
  "pe_from_iter c ag ps =
     (if \<exists>p\<in>set ps. shims_boundary c ag p
      then \<lparr> pe_pre = takeWhile (\<lambda>p. \<not> shims_boundary c ag p) ps, pe_mise = [], pe_marked = [],
             pe_post = dropWhile (\<lambda>p. \<not> shims_boundary c ag p) ps, pe_seen_shims = True \<rparr>
      else \<lparr> pe_pre = [], pe_mise = [], pe_marked = [], pe_post = ps, pe_seen_shims = False \<rparr>)"
  unfolding pe_from_iter_def by (subst from_iter_loop) (auto simp: pe_new_def Let_def)

lemma foldl_pe_add: "foldl pe_add pe adds = pe\<lparr> pe_mise := pe_mise pe @ concat (map split_paths adds) \<rparr>"
  by (induction adds arbitrary: pe) (simp_all add: pe_add_def)

text \<open>
  Building a PATH from the inherited one and adding directories yields, up to later
  duplicates, the inherited entries before the first shim directory, then the added ones in
  the order of the calls, then the shim directory and everything after it; without a shim
  directory, or when activation is aggressive, the added ones come first.  The managed
  entries are exactly the added ones that are present, in the order of the result.
\<close>

lemma path_env_sections:
  "to_vec (foldl pe_add (pe_from_iter c aggressive inherited) adds) =
     to_vec_filter []
       (let added = concat (map split_paths adds) in
        if \<not> aggressive \<and> (\<exists>p\<in>set inherited. is_mise_shims_dir c p)
        then takeWhile (\<lambda>p. \<not> is_mise_shims_dir c p) inherited @ added
             @ dropWhile (\<lambda>p. \<not> is_mise_shims_dir c p) inherited
        else added @ inherited)
   \<and> managed_entries (foldl pe_add (pe_from_iter c aggressive inherited) adds) =
       filter (\<lambda>p. path_in p (concat (map split_paths adds)))
         (to_vec (foldl pe_add (pe_from_iter c aggressive inherited) adds))"
  by (cases aggressive)
    (auto simp: foldl_pe_add pe_from_iter_eq to_vec_def managed_entries_def Let_def)

text \<open>
  \<^bold>\<open>C15.\<close> Removing duplicates from the computed PATH changes no lookup: for every test on
  directories that does not distinguish equal paths, the first entry of \<^verbatim>\<open>to_vec\<close> that passes
  is the first one of the concatenation of the three sections; and the result has no two
  equal entries, keeps the order, and loses no directory.  A PATH that is built from the
  inherited one by adding directories has, up to later duplicates, the inherited entries before
  the first shim directory, then the added ones in the order of the calls, then the shim
  directory and everything after it; without a shim directory, or when activation is
  aggressive, the added ones come first.  The managed entries are exactly the added ones that
  are present, in the order of the result.
\<close>

theorem to_vec_lookup:
  "(\<forall>P. path_property P \<longrightarrow>
      find P (to_vec pe) = find P (pe_pre pe @ pe_mise pe @ pe_post pe))
   \<and> distinct (map components (to_vec pe))
   \<and> subseq (to_vec pe) (pe_pre pe @ pe_mise pe @ pe_post pe)
   \<and> (\<forall>p. path_in p (to_vec pe) \<longleftrightarrow> path_in p (pe_pre pe @ pe_mise pe @ pe_post pe))
   \<and> to_vec (foldl pe_add (pe_from_iter c aggressive inherited) adds) =
       to_vec_filter []
         (let added = concat (map split_paths adds) in
          if \<not> aggressive \<and> (\<exists>p\<in>set inherited. is_mise_shims_dir c p)
          then takeWhile (\<lambda>p. \<not> is_mise_shims_dir c p) inherited @ added
               @ dropWhile (\<lambda>p. \<not> is_mise_shims_dir c p) inherited
          else added @ inherited)
   \<and> managed_entries (foldl pe_add (pe_from_iter c aggressive inherited) adds) =
         filter (\<lambda>p. path_in p (concat (map split_paths adds)))
           (to_vec (foldl pe_add (pe_from_iter c aggressive inherited) adds))"
proof (intro conjI allI impI)
  fix P assume "path_property P"
  then show "find P (to_vec pe) = find P (pe_pre pe @ pe_mise pe @ pe_post pe)"
    unfolding to_vec_def by (rule find_to_vec_filter) simp
next
  show "distinct (map components (to_vec pe))"
    by (simp add: to_vec_def to_vec_filter_distinct)
  show "subseq (to_vec pe) (pe_pre pe @ pe_mise pe @ pe_post pe)"
    unfolding to_vec_def by (rule to_vec_filter_subseq)
  show "path_in p (to_vec pe) \<longleftrightarrow> path_in p (pe_pre pe @ pe_mise pe @ pe_post pe)" for p
    unfolding to_vec_def path_in_def by (simp add: to_vec_filter_components)
qed (use path_env_sections [of c aggressive inherited adds] in \<open>simp_all only: simp_thms\<close>)

definition demo_path_env :: path_env where
  "demo_path_env = \<lparr> pe_pre = [lit ''/a''], pe_mise = [lit ''/b'', lit ''/a/''],
     pe_marked = [], pe_post = [lit ''/b/.''], pe_seen_shims = True \<rparr>"

theorem to_vec_lookup_witness:
  "path_property (path_eq (lit ''/b//''))
   \<and> find (path_eq (lit ''/b//'')) (to_vec demo_path_env) = Some (lit ''/b'')
   \<and> length (to_vec demo_path_env) = 2"
proof -
  have P: "path_property (path_eq (lit ''/b//''))"
    by (simp add: path_property_def path_eq_def)
  then have "find (path_eq (lit ''/b//'')) (to_vec demo_path_env) =
      find (path_eq (lit ''/b//''))
        (pe_pre demo_path_env @ pe_mise demo_path_env @ pe_post demo_path_env)"
    using to_vec_lookup [of demo_path_env] by blast
  with P show ?thesis by (simp add: demo_path_env_def to_vec_def path_simps)
qed

section \<open>Joining\<close>

text \<open>The PATHs that are built from a PATH string and directories added to it.\<close>

inductive pe_built :: "path_ctx \<Rightarrow> bool \<Rightarrow> path_env \<Rightarrow> bool" for c ag where
  built_str: "pe_built c ag (from_path_str c ag path)"
| built_new: "pe_built c ag pe_new"
| built_add: "pe_built c ag pe \<Longrightarrow> pe_built c ag (pe_add pe path)"
| built_mark: "pe_built c ag pe \<Longrightarrow> pe_built c ag (mark_managed pe path)"

lemma pe_built_no_colon:
  "pe_built c ag pe \<Longrightarrow> \<forall>p\<in>set (pe_pre pe @ pe_mise pe @ pe_post pe). COLON \<notin> set p"
proof (induction rule: pe_built.induct)
  case (built_str path)
  have "set (pe_pre (from_path_str c ag path) @ pe_mise (from_path_str c ag path)
      @ pe_post (from_path_str c ag path)) \<subseteq> set (split_paths path)"
    by (auto simp: from_path_str_def pe_from_iter_eq dest: set_takeWhileD set_dropWhileD)
  then show ?case using split_paths_no_colon by blast
next
  case built_new
  then show ?case by (simp add: pe_new_def)
next
  case (built_add pe path)
  have "set (pe_pre (pe_add pe path) @ pe_mise (pe_add pe path) @ pe_post (pe_add pe path)) =
      set (pe_pre pe @ pe_mise pe @ pe_post pe) \<union> set (split_paths path)"
    by (auto simp: pe_add_def)
  with built_add.IH show ?case by (metis Un_iff split_paths_no_colon)
next
  case (built_mark pe path)
  then show ?case by (simp add: mark_managed_def)
qed

text \<open>
  \<^bold>\<open>C16.\<close> The \<^verbatim>\<open>unwrap\<close> in \<^verbatim>\<open>PathEnv::join\<close> never panics on a PATH built from a PATH string by
  adding and marking directories, and splitting the joined string gives the entries back,
  except that a PATH without entries reads back as one empty entry.
\<close>

theorem pe_join_total:
  assumes "pe_built c aggressive pe"
  shows "\<exists>s. pe_join pe = Some s
      \<and> split_paths s = (if to_vec pe = [] then [[]] else to_vec pe)"
proof -
  have "set (to_vec pe) \<subseteq> set (pe_pre pe @ pe_mise pe @ pe_post pe)"
    unfolding to_vec_def by (rule set_to_vec_filter)
  then have "\<forall>p\<in>set (to_vec pe). COLON \<notin> set p"
    using pe_built_no_colon [OF assms] by blast
  then have j: "pe_join pe = Some (join_with COLON (to_vec pe))"
    by (simp add: pe_join_def join_paths_Some)
  show ?thesis
  proof (cases "to_vec pe = []")
    case True
    with j show ?thesis by (simp add: split_paths_def)
  next
    case False
    with j split_join_paths show ?thesis by (fastforce simp: pe_join_def)
  qed
qed

definition demo_path_ctx :: path_ctx where
  "demo_path_ctx = \<lparr> pc_home = lit ''/h'', pc_shims = lit ''/h/shims'',
     pc_system_shims = lit ''/s/shims'', pc_canonicalize = (\<lambda>p. Some p) \<rparr>"

definition demo_built :: path_env where
  "demo_built = pe_add (from_path_str demo_path_ctx False (lit ''/a:~/shims:/b'')) (lit ''/t:/b'')"

theorem pe_join_total_witness:
  "pe_built demo_path_ctx False demo_built
   \<and> pe_join demo_built = Some (lit ''/a:/t:/b:~/shims'')
   \<and> (\<exists>s. pe_join demo_built = Some s \<and> length (split_paths s) = 4)"
proof -
  have b: "pe_built demo_path_ctx False demo_built"
    unfolding demo_built_def by (intro pe_built.intros)
  have v: "to_vec demo_built = [lit ''/a'', lit ''/t'', lit ''/b'', lit ''~/shims'']"
    by (simp add: demo_built_def from_path_str_def pe_from_iter_eq pe_add_def to_vec_def
        demo_path_ctx_def path_simps Let_def)
  have "\<exists>s. pe_join demo_built = Some s \<and> length (split_paths s) = 4"
    using pe_join_total [OF b] v by auto
  moreover have "pe_join demo_built = Some (lit ''/a:/t:/b:~/shims'')"
    by (simp add: pe_join_def v) (simp add: path_simps)
  ultimately show ?thesis using b by blast
qed

end
