(* ===== verification/Env_Diff.thy ===== *)
theory Env_Diff
  imports Path_Buf "HOL-Library.List_Lexorder"
begin

text \<open>
  The record of what mise changed in an environment: \<^verbatim>\<open>EnvDiff\<close> of
  \<^verbatim>\<open>crates/mise-util/src/env_diff.rs\<close>, with the reader of bash's \<^verbatim>\<open>export -p\<close> output that
  computes the effect of a sourced script.  The digest of an environment value and the
  encoding of the serialised blob come from other crates and are parameters.
\<close>

section \<open>Ordered maps\<close>

text \<open>
  \<^verbatim>\<open>BTreeMap<String, _>\<close> as an association list sorted by key; strings compare by scalar
  values, which is the order of their UTF-8 encodings.
\<close>

type_synonym 'v bmap = "(ustr \<times> 'v) list"

fun bt_insert :: "ustr \<Rightarrow> 'v \<Rightarrow> 'v bmap \<Rightarrow> 'v bmap" where
  "bt_insert k v [] = [(k, v)]"
| "bt_insert k v ((k', v') # m) =
     (if k < k' then (k, v) # (k', v') # m
      else if k = k' then (k, v) # m
      else (k', v') # bt_insert k v m)"

definition bt_remove :: "ustr \<Rightarrow> 'v bmap \<Rightarrow> 'v bmap" where
  "bt_remove k m = filter (\<lambda>(k', _). k' \<noteq> k) m"

definition bt_wf :: "'v bmap \<Rightarrow> bool" where
  "bt_wf m = sorted_wrt (<) (map fst m)"

lemma map_of_bt_insert [simp]: "map_of (bt_insert k v m) = (map_of m)(k \<mapsto> v)"
  by (induction m) (auto simp: fun_eq_iff)

lemma map_of_filter_key: "map_of (filter (\<lambda>(k, _). P k) m) k = (if P k then map_of m k else None)"
  by (induction m) auto

lemma map_of_bt_remove [simp]: "map_of (bt_remove k m) = (map_of m)(k := None)"
  by (auto simp: bt_remove_def map_of_filter_key)

lemma keys_bt_insert [simp]: "fst ` set (bt_insert k v m) = insert k (fst ` set m)"
  by (induction k v m rule: bt_insert.induct) (simp_all add: insert_commute)

lemma bt_wf_Nil [simp]: "bt_wf []"
  by (simp add: bt_wf_def)

lemma bt_wf_Cons: "bt_wf ((k, v) # m) \<longleftrightarrow> (\<forall>x\<in>fst ` set m. k < x) \<and> bt_wf m"
  by (auto simp: bt_wf_def)

lemma bt_wf_insert [simp, intro]: "bt_wf m \<Longrightarrow> bt_wf (bt_insert k v m)"
proof (induction m)
  case Nil
  then show ?case by (simp add: bt_wf_def)
next
  case (Cons p m)
  obtain k' v' where p: "p = (k', v')" by fastforce
  show ?case using Cons unfolding p
    by (auto simp: bt_wf_Cons)
qed

lemma bt_wf_filter [simp, intro]: "bt_wf m \<Longrightarrow> bt_wf (filter P m)"
  by (induction m) (auto simp: bt_wf_def)

lemma bt_wf_remove [simp, intro]: "bt_wf m \<Longrightarrow> bt_wf (bt_remove k m)"
  by (simp add: bt_remove_def)

lemma bt_wf_distinct: "bt_wf m \<Longrightarrow> distinct (map fst m)"
  by (simp add: bt_wf_def strict_sorted_iff)

text \<open>Two ordered maps with the same entries are the same map.\<close>

lemma bt_ext:
  assumes "bt_wf m" and "bt_wf m'" and "map_of m = map_of m'"
  shows "m = m'"
proof (rule map_sorted_distinct_set_unique)
  have "set m = set m'"
    using assms by (simp add: bt_wf_distinct map_of_inject_set)
  then show "set m = set m'" .
  have "inj_on fst (set m')"
    using bt_wf_distinct [OF assms(2)] by (simp add: distinct_map)
  then show "inj_on fst (set m \<union> set m')"
    using \<open>set m = set m'\<close> by simp
qed (use assms in \<open>simp_all add: bt_wf_def strict_sorted_iff\<close>)

section \<open>The diff\<close>

type_synonym str_env = "ustr bmap"

definition ENV_STATE_VERSION :: nat where "ENV_STATE_VERSION = 2"

definition legacy_env_state_version :: nat where "legacy_env_state_version = 1"

record env_diff =
  ed_v :: nat
  ed_old :: "(ustr, ustr) imap"
  ed_new :: "(ustr, ustr) imap"
  ed_path :: "ustr list"

definition ed_default :: env_diff where
  "ed_default = \<lparr> ed_v = 0, ed_old = [], ed_new = [], ed_path = [] \<rparr>"

text \<open>The hexadecimal blake3 digest is the parameter \<open>digest\<close>.\<close>

definition hash_env_value :: "(ustr \<Rightarrow> ustr) \<Rightarrow> ustr \<Rightarrow> ustr" where
  "hash_env_value digest v = lit ''blake3:'' @ digest v"

definition env_value_matches :: "(ustr \<Rightarrow> ustr) \<Rightarrow> nat \<Rightarrow> ustr \<Rightarrow> ustr \<Rightarrow> bool" where
  "env_value_matches digest version stored actual =
     (if version \<ge> 2 then stored = hash_env_value digest actual else stored = actual)"

datatype env_diff_operation =
    Add ustr ustr
  | Change ustr ustr
  | Remove ustr

type_synonym env_diff_patches = "env_diff_operation list"

definition ed_new_step :: "str_env \<Rightarrow> env_diff \<Rightarrow> ustr \<times> ustr \<Rightarrow> env_diff" where
  "ed_new_step original diff addition =
     (let (key, new_val) = addition in
      case map_of original key of
        Some original_val \<Rightarrow>
          if original_val \<noteq> new_val
          then diff\<lparr> ed_old := imap_insert key original_val (ed_old diff),
                     ed_new := imap_insert key new_val (ed_new diff) \<rparr>
          else diff
      | None \<Rightarrow> diff\<lparr> ed_new := imap_insert key new_val (ed_new diff) \<rparr>)"

definition env_diff_new :: "str_env \<Rightarrow> (ustr \<times> ustr) list \<Rightarrow> env_diff" where
  "env_diff_new original additions = foldl (ed_new_step original) ed_default additions"

text \<open>The value that \<^verbatim>\<open>serialize_excluding\<close> writes, and the two entry points around it.\<close>

definition ed_wire :: "(ustr \<Rightarrow> ustr) \<Rightarrow> ustr set \<Rightarrow> env_diff \<Rightarrow> env_diff" where
  "ed_wire digest exclude diff =
     \<lparr> ed_v = ENV_STATE_VERSION,
       ed_old = filter (\<lambda>(k, _). k \<notin> exclude) (ed_old diff),
       ed_new = map (\<lambda>(k, v). (k, hash_env_value digest v)) (ed_new diff),
       ed_path = ed_path diff \<rparr>"

definition serialize_excluding ::
    "(ustr \<Rightarrow> ustr) \<Rightarrow> (env_diff \<Rightarrow> 'e + ustr) \<Rightarrow> ustr set \<Rightarrow> env_diff \<Rightarrow> 'e + ustr" where
  "serialize_excluding digest encode exclude diff = encode (ed_wire digest exclude diff)"

definition ed_serialize ::
    "(ustr \<Rightarrow> ustr) \<Rightarrow> (env_diff \<Rightarrow> 'e + ustr) \<Rightarrow> ustr set \<Rightarrow> env_diff \<Rightarrow> 'e + ustr" where
  "ed_serialize digest encode inherited_secret_keys diff =
     serialize_excluding digest encode inherited_secret_keys diff"

definition to_patches :: "env_diff \<Rightarrow> env_diff_patches" where
  "to_patches diff =
     map (\<lambda>(k, _). case map_of (ed_new diff) k of Some v \<Rightarrow> Change k v | None \<Rightarrow> Remove k) (ed_old diff)
     @ List.map_filter
         (\<lambda>(k, v). if map_of (ed_old diff) k = None then Some (Add k v) else None) (ed_new diff)"

definition ed_reverse :: "env_diff \<Rightarrow> env_diff" where
  "ed_reverse diff =
     \<lparr> ed_v = legacy_env_state_version, ed_old = ed_new diff, ed_new = ed_old diff,
       ed_path = ed_path diff \<rparr>"

definition PATH_KEY :: ustr where "PATH_KEY = lit ''PATH''"

definition from_final_env :: "str_env \<Rightarrow> str_env \<Rightarrow> env_diff" where
  "from_final_env pristine final_env =
     (let additions = filter (\<lambda>(k, _). k \<noteq> PATH_KEY \<and> k \<noteq> lit ''__MISE_DIFF'') final_env;
          diff = env_diff_new pristine additions;
          pristine_paths = (case map_of pristine PATH_KEY of Some p \<Rightarrow> split_paths p | None \<Rightarrow> [])
      in case map_of final_env PATH_KEY of
           Some final_path \<Rightarrow>
             diff\<lparr> ed_path := filter (\<lambda>p. \<not> path_in p pristine_paths) (split_paths final_path) \<rparr>
         | None \<Rightarrow> diff)"

section \<open>Sourcing a script\<close>

text \<open>\<^verbatim>\<open>str::lines\<close>: a line ends at a newline or a carriage return with a newline.\<close>

definition strip_cr :: "ustr \<Rightarrow> ustr" where
  "strip_cr l = (if l \<noteq> [] \<and> last l = CR then butlast l else l)"

definition lines_of :: "ustr \<Rightarrow> ustr list" where
  "lines_of s =
     (let ps = split_on NL s
      in map strip_cr (butlast ps) @ (if last ps = [] then [] else [last ps]))"

definition DEFAULT_IGNORE_KEYS :: "ustr list" where
  "DEFAULT_IGNORE_KEYS = map lit [''_'', ''SHLVL'', ''PWD'', ''OLDPWD'', ''HOME'', ''USER'',
     ''SHELL'', ''SHELLOPTS'', ''COMP_WORDBREAKS'', ''PS1'', ''PROMPT_DIRTRIM'']"

record env_diff_options =
  ignore_keys :: "ustr list"

definition edo_default :: env_diff_options where
  "edo_default = \<lparr> ignore_keys = DEFAULT_IGNORE_KEYS @ [PATH_KEY] \<rparr>"

definition invalid_key :: "ustr \<Rightarrow> env_diff_options \<Rightarrow> bool" where
  "invalid_key k opts \<longleftrightarrow>
     k = [] \<or> k \<in> set (ignore_keys opts) \<or> starts_with (lit ''BASH_FUNC_'') k \<or> starts_with [SP] k"

definition declare_x :: ustr where "declare_x = lit ''declare -x ''"

text \<open>
  One line of the output.  The state is the map read so far and the variable that following
  lines continue; the \<^verbatim>\<open>unwrap\<close> on the continued variable is the \<^const>\<open>None\<close> result.
\<close>

definition parse_export_line ::
    "env_diff_options \<Rightarrow> str_env \<times> ustr option \<Rightarrow> ustr \<Rightarrow> (str_env \<times> ustr option) option" where
  "parse_export_line opts st line =
     (let (additions, cur_key) = st in
      case strip_prefix declare_x line of
        Some line \<Rightarrow>
          (case split_once EQUALS line of
             None \<Rightarrow> Some (additions, None)
           | Some (k, v) \<Rightarrow>
               if invalid_key k opts then Some (additions, None)
               else Some (bt_insert k v additions, Some k))
      | None \<Rightarrow>
          (case cur_key of
             None \<Rightarrow> Some (additions, None)
           | Some k \<Rightarrow>
               (case map_of additions k of
                  None \<Rightarrow> None
                | Some v \<Rightarrow> Some (bt_insert k (v @ NL # line) additions, cur_key))))"

fun parse_export_loop ::
    "env_diff_options \<Rightarrow> str_env \<times> ustr option \<Rightarrow> ustr list \<Rightarrow> str_env option" where
  "parse_export_loop opts st [] = Some (fst st)"
| "parse_export_loop opts st (line # ls) =
     (case parse_export_line opts st line of
        None \<Rightarrow> None
      | Some st' \<Rightarrow> parse_export_loop opts st' ls)"

definition parse_export_p :: "ustr \<Rightarrow> env_diff_options \<Rightarrow> str_env option" where
  "parse_export_p out opts = parse_export_loop opts ([], None) (lines_of out)"

text \<open>
  The escapes of bash's quoted output.  Slicing \<^verbatim>\<open>input[1..len-1]\<close> panics when the closing
  quote is the opening one; \<^const>\<open>None\<close> is that panic.
\<close>

definition unescape_char :: "uchar \<Rightarrow> ustr" where
  "unescape_char val =
     (if val = 97 then [7]
      else if val = 98 then [8]
      else if val = 101 \<or> val = 69 then [27]
      else if val = 102 then [12]
      else if val = 110 then [NL]
      else if val = 114 then [CR]
      else if val = 116 then [TAB]
      else if val = 118 then [11]
      else if val \<in> {BSL, SQ, DQ, QUESTION, 96, DOLLAR} then [val]
      else [BSL, val])"

fun unescape_loop :: "ustr \<Rightarrow> ustr" where
  "unescape_loop [] = []"
| "unescape_loop (c # cs) =
     (if c = BSL then (case cs of [] \<Rightarrow> [] | val # cs' \<Rightarrow> unescape_char val @ unescape_loop cs')
      else c # unescape_loop cs)"

definition slice_quotes :: "nat \<Rightarrow> ustr \<Rightarrow> ustr option" where
  "slice_quotes n s = (if length s - 1 < n then None else Some (drop n (butlast s)))"

definition normalize_escape_sequences :: "ustr \<Rightarrow> ustr option" where
  "normalize_escape_sequences input =
     map_option unescape_loop
       (if starts_with [DQ] input \<and> last input = DQ then slice_quotes 1 input
        else if starts_with [DOLLAR, SQ] input \<and> last input = SQ then slice_quotes 2 input
        else Some input)"

text \<open>
  The normalisation loop of \<^verbatim>\<open>from_bash_script\<close>, which iterates over a copy of the additions,
  and the function.  Running bash is the parameter \<open>run\<close>: the captured output or the error.
\<close>

fun fbs_normalize :: "str_env \<Rightarrow> (ustr \<times> ustr) list \<Rightarrow> str_env \<Rightarrow> str_env option" where
  "fbs_normalize env [] additions = Some additions"
| "fbs_normalize env ((k, v) # kvs) additions =
     (case normalize_escape_sequences v of
        None \<Rightarrow> None
      | Some v' \<Rightarrow>
          if map_of env k = Some v' then fbs_normalize env kvs (bt_remove k additions)
          else fbs_normalize env kvs (bt_insert k v' additions))"

definition from_bash_script ::
    "(ustr \<Rightarrow> ustr \<Rightarrow> str_env \<Rightarrow> 'e + ustr) \<Rightarrow> ustr \<Rightarrow> ustr \<Rightarrow> str_env \<Rightarrow> env_diff_options
     \<Rightarrow> ('e, env_diff) outcome" where
  "from_bash_script run script dir env opts =
     (case run script dir env of
        Inl e \<Rightarrow> Failed e
      | Inr out \<Rightarrow>
          (case parse_export_p out opts of
             None \<Rightarrow> Panicked
           | Some additions \<Rightarrow>
               (case fbs_normalize env additions additions of
                  None \<Rightarrow> Panicked
                | Some additions' \<Rightarrow> Done (env_diff_new env additions'))))"

end
