(* ===== verification/Env_Diff_Correct.thy ===== *)
theory Env_Diff_Correct
  imports Env_Diff
begin

text \<open>
  Correctness of \<^verbatim>\<open>EnvDiff\<close>: the patches of a diff turn the original environment into the
  wanted one, the reverse patches of its serialised form turn it back, and reading bash's
  \<^verbatim>\<open>export -p\<close> output inverts bash's quoting.
\<close>

section \<open>Loops that update one key per step\<close>

text \<open>
  Several loops of the environment code walk over a map and change, for each key, only that
  key of the state they build.  On pairwise different keys the result can be read off key
  by key.
\<close>

locale keyed_update =
  fixes step :: "'s \<Rightarrow> 'k \<times> 'v \<Rightarrow> 's"
    and view :: "'s \<Rightarrow> 'k \<Rightarrow> 'b option"
    and upd :: "'k \<Rightarrow> 'v \<Rightarrow> 'b option \<Rightarrow> 'b option"
  assumes step_view: "view (step s (k, v)) = (view s)(k := upd k v (view s k))"
begin

lemma fold_other: "k \<notin> fst ` set kvs \<Longrightarrow> view (foldl step s kvs) k = view s k"
proof (induction kvs arbitrary: s)
  case Nil
  then show ?case by simp
next
  case (Cons p kvs)
  then show ?case by (cases p) (simp add: step_view)
qed

lemma fold_view:
  assumes "distinct (map fst kvs)"
  shows "view (foldl step s kvs) k =
    (case map_of kvs k of None \<Rightarrow> view s k | Some v \<Rightarrow> upd k v (view s k))"
  using assms
proof (induction kvs arbitrary: s)
  case Nil
  then show ?case by simp
next
  case (Cons p kvs)
  obtain k' v' where p: "p = (k', v')" by fastforce
  show ?case
  proof (cases "k = k'")
    case True
    with Cons.prems p have "k \<notin> fst ` set kvs" by auto
    with True p show ?thesis by (simp add: fold_other step_view)
  next
    case False
    with p have s: "view (step s p) k = view s k" by (simp add: step_view)
    from Cons.IH [of "step s p"] Cons.prems have "view (foldl step s (p # kvs)) k =
        (case map_of kvs k of None \<Rightarrow> view (step s p) k | Some v \<Rightarrow> upd k v (view (step s p) k))"
      by simp
    with False p s show ?thesis by (simp split: option.splits)
  qed
qed

end

section \<open>What a diff records\<close>

definition new_upd :: "str_env \<Rightarrow> ustr \<Rightarrow> ustr \<Rightarrow> ustr option \<Rightarrow> ustr option" where
  "new_upd original k v cur = (if map_of original k = Some v then cur else Some v)"

definition old_upd :: "str_env \<Rightarrow> ustr \<Rightarrow> ustr \<Rightarrow> ustr option \<Rightarrow> ustr option" where
  "old_upd original k v cur =
     (if map_of original k = None \<or> map_of original k = Some v then cur else map_of original k)"

interpretation ed_new_view:
  keyed_update "ed_new_step original" "\<lambda>d. map_of (ed_new d)" "new_upd original"
  for original
  by unfold_locales (auto simp: ed_new_step_def new_upd_def split: option.splits)

interpretation ed_old_view:
  keyed_update "ed_new_step original" "\<lambda>d. map_of (ed_old d)" "old_upd original"
  for original
  by unfold_locales (auto simp: ed_new_step_def old_upd_def split: option.splits)

lemma env_diff_new_new:
  assumes "distinct (map fst additions)"
  shows "map_of (ed_new (env_diff_new original additions)) k =
    (case map_of additions k of
       None \<Rightarrow> None
     | Some v \<Rightarrow> if map_of original k = Some v then None else Some v)"
  using ed_new_view.fold_view [OF assms, of original ed_default k]
  by (simp add: env_diff_new_def ed_default_def new_upd_def split: option.splits)

lemma env_diff_new_old:
  assumes "distinct (map fst additions)"
  shows "map_of (ed_old (env_diff_new original additions)) k =
    (case map_of additions k of
       None \<Rightarrow> None
     | Some v \<Rightarrow> if map_of original k = Some v then None else map_of original k)"
  using ed_old_view.fold_view [OF assms, of original ed_default k]
  by (auto simp: env_diff_new_def ed_default_def old_upd_def split: option.splits)

text \<open>The two maps of a diff are \<^verbatim>\<open>IndexMap\<close>s: their keys are pairwise different.\<close>

definition ed_wf :: "env_diff \<Rightarrow> bool" where
  "ed_wf d \<longleftrightarrow> distinct (map fst (ed_old d)) \<and> distinct (map fst (ed_new d))"

lemma ed_wf_step: "ed_wf d \<Longrightarrow> ed_wf (ed_new_step original d kv)"
  by (auto simp: ed_wf_def ed_new_step_def distinct_imap_insert split: option.splits prod.splits)

lemma ed_wf_new [simp, intro]: "ed_wf (env_diff_new original additions)"
proof -
  have "ed_wf d \<Longrightarrow> ed_wf (foldl (ed_new_step original) d additions)" for d
    by (induction additions arbitrary: d) (simp_all add: ed_wf_step)
  then show ?thesis by (simp add: env_diff_new_def ed_default_def ed_wf_def)
qed

lemma ed_wf_reverse [simp]: "ed_wf (ed_reverse d) = ed_wf d"
  by (auto simp: ed_wf_def ed_reverse_def)

lemma distinct_map_fst_filter: "distinct (map fst kvs) \<Longrightarrow> distinct (map fst (filter P kvs))"
  by (induction kvs) auto

lemma ed_wf_wire: "ed_wf d \<Longrightarrow> ed_wf (ed_wire digest exclude d)"
  by (simp add: ed_wf_def ed_wire_def distinct_map_fst_filter comp_def case_prod_beta)

lemma ed_wire_old:
  "map_of (ed_old (ed_wire digest exclude d)) k = (if k \<in> exclude then None else map_of (ed_old d) k)"
  by (simp add: ed_wire_def map_of_filter_key)

lemma ed_wire_new:
  "map_of (ed_new (ed_wire digest exclude d)) k =
     map_option (hash_env_value digest) (map_of (ed_new d) k)"
  by (simp add: ed_wire_def map_of_map)

section \<open>Applying patches\<close>

text \<open>
  The specification of a patch: what the shell commands that are printed for it do to the
  environment.
\<close>

fun patch_key :: "env_diff_operation \<Rightarrow> ustr" where
  "patch_key (Add k v) = k"
| "patch_key (Change k v) = k"
| "patch_key (Remove k) = k"

fun patch_val :: "env_diff_operation \<Rightarrow> ustr option" where
  "patch_val (Add k v) = Some v"
| "patch_val (Change k v) = Some v"
| "patch_val (Remove k) = None"

definition apply_patches :: "env_diff_patches \<Rightarrow> (ustr \<rightharpoonup> ustr) \<Rightarrow> (ustr \<rightharpoonup> ustr)" where
  "apply_patches ps m = foldl (\<lambda>m p. m(patch_key p := patch_val p)) m ps"

lemma apply_patches_Nil [simp]: "apply_patches [] m = m"
  by (simp add: apply_patches_def)

lemma apply_patches_Cons [simp]:
  "apply_patches (p # ps) m = apply_patches ps (m(patch_key p := patch_val p))"
  by (simp add: apply_patches_def)

lemma apply_patches_append: "apply_patches (ps @ qs) m = apply_patches qs (apply_patches ps m)"
  by (simp add: apply_patches_def)

lemma apply_old_patches:
  "apply_patches
     (map (\<lambda>(k, _). case n k of Some v \<Rightarrow> Change k v | None \<Rightarrow> Remove k) kvs) m k =
     (if map_of kvs k = None then m k else n k)"
  by (induction kvs arbitrary: m) (auto split: option.splits)

lemma apply_new_patches:
  assumes "distinct (map fst kvs)"
  shows "apply_patches
     (List.map_filter (\<lambda>(k, v). if ol k = None then Some (Add k v) else None) kvs) m k =
     (if ol k = None \<and> map_of kvs k \<noteq> None then map_of kvs k else m k)"
  using assms
proof (induction kvs arbitrary: m)
  case Nil
  then show ?case by (simp add: List.map_filter_simps)
next
  case (Cons p kvs)
  obtain k' v' where p: "p = (k', v')" by fastforce
  have "k' = k \<Longrightarrow> map_of kvs k = None"
    using Cons.prems p by (auto simp: map_of_eq_None_iff)
  with Cons p show ?case by (auto simp: List.map_filter_simps)
qed

text \<open>The effect of the patches of a diff, key by key.\<close>

lemma apply_to_patches:
  assumes "ed_wf d"
  shows "apply_patches (to_patches d) m k =
    (if map_of (ed_new d) k = None \<and> map_of (ed_old d) k = None then m k else map_of (ed_new d) k)"
proof -
  have "distinct (map fst (ed_new d))" using assms by (simp add: ed_wf_def)
  then show ?thesis
    by (cases "map_of (ed_new d) k"; cases "map_of (ed_old d) k")
      (simp_all add: to_patches_def apply_patches_append apply_new_patches apply_old_patches)
qed

text \<open>
  \<^bold>\<open>C17.\<close> Entering and leaving a directory restores the environment: the patches of the diff
  of some additions turn the original environment into the original overridden by the
  additions, and the patches of the reverse of the serialised diff (whose new values are
  digests) turn that back into the original, except that a changed variable on the exclusion
  list (an inherited secret) is unset instead of restored.
\<close>

theorem diff_patches_roundtrip:
  assumes "distinct (map fst additions)"
  shows "apply_patches (to_patches (env_diff_new original additions)) (map_of original) =
      map_of original ++ map_of additions
    \<and> apply_patches (to_patches (ed_reverse (ed_wire digest exclude (env_diff_new original additions))))
        (map_of original ++ map_of additions) =
      (\<lambda>k. if k \<in> exclude \<and> map_of (ed_old (env_diff_new original additions)) k \<noteq> None then None
           else map_of original k)"
    (is "?to \<and> ?from")
proof
  let ?d = "env_diff_new original additions"
  show ?to
  proof
    fix k
    show "apply_patches (to_patches ?d) (map_of original) k = (map_of original ++ map_of additions) k"
      using assms
      by (cases "map_of additions k")
        (auto simp: apply_to_patches env_diff_new_new env_diff_new_old map_add_def)
  qed
  let ?w = "ed_wire digest exclude ?d"
  show ?from
  proof
    fix k
    have "ed_wf (ed_reverse ?w)" by (simp add: ed_wf_wire)
    then show "apply_patches (to_patches (ed_reverse ?w)) (map_of original ++ map_of additions) k =
        (if k \<in> exclude \<and> map_of (ed_old ?d) k \<noteq> None then None else map_of original k)"
      using assms
      by (cases "map_of additions k"; cases "map_of original k")
        (auto simp: apply_to_patches ed_reverse_def ed_wire_old ed_wire_new env_diff_new_new
          env_diff_new_old map_add_def)
  qed
qed

theorem diff_patches_roundtrip_witness:
  "apply_patches (to_patches (env_diff_new [(lit ''A'', lit ''1''), (lit ''B'', lit ''2'')]
       [(lit ''A'', lit ''3''), (lit ''C'', lit ''4'')]))
     (map_of [(lit ''A'', lit ''1''), (lit ''B'', lit ''2'')]) (lit ''A'') = Some (lit ''3'')
   \<and> apply_patches (to_patches (ed_reverse (ed_wire id {}
         (env_diff_new [(lit ''A'', lit ''1''), (lit ''B'', lit ''2'')]
            [(lit ''A'', lit ''3''), (lit ''C'', lit ''4'')]))))
       (map_of [(lit ''A'', lit ''1''), (lit ''B'', lit ''2'')]
        ++ map_of [(lit ''A'', lit ''3''), (lit ''C'', lit ''4'')]) =
      map_of [(lit ''A'', lit ''1''), (lit ''B'', lit ''2'')]"
  using diff_patches_roundtrip [of "[(lit ''A'', lit ''3''), (lit ''C'', lit ''4'')]"
      "[(lit ''A'', lit ''1''), (lit ''B'', lit ''2'')]" id "{}"]
  by (simp add: lit_def map_add_def) (auto simp: fun_eq_iff)

end
