(* ===== verification/Env_Source.thy ===== *)
theory Env_Source
  imports Env_Diff_Correct
begin

text \<open>
  Sourcing a script: \<^verbatim>\<open>EnvDiff::from_bash_script\<close> reads the environment that bash prints with
  \<^verbatim>\<open>export -p\<close>.  The reference is the documented form of that output, a double-quoted value
  per variable in which the four characters special inside double quotes are escaped.
\<close>

section \<open>The output of bash\<close>

definition dq_escape :: "ustr \<Rightarrow> ustr" where
  "dq_escape v = concat (map (\<lambda>c. if c \<in> {DQ, BSL, 96, DOLLAR} then [BSL, c] else [c]) v)"

definition dq_quote :: "ustr \<Rightarrow> ustr" where
  "dq_quote v = DQ # dq_escape v @ [DQ]"

definition export_line :: "ustr \<times> ustr \<Rightarrow> ustr" where
  "export_line kv = declare_x @ fst kv @ EQUALS # dq_quote (snd kv)"

definition export_p :: "(ustr \<times> ustr) list \<Rightarrow> ustr" where
  "export_p kvs = concat (map (\<lambda>kv. export_line kv @ [NL]) kvs)"

text \<open>
  The variables whose declaration can be read back: the name has no equals sign and no line
  break, the value no carriage return, and no later line of the value looks like a
  declaration itself.
\<close>

definition exportable :: "ustr \<times> ustr \<Rightarrow> bool" where
  "exportable kv \<longleftrightarrow>
     EQUALS \<notin> set (fst kv) \<and> NL \<notin> set (fst kv) \<and> CR \<notin> set (fst kv) \<and> CR \<notin> set (snd kv)
     \<and> (\<forall>l\<in>set (tl (split_on NL (snd kv))). \<not> starts_with declare_x l)"

section \<open>Unquoting\<close>

lemma dq_escape_Nil [simp]: "dq_escape [] = []"
  by (simp add: dq_escape_def)

lemma dq_escape_Cons:
  "dq_escape (c # v) = (if c \<in> {DQ, BSL, 96, DOLLAR} then [BSL, c] else [c]) @ dq_escape v"
  by (simp add: dq_escape_def)

lemma unescape_dq_escape: "unescape_loop (dq_escape v) = v"
  by (induction v) (auto simp: dq_escape_Cons unescape_char_def)

lemma normalize_dq_quote: "normalize_escape_sequences (dq_quote v) = Some v"
  by (simp add: normalize_escape_sequences_def dq_quote_def starts_with_def slice_quotes_def
      unescape_dq_escape butlast_append)

text \<open>
  Undoing bash's quoting panics on exactly two inputs, a lone double quote and the opening
  \<^verbatim>\<open>$'\<close> of an ANSI-C quoted string: the closing quote the code slices off is the opening one.
\<close>

lemma normalize_panics_iff:
  "normalize_escape_sequences input = None \<longleftrightarrow> input = [DQ] \<or> input = [DOLLAR, SQ]"
proof -
  have 1: "starts_with [DQ] input \<and> last input = DQ \<and> slice_quotes 1 input = None \<longleftrightarrow> input = [DQ]"
    by (cases input) (auto simp: starts_with_iff slice_quotes_def)
  have 2: "starts_with [DOLLAR, SQ] input \<and> last input = SQ \<and> slice_quotes 2 input = None
      \<longleftrightarrow> input = [DOLLAR, SQ]"
    by (auto simp: starts_with_iff slice_quotes_def)
  have 3: "starts_with [DQ] input \<Longrightarrow> \<not> starts_with [DOLLAR, SQ] input"
    by (auto simp: starts_with_iff)
  show ?thesis unfolding normalize_escape_sequences_def using 1 2 3 by auto
qed

section \<open>Lines\<close>

lemma split_on_append_sep: "split_on d (a @ d # b) = split_on d a @ split_on d b"
proof (induction a)
  case (Cons c a)
  then show ?case by (cases "split_on d a") auto
qed simp

lemma split_on_prefix:
  "d \<notin> set p \<Longrightarrow> split_on d (p @ s) = (p @ hd (split_on d s)) # tl (split_on d s)"
proof (induction p)
  case Nil
  then show ?case by simp
qed auto

lemma set_split_on: "p \<in> set (split_on d s) \<Longrightarrow> set p \<subseteq> set s"
proof (induction s arbitrary: p)
  case (Cons c s)
  obtain q qs where s: "split_on d s = q # qs"
    by (metis split_on_not_Nil neq_Nil_conv)
  show ?case
  proof (cases "p \<in> set (split_on d s)")
    case True
    with Cons.IH show ?thesis by auto
  next
    case False
    with Cons.prems s have "p = [] \<or> p = c # q" by (auto split: if_splits)
    with Cons.IH [of q] s show ?thesis by auto
  qed
qed simp

lemma split_on_suffix:
  "d \<notin> set t \<Longrightarrow> split_on d (s @ t) = butlast (split_on d s) @ [last (split_on d s) @ t]"
proof (induction s)
  case Nil
  then show ?case by (simp add: split_on_single)
next
  case (Cons c s)
  obtain q qs where s: "split_on d s = q # qs"
    by (metis split_on_not_Nil neq_Nil_conv)
  from Cons s show ?case by (cases qs) auto
qed

lemma strip_cr_id: "CR \<notin> set l \<Longrightarrow> strip_cr l = l"
  by (cases l rule: rev_cases) (auto simp: strip_cr_def)

lemma lines_of_append:
  assumes "CR \<notin> set a"
  shows "lines_of (a @ NL # b) = split_on NL a @ lines_of b"
proof -
  have "map strip_cr (split_on NL a) = split_on NL a"
  proof (rule map_idI)
    fix l assume "l \<in> set (split_on NL a)"
    then have "set l \<subseteq> set a" by (rule set_split_on)
    with assms show "strip_cr l = l" by (intro strip_cr_id) blast
  qed
  then show ?thesis
    by (simp add: lines_of_def split_on_append_sep butlast_append Let_def)
qed

lemma dq_escape_set: "set (dq_escape v) \<subseteq> insert BSL (set v)"
  by (auto simp: dq_escape_def)

lemma export_line_no_CR: "exportable kv \<Longrightarrow> CR \<notin> set (export_line kv)"
  using dq_escape_set [of "snd kv"]
  by (auto simp: exportable_def export_line_def dq_quote_def declare_x_def lit_def)

lemma lines_of_export_p:
  "\<forall>kv\<in>set kvs. exportable kv \<Longrightarrow>
     lines_of (export_p kvs) = concat (map (\<lambda>kv. split_on NL (export_line kv)) kvs)"
proof (induction kvs)
  case Nil
  then show ?case by (simp add: export_p_def lines_of_def)
next
  case (Cons kv kvs)
  have "lines_of (export_p (kv # kvs)) = lines_of (export_line kv @ NL # export_p kvs)"
    by (simp add: export_p_def)
  also have "\<dots> = split_on NL (export_line kv) @ lines_of (export_p kvs)"
    using Cons.prems by (intro lines_of_append export_line_no_CR) simp
  finally show ?case using Cons by simp
qed

lemma split_dq_escape: "split_on NL (dq_escape v) = map dq_escape (split_on NL v)"
proof (induction v)
  case (Cons c v)
  obtain q qs where v: "split_on NL v = q # qs"
    by (metis split_on_not_Nil neq_Nil_conv)
  from Cons v show ?case by (auto simp: dq_escape_Cons)
qed simp

lemma starts_with_dq_escape:
  assumes "starts_with p (dq_escape l @ t)" and "\<forall>c\<in>set p. c \<noteq> BSL" and "set p \<inter> set t = {}"
  shows "starts_with p l"
  using assms
proof (induction p arbitrary: l)
  case Nil
  then show ?case by (simp add: starts_with_def)
next
  case (Cons c p)
  show ?case
  proof (cases l)
    case Nil
    with Cons.prems show ?thesis by (cases t) (auto simp: starts_with_def split: if_splits)
  next
    case (Cons d l')
    with Cons.prems have "c = d" "starts_with p (dq_escape l' @ t)"
      by (auto simp: starts_with_def dq_escape_Cons split: if_splits)
    with Cons.IH [of l'] Cons.prems Cons show ?thesis by (simp add: starts_with_def)
  qed
qed

text \<open>The lines of one declaration.\<close>

lemma export_line_lines:
  assumes "exportable (k, v)"
  obtains l ls where "split_on NL (export_line (k, v)) = (declare_x @ k @ EQUALS # l) # ls"
    and "\<forall>x\<in>set ls. \<not> starts_with declare_x x"
    and "join_with NL (l # ls) = dq_quote v"
proof -
  let ?S = "split_on NL (dq_quote v)"
  have "export_line (k, v) = (declare_x @ k @ [EQUALS]) @ dq_quote v"
    by (simp add: export_line_def)
  moreover have "NL \<notin> set (declare_x @ k @ [EQUALS])"
    using assms by (simp add: exportable_def declare_x_def lit_def)
  ultimately have "split_on NL (export_line (k, v)) = (declare_x @ k @ EQUALS # hd ?S) # tl ?S"
    using split_on_prefix by fastforce
  moreover have "join_with NL (hd ?S # tl ?S) = dq_quote v"
    by simp
  moreover have "\<not> starts_with declare_x x" if "x \<in> set (tl ?S)" for x
  proof
    assume sw: "starts_with declare_x x"
    obtain q qs where v: "split_on NL v = q # qs"
      by (metis split_on_not_Nil neq_Nil_conv)
    have "?S = (DQ # hd (split_on NL (dq_escape v @ [DQ]))) # tl (split_on NL (dq_escape v @ [DQ]))"
      unfolding dq_quote_def using split_on_prefix [of NL "[DQ]"] by simp
    also have "tl (split_on NL (dq_escape v @ [DQ])) =
        (if qs = [] then [] else butlast (map dq_escape qs) @ [last (map dq_escape qs) @ [DQ]])"
      using v by (simp add: split_on_suffix split_dq_escape)
    finally have "x \<in> set (if qs = [] then [] else butlast (map dq_escape qs) @ [last (map dq_escape qs) @ [DQ]])"
      using that by simp
    then have "qs \<noteq> []" and
      "x \<in> set (map dq_escape qs) \<or> x = dq_escape (last qs) @ [DQ]"
      by (auto split: if_splits simp: last_map dest!: in_set_butlastD)
    then have "(\<exists>l\<in>set qs. x = dq_escape l @ []) \<or> (\<exists>l\<in>set qs. x = dq_escape l @ [DQ])"
      using last_in_set [of qs] by (elim disjE) (simp add: image_iff, blast)
    then have "\<exists>l\<in>set qs. \<exists>t. x = dq_escape l @ t \<and> (t = [] \<or> t = [DQ])"
      by metis
    then obtain l t where "l \<in> set qs" and "x = dq_escape l @ t" and "t = [] \<or> t = [DQ]"
      by (elim bexE exE conjE)
    moreover from this sw have "starts_with declare_x l"
      using starts_with_dq_escape [of declare_x l t] by (auto simp: declare_x_def lit_def)
    ultimately show False using assms v by (auto simp: exportable_def)
  qed
  ultimately show thesis using that by blast
qed

section \<open>Reading the output back\<close>

lemma parse_skip:
  "\<forall>x\<in>set ls. \<not> starts_with declare_x x \<Longrightarrow>
     parse_export_loop opts (a, None) (ls @ rest) = parse_export_loop opts (a, None) rest"
  by (induction ls) (auto simp: parse_export_line_def starts_with_def)

lemma parse_continue:
  assumes "\<forall>x\<in>set ls. \<not> starts_with declare_x x" and "map_of a k = Some v" and "bt_wf a"
  shows "\<exists>a'. parse_export_loop opts (a, Some k) (ls @ rest) = parse_export_loop opts (a', Some k) rest
      \<and> bt_wf a' \<and> map_of a' = (map_of a)(k \<mapsto> v @ concat (map (\<lambda>l. NL # l) ls))"
  using assms
proof (induction ls arbitrary: a v)
  case Nil
  then show ?case by (intro exI [of _ a]) auto
next
  case (Cons l ls)
  let ?a = "bt_insert k (v @ NL # l) a"
  from Cons.prems have "parse_export_loop opts (a, Some k) ((l # ls) @ rest) =
      parse_export_loop opts (?a, Some k) (ls @ rest)"
    by (simp add: parse_export_line_def starts_with_def)
  moreover have "\<exists>a'. parse_export_loop opts (?a, Some k) (ls @ rest) =
        parse_export_loop opts (a', Some k) rest \<and> bt_wf a'
      \<and> map_of a' = (map_of ?a)(k \<mapsto> (v @ NL # l) @ concat (map (\<lambda>l. NL # l) ls))"
    by (rule Cons.IH) (use Cons.prems in simp_all)
  then obtain a' where "parse_export_loop opts (?a, Some k) (ls @ rest) =
        parse_export_loop opts (a', Some k) rest" and "bt_wf a'"
      and "map_of a' = (map_of ?a)(k \<mapsto> (v @ NL # l) @ concat (map (\<lambda>l. NL # l) ls))"
    by blast
  ultimately show ?case by (intro exI [of _ a']) simp
qed

lemma join_with_Cons: "join_with d (l # ls) = l @ concat (map (\<lambda>x. d # x) ls)"
  by (induction ls arbitrary: l) auto

lemma parse_declaration:
  assumes "exportable (k, v)" and "bt_wf a"
  shows "\<exists>a' cur'. parse_export_loop opts (a, cur) (split_on NL (export_line (k, v)) @ rest) =
        parse_export_loop opts (a', cur') rest
      \<and> bt_wf a'
      \<and> map_of a' = (if invalid_key k opts then map_of a else (map_of a)(k \<mapsto> dq_quote v))"
proof -
  obtain l ls where s: "split_on NL (export_line (k, v)) = (declare_x @ k @ EQUALS # l) # ls"
    and ls: "\<forall>x\<in>set ls. \<not> starts_with declare_x x"
    and j: "join_with NL (l # ls) = dq_quote v"
    using export_line_lines [OF assms(1)] by blast
  have so: "split_once EQUALS (k @ EQUALS # l) = Some (k, l)"
    using assms(1) by (simp add: split_once_Some exportable_def)
  show ?thesis
  proof (cases "invalid_key k opts")
    case True
    then have "parse_export_loop opts (a, cur) (split_on NL (export_line (k, v)) @ rest) =
        parse_export_loop opts (a, None) (ls @ rest)"
      using so by (simp add: s parse_export_line_def)
    with True ls assms(2) show ?thesis by (auto simp: parse_skip)
  next
    case False
    then have "parse_export_loop opts (a, cur) (split_on NL (export_line (k, v)) @ rest) =
        parse_export_loop opts (bt_insert k l a, Some k) (ls @ rest)"
      using so by (simp add: s parse_export_line_def)
    with parse_continue [OF ls, of "bt_insert k l a" k l opts rest] False assms(2) j
    show ?thesis by (force simp: join_with_Cons)
  qed
qed

lemma parse_declarations:
  assumes "\<forall>kv\<in>set kvs. exportable kv" and "distinct (map fst kvs)" and "bt_wf a"
  shows "\<exists>m. parse_export_loop opts (a, cur) (concat (map (\<lambda>kv. split_on NL (export_line kv)) kvs)) = Some m
      \<and> bt_wf m
      \<and> (\<forall>k. map_of m k = (case map_of kvs k of
            Some v \<Rightarrow> if invalid_key k opts then map_of a k else Some (dq_quote v)
          | None \<Rightarrow> map_of a k))"
  using assms
proof (induction kvs arbitrary: a cur)
  case Nil
  then show ?case by simp
next
  case (Cons kv kvs)
  obtain k v where kv: "kv = (k, v)" by fastforce
  let ?rest = "concat (map (\<lambda>kv. split_on NL (export_line kv)) kvs)"
  obtain a' cur' where step: "parse_export_loop opts (a, cur) (split_on NL (export_line (k, v)) @ ?rest) =
        parse_export_loop opts (a', cur') ?rest"
      and wf: "bt_wf a'"
      and m: "map_of a' = (if invalid_key k opts then map_of a else (map_of a)(k \<mapsto> dq_quote v))"
    using parse_declaration [of k v a opts cur ?rest] Cons.prems kv by auto
  have k: "map_of kvs k = None"
    using Cons.prems(2) kv by (auto simp: map_of_eq_None_iff)
  obtain n where n: "parse_export_loop opts (a', cur') ?rest = Some n" "bt_wf n"
    and at: "\<And>x. map_of n x = (case map_of kvs x of
            Some v \<Rightarrow> if invalid_key x opts then map_of a' x else Some (dq_quote v)
          | None \<Rightarrow> map_of a' x)"
    using Cons.IH [of a' cur'] Cons.prems wf by auto
  have "map_of n x = (case map_of (kv # kvs) x of
            Some v \<Rightarrow> if invalid_key x opts then map_of a x else Some (dq_quote v)
          | None \<Rightarrow> map_of a x)" for x
    using at [of x] m k kv by (cases "x = k") (auto split: option.splits)
  with n step kv show ?case by auto
qed

lemma parse_export_p_export_p:
  assumes "\<forall>kv\<in>set kvs. exportable kv" and "distinct (map fst kvs)"
  shows "\<exists>m. parse_export_p (export_p kvs) opts = Some m \<and> bt_wf m
      \<and> (\<forall>k. map_of m k =
            (if invalid_key k opts then None else map_option dq_quote (map_of kvs k)))"
proof -
  obtain m where "parse_export_loop opts ([], None)
        (concat (map (\<lambda>kv. split_on NL (export_line kv)) kvs)) = Some m" and "bt_wf m"
    and m: "\<And>k. map_of m k = (case map_of kvs k of
            Some v \<Rightarrow> if invalid_key k opts then map_of [] k else Some (dq_quote v)
          | None \<Rightarrow> map_of [] k)"
    using parse_declarations [OF assms bt_wf_Nil, of opts None] by blast
  moreover from this(1) have "parse_export_p (export_p kvs) opts = Some m"
    using assms(1) by (simp add: parse_export_p_def lines_of_export_p)
  moreover have "map_of m k = (if invalid_key k opts then None else map_option dq_quote (map_of kvs k))" for k
    using m [of k] by (simp split: option.splits)
  ultimately show ?thesis by blast
qed

section \<open>The effect of a script\<close>

lemma fbs_normalize_result:
  assumes "distinct (map fst kvs)" and "\<forall>kv\<in>set kvs. normalize_escape_sequences (snd kv) = Some (f (snd kv))"
    and "bt_wf a"
  shows "\<exists>m. fbs_normalize env kvs a = Some m \<and> bt_wf m
      \<and> (\<forall>k. map_of m k = (case map_of kvs k of
            None \<Rightarrow> map_of a k
          | Some v \<Rightarrow> if map_of env k = Some (f v) then None else Some (f v)))"
  using assms
proof (induction kvs arbitrary: a)
  case Nil
  then show ?case by simp
next
  case (Cons kv kvs)
  obtain k v where kv: "kv = (k, v)" by fastforce
  let ?a = "if map_of env k = Some (f v) then bt_remove k a else bt_insert k (f v) a"
  have step: "fbs_normalize env (kv # kvs) a = fbs_normalize env kvs ?a"
    using Cons.prems(2) kv by simp
  have "bt_wf ?a" using Cons.prems(3) by simp
  then obtain m where m: "fbs_normalize env kvs ?a = Some m" "bt_wf m"
    and at: "\<And>x. map_of m x = (case map_of kvs x of
            None \<Rightarrow> map_of ?a x
          | Some v \<Rightarrow> if map_of env x = Some (f v) then None else Some (f v))"
    using Cons.IH [of ?a] Cons.prems by auto
  have k: "map_of kvs k = None"
    using Cons.prems(1) kv by (auto simp: map_of_eq_None_iff)
  have "map_of m x = (case map_of (kv # kvs) x of
            None \<Rightarrow> map_of a x
          | Some v \<Rightarrow> if map_of env x = Some (f v) then None else Some (f v))" for x
    using at [of x] k kv by (cases "x = k") (auto split: option.splits)
  with m step show ?case by auto
qed

definition demo_run :: "(ustr \<times> ustr) list \<Rightarrow> ustr \<Rightarrow> ustr \<Rightarrow> str_env \<Rightarrow> unit + ustr" where
  "demo_run kvs script dir env = Inr (export_p kvs)"

lemma declaration_in_value_panics:
  "from_bash_script (demo_run [(lit ''A'', NL # declare_x @ lit ''B='')]) script dir env edo_default =
     Panicked"
proof -
  let ?out = "export_p [(lit ''A'', NL # declare_x @ lit ''B='')]"
  have "parse_export_p ?out edo_default = Some [(lit ''A'', [DQ]), (lit ''B'', [DQ])]"
    by (simp add: parse_export_p_def export_p_def export_line_def dq_quote_def dq_escape_def
        lines_of_def strip_cr_def parse_export_line_def declare_x_def lit_def invalid_key_def
        edo_default_def DEFAULT_IGNORE_KEYS_def PATH_KEY_def starts_with_def)
  moreover have "fbs_normalize env ((lit ''A'', [DQ]) # kvs) a = None" for kvs a
  proof -
    have "normalize_escape_sequences [DQ] = None" by (simp only: normalize_panics_iff) simp
    then show ?thesis by simp
  qed
  ultimately show ?thesis
    by (simp add: from_bash_script_def demo_run_def)
qed


definition demo_exports :: "(ustr \<times> ustr) list" where
  "demo_exports = [(lit ''A'', lit ''x'' @ [NL, DQ]), (lit ''PWD'', lit ''/''), (lit ''B'', lit ''1'')]"


end
