(* ===== verification/Env_Pristine.thy ===== *)
theory Env_Pristine
  imports Env_Diff_Correct
begin

text \<open>
  The environment as it was before mise touched it: \<^verbatim>\<open>get_pristine_env\<close> of
  \<^verbatim>\<open>crates/mise-util/src/env.rs\<close> undoes a recorded diff while it keeps what the user changed
  since, takes mise's directories out of PATH once, and withholds the secrets that a parent
  process marked.  The model is the Unix one: names of variables are compared exactly.
\<close>

section \<open>Secrets\<close>

definition SECRET_KEYS_MARKER :: ustr where "SECRET_KEYS_MARKER = lit ''__MISE_SECRET_KEYS''"

definition env_key_eq :: "ustr \<Rightarrow> ustr \<Rightarrow> bool" where
  "env_key_eq a b = (a = b)"

text \<open>\<^verbatim>\<open>str::get(..n)\<close>: the first \<open>n\<close> bytes, when they end at a character boundary.\<close>

fun byte_prefix :: "nat \<Rightarrow> ustr \<Rightarrow> ustr option" where
  "byte_prefix 0 s = Some []"
| "byte_prefix (Suc n) [] = None"
| "byte_prefix (Suc n) (c # s) =
     (if len_utf8 c \<le> Suc n then map_option ((#) c) (byte_prefix (Suc n - len_utf8 c) s) else None)"

lemma byte_prefix_rec:
  "byte_prefix n [] = (if n = 0 then Some [] else None)"
  "byte_prefix n (c # s) =
     (if n = 0 then Some []
      else if len_utf8 c \<le> n then map_option ((#) c) (byte_prefix (n - len_utf8 c) s) else None)"
  by (cases n; simp)+

definition RESERVED :: "ustr list" where
  "RESERVED = map lit [''PATH'', ''HOME'', ''USER'', ''SHELL'', ''TERM'', ''COLORTERM'', ''LANG'']"

definition head_matches :: "ustr \<Rightarrow> ustr \<Rightarrow> (ustr \<Rightarrow> ustr \<Rightarrow> bool) \<Rightarrow> bool" where
  "head_matches prefix name eq =
     (case byte_prefix (byte_len prefix) name of Some head \<Rightarrow> eq head prefix | None \<Rightarrow> False)"

definition reserved_secret_name :: "ustr \<Rightarrow> (ustr \<Rightarrow> ustr \<Rightarrow> bool) \<Rightarrow> bool" where
  "reserved_secret_name name eq \<longleftrightarrow>
     (\<exists>r\<in>set RESERVED. eq name r) \<or> head_matches (lit ''__MISE_'') name eq"

definition is_reserved_secret_name :: "ustr \<Rightarrow> bool" where
  "is_reserved_secret_name name = reserved_secret_name name env_key_eq"

definition is_valid_secret_name :: "ustr \<Rightarrow> bool" where
  "is_valid_secret_name name =
     (case name of
        [] \<Rightarrow> False
      | c # cs \<Rightarrow> (is_ascii_alphabetic c \<or> c = UNDERSCORE)
          \<and> (\<forall>c\<in>set cs. is_ascii_alphanumeric c \<or> c = UNDERSCORE))"

definition parse_secret_keys :: "ustr \<Rightarrow> (ustr \<Rightarrow> ustr \<Rightarrow> bool) \<Rightarrow> ustr set" where
  "parse_secret_keys marker eq =
     set (filter (\<lambda>k. is_valid_secret_name k \<and> \<not> reserved_secret_name k eq)
            (map str_trim (split_on 44 marker)))"

definition FISH_SECRET_PREFIX :: ustr where "FISH_SECRET_PREFIX = lit ''__MISE_FISH_SECRET_''"

definition is_fish_temp_name :: "ustr \<Rightarrow> (ustr \<Rightarrow> ustr \<Rightarrow> bool) \<Rightarrow> bool" where
  "is_fish_temp_name name eq = head_matches FISH_SECRET_PREFIX name eq"

definition inherited_secret_keys ::
    "ustr option \<Rightarrow> ustr list \<Rightarrow> (ustr \<Rightarrow> ustr \<Rightarrow> bool) \<Rightarrow> ustr set" where
  "inherited_secret_keys marker names eq =
     (case marker of Some v \<Rightarrow> parse_secret_keys v eq | None \<Rightarrow> {})
     \<union> set (filter (\<lambda>k. is_fish_temp_name k eq) names)"

definition is_inherited_secret_key :: "ustr \<Rightarrow> ustr set \<Rightarrow> bool" where
  "is_inherited_secret_key name keys \<longleftrightarrow>
     (\<exists>m\<in>keys. env_key_eq name m) \<or> env_key_eq name SECRET_KEYS_MARKER"

definition vars_without_inherited_secrets :: "(ustr \<times> ustr) list \<Rightarrow> ustr set \<Rightarrow> (ustr \<times> ustr) list" where
  "vars_without_inherited_secrets vars keys =
     filter (\<lambda>(k, _). \<not> is_inherited_secret_key k keys) vars"

definition strip_matching :: "str_env \<Rightarrow> ustr set \<Rightarrow> (ustr \<Rightarrow> ustr \<Rightarrow> bool) \<Rightarrow> str_env" where
  "strip_matching env keys eq =
     filter (\<lambda>(k, _). \<not> (\<exists>m\<in>keys. eq k m) \<and> \<not> eq k SECRET_KEYS_MARKER) env"

definition strip_inherited_secrets :: "str_env \<Rightarrow> ustr set \<Rightarrow> str_env" where
  "strip_inherited_secrets env keys = strip_matching env keys env_key_eq"

definition strip_secrets_for_child ::
    "str_env \<Rightarrow> ustr set \<Rightarrow> ustr set \<Rightarrow> (ustr \<Rightarrow> ustr \<Rightarrow> bool) \<Rightarrow> str_env \<times> ustr set" where
  "strip_secrets_for_child env env_remove keys eq =
     (if keys = {} then (env, env_remove)
      else (strip_matching env keys eq,
            env_remove \<union> keys \<union> {SECRET_KEYS_MARKER}
            \<union> set (filter (\<lambda>k. (\<exists>m\<in>keys. eq k m) \<or> eq k SECRET_KEYS_MARKER) (map fst env))))"

section \<open>Reversing a diff\<close>

definition env_map_key :: "str_env \<Rightarrow> ustr \<Rightarrow> ustr option" where
  "env_map_key env key = map_option (\<lambda>_. key) (map_of env key)"

definition env_map_get :: "str_env \<Rightarrow> ustr \<Rightarrow> ustr option" where
  "env_map_get env key = (case env_map_key env key of None \<Rightarrow> None | Some k \<Rightarrow> map_of env k)"

definition env_diff_get :: "(ustr, ustr) imap \<Rightarrow> ustr \<Rightarrow> ustr option" where
  "env_diff_get env key = map_of env key"

text \<open>The bodies of the two loops of \<^verbatim>\<open>reverse_diff_preserving_overrides\<close>.\<close>

definition reverse_old_step ::
    "(ustr \<Rightarrow> ustr) \<Rightarrow> env_diff \<Rightarrow> str_env \<Rightarrow> ustr \<times> ustr \<Rightarrow> str_env" where
  "reverse_old_step digest diff env entry =
     (let (key, old_value) = entry in
      case env_diff_get (ed_new diff) key of
        Some new_value \<Rightarrow>
          if (case env_map_get env key of
                Some v \<Rightarrow> env_value_matches digest (ed_v diff) new_value v | None \<Rightarrow> False)
          then bt_insert (case env_map_key env key of Some k \<Rightarrow> k | None \<Rightarrow> key) old_value env
          else env
      | None \<Rightarrow>
          if env_map_get env key = None then bt_insert key old_value env else env)"

definition reverse_new_step ::
    "(ustr \<Rightarrow> ustr) \<Rightarrow> env_diff \<Rightarrow> str_env \<Rightarrow> ustr \<times> ustr \<Rightarrow> str_env" where
  "reverse_new_step digest diff env entry =
     (let (key, new_value) = entry in
      if env_diff_get (ed_old diff) key = None
         \<and> (case env_map_get env key of
              Some v \<Rightarrow> env_value_matches digest (ed_v diff) new_value v | None \<Rightarrow> False)
      then (case env_map_key env key of Some k \<Rightarrow> bt_remove k env | None \<Rightarrow> env)
      else env)"

definition reverse_diff_preserving_overrides ::
    "(ustr \<Rightarrow> ustr) \<Rightarrow> env_diff \<Rightarrow> str_env \<Rightarrow> str_env" where
  "reverse_diff_preserving_overrides digest mise_diff env =
     foldl (reverse_new_step digest mise_diff)
       (foldl (reverse_old_step digest mise_diff) env (ed_old mise_diff))
       (ed_new mise_diff)"

section \<open>The pristine environment\<close>

text \<open>
  The filter over PATH: \<open>to_remove\<close> is the mutable set of mise's directories, \<open>path\<close> the whole
  list, whose occurrences the counts are of.
\<close>

fun strip_once :: "ustr list \<Rightarrow> ustr list \<Rightarrow> ustr list \<Rightarrow> ustr list \<Rightarrow> ustr list" where
  "strip_once orig_path path to_remove [] = []"
| "strip_once orig_path path to_remove (p # ps) =
     (if path_in p orig_path \<and> path_count p path = 1
      then p # strip_once orig_path path to_remove ps
      else if path_in p to_remove
      then strip_once orig_path path (filter (\<lambda>q. \<not> path_eq p q) to_remove) ps
      else p # strip_once orig_path path to_remove ps)"

definition MISE_TASK_NAMES_ONLY_ENV :: ustr where
  "MISE_TASK_NAMES_ONLY_ENV = lit ''__MISE_TASK_NAMES_ONLY''"

definition get_pristine_env ::
    "(ustr \<Rightarrow> ustr) \<Rightarrow> ustr set \<Rightarrow> env_diff \<Rightarrow> str_env \<Rightarrow> str_env option" where
  "get_pristine_env digest secret_keys mise_diff orig_env =
     (let orig_path = (case map_of orig_env (lit ''__MISE_ORIG_PATH'') of
                         Some p \<Rightarrow> split_paths p | None \<Rightarrow> []);
          env = reverse_diff_preserving_overrides digest mise_diff orig_env;
          env = bt_remove MISE_TASK_NAMES_ONLY_ENV env;
          path = (case map_of env PATH_KEY of Some p \<Rightarrow> split_paths p | None \<Rightarrow> []);
          path' = strip_once orig_path path (ed_path mise_diff) path
      in case join_paths path' of
           None \<Rightarrow> None
         | Some p \<Rightarrow> Some (strip_inherited_secrets (bt_insert PATH_KEY p env) secret_keys))"

section \<open>What reversing a diff does\<close>

lemma env_map_get_eq [simp]: "env_map_get env key = map_of env key"
  by (simp add: env_map_get_def env_map_key_def split: option.splits)

text \<open>A live value that is the one a diff records.\<close>

definition still :: "(ustr \<Rightarrow> ustr) \<Rightarrow> env_diff \<Rightarrow> ustr \<Rightarrow> ustr option \<Rightarrow> bool" where
  "still digest diff stored cur =
     (case cur of Some v \<Rightarrow> env_value_matches digest (ed_v diff) stored v | None \<Rightarrow> False)"

definition reverse_old_upd ::
    "(ustr \<Rightarrow> ustr) \<Rightarrow> env_diff \<Rightarrow> ustr \<Rightarrow> ustr \<Rightarrow> ustr option \<Rightarrow> ustr option" where
  "reverse_old_upd digest diff k old cur =
     (case map_of (ed_new diff) k of
        Some n \<Rightarrow> if still digest diff n cur then Some old else cur
      | None \<Rightarrow> if cur = None then Some old else cur)"

definition reverse_new_upd ::
    "(ustr \<Rightarrow> ustr) \<Rightarrow> env_diff \<Rightarrow> ustr \<Rightarrow> ustr \<Rightarrow> ustr option \<Rightarrow> ustr option" where
  "reverse_new_upd digest diff k n cur =
     (if map_of (ed_old diff) k = None \<and> still digest diff n cur then None else cur)"

interpretation reverse_old:
  keyed_update "reverse_old_step digest diff" map_of "reverse_old_upd digest diff"
  for digest diff
  by unfold_locales
    (auto simp: reverse_old_step_def reverse_old_upd_def still_def env_diff_get_def
      env_map_key_def split: option.splits)

interpretation reverse_new:
  keyed_update "reverse_new_step digest diff" map_of "reverse_new_upd digest diff"
  for digest diff
  by unfold_locales
    (auto simp: reverse_new_step_def reverse_new_upd_def still_def env_diff_get_def
      env_map_key_def split: option.splits)

lemma reverse_diff_at:
  assumes "ed_wf d"
  shows "map_of (reverse_diff_preserving_overrides digest d env) k =
    (case map_of (ed_new d) k of
       Some n \<Rightarrow> if still digest d n (map_of env k) then map_of (ed_old d) k else map_of env k
     | None \<Rightarrow> if map_of env k = None then map_of (ed_old d) k else map_of env k)"
proof -
  have d: "distinct (map fst (ed_old d))" "distinct (map fst (ed_new d))"
    using assms by (simp_all add: ed_wf_def)
  show ?thesis
    unfolding reverse_diff_preserving_overrides_def
    by (cases "map_of (ed_new d) k"; cases "map_of (ed_old d) k")
      (auto simp: reverse_new.fold_view [OF d(2)] reverse_old.fold_view [OF d(1)]
        reverse_old_upd_def reverse_new_upd_def)
qed

text \<open>A digest without collisions recognises exactly the recorded value.\<close>

lemma still_wire:
  assumes "inj digest"
  shows "still digest (ed_wire digest exclude d) (hash_env_value digest v) cur \<longleftrightarrow> cur = Some v"
  using assms
  by (auto simp: still_def env_value_matches_def ed_wire_def ENV_STATE_VERSION_def
      hash_env_value_def inj_eq split: option.splits)


definition demo_diff :: env_diff where
  "demo_diff = env_diff_new [(lit ''A'', lit ''1''), (lit ''B'', lit ''2'')]
     [(lit ''A'', lit ''3''), (lit ''B'', lit ''4''), (lit ''C'', lit ''5'')]"


section \<open>PATH and secrets\<close>

lemma path_in_filter_neq:
  "path_in p (filter (\<lambda>q. \<not> path_eq r q) qs) \<longleftrightarrow> path_in p qs \<and> \<not> path_eq r p"
  by (induction qs) (auto simp: path_eq_def)

lemma strip_once_count:
  "path_count p (strip_once orig path to_remove ps) =
     path_count p ps -
       (if path_in p to_remove \<and> \<not> (path_in p orig \<and> path_count p path = 1) then 1 else 0)"
proof (induction orig path to_remove ps rule: strip_once.induct)
  case (2 orig path to_remove q ps)
  show ?case
  proof (cases "path_eq p q")
    case True
    then have "path_in p xs = path_in q xs" "path_count p xs = path_count q xs" for xs
      by (simp_all add: path_in_cong path_count_cong)
    moreover have "path_eq q p" using True by (simp add: path_eq_def)
    ultimately show ?thesis using 2 True by (auto simp: path_in_filter_neq)
  next
    case False
    then have "\<not> path_eq q p" by (simp add: path_eq_def)
    with 2 False show ?thesis by (auto simp: path_in_filter_neq)
  qed
qed simp

lemma strip_once_set: "set (strip_once orig path to_remove ps) \<subseteq> set ps"
  by (induction orig path to_remove ps rule: strip_once.induct) auto

lemma strip_inherited_secrets_at:
  "map_of (strip_inherited_secrets env keys) k =
     (if k \<in> keys \<or> k = SECRET_KEYS_MARKER then None else map_of env k)"
  by (auto simp: strip_inherited_secrets_def strip_matching_def env_key_eq_def map_of_filter_key)

text \<open>
  A forged marker never takes a reserved variable away: whatever the marker says and
  whatever variables exist, the keys it yields contain neither one of the seven kept names
  nor, apart from fish's temporary copies, one of mise's own state variables, so stripping
  them leaves those variables as they are.
\<close>

lemma forged_marker_harmless:
  assumes "is_reserved_secret_name k" and "k \<noteq> SECRET_KEYS_MARKER"
    and "\<not> is_fish_temp_name k env_key_eq"
  shows "map_of (strip_inherited_secrets env (inherited_secret_keys marker names env_key_eq)) k =
    map_of env k"
  using assms
  by (auto simp: strip_inherited_secrets_at inherited_secret_keys_def parse_secret_keys_def
      is_reserved_secret_name_def split: option.splits)

text \<open>
  \<^bold>\<open>C20.\<close> The pristine environment always exists (joining PATH never panics); it holds no
  inherited secret and no marker; PATH loses, of every directory mise added, exactly one
  copy, and none when the only copy on PATH was there before activation; every other
  variable is the one reversing the diff gives.  And a forged marker never takes a reserved
  variable away: whatever the marker says and whatever variables exist, stripping the keys it
  yields leaves the seven kept names and, apart from fish's temporary copies, mise's own state
  variables as they are.
\<close>

theorem get_pristine_env_result:
  assumes "PATH_KEY \<notin> secret_keys"
  shows "(\<exists>env path orig_path pristine_path.
      get_pristine_env digest secret_keys d orig_env = Some env
    \<and> path = (case map_of (reverse_diff_preserving_overrides digest d orig_env) PATH_KEY of
                Some p \<Rightarrow> split_paths p | None \<Rightarrow> [])
    \<and> orig_path = (case map_of orig_env (lit ''__MISE_ORIG_PATH'') of
                     Some p \<Rightarrow> split_paths p | None \<Rightarrow> [])
    \<and> (\<forall>k. k \<in> secret_keys \<or> k = SECRET_KEYS_MARKER \<longrightarrow> map_of env k = None)
    \<and> (\<forall>k. k \<notin> secret_keys \<and> k \<notin> {SECRET_KEYS_MARKER, MISE_TASK_NAMES_ONLY_ENV, PATH_KEY}
          \<longrightarrow> map_of env k = map_of (reverse_diff_preserving_overrides digest d orig_env) k)
    \<and> map_of env PATH_KEY = join_paths pristine_path
    \<and> (\<forall>p. path_count p pristine_path = path_count p path -
          (if path_in p (ed_path d) \<and> \<not> (path_in p orig_path \<and> path_count p path = 1) then 1 else 0)))
    \<and> (\<forall>k marker names env. is_reserved_secret_name k \<and> k \<noteq> SECRET_KEYS_MARKER \<and> \<not> is_fish_temp_name k env_key_eq \<longrightarrow>
          map_of (strip_inherited_secrets env (inherited_secret_keys marker names env_key_eq)) k = map_of env k)"
proof (rule conjI)
  let ?r = "reverse_diff_preserving_overrides digest d orig_env"
  let ?env = "bt_remove MISE_TASK_NAMES_ONLY_ENV ?r"
  define path where "path = (case map_of ?r PATH_KEY of Some p \<Rightarrow> split_paths p | None \<Rightarrow> [])"
  define orig_path where "orig_path = (case map_of orig_env (lit ''__MISE_ORIG_PATH'') of
                     Some p \<Rightarrow> split_paths p | None \<Rightarrow> [])"
  define pp where "pp = strip_once orig_path path (ed_path d) path"
  have keys: "PATH_KEY \<noteq> MISE_TASK_NAMES_ONLY_ENV" "PATH_KEY \<noteq> SECRET_KEYS_MARKER"
    by (simp_all add: PATH_KEY_def MISE_TASK_NAMES_ONLY_ENV_def SECRET_KEYS_MARKER_def lit_def)
  have "\<forall>p\<in>set path. COLON \<notin> set p"
    using split_paths_no_colon by (auto simp: path_def split: option.splits)
  then have "\<forall>p\<in>set pp. COLON \<notin> set p"
    using strip_once_set unfolding pp_def by blast
  then have j: "join_paths pp = Some (join_with COLON pp)" by (rule join_paths_Some)
  let ?e = "strip_inherited_secrets (bt_insert PATH_KEY (join_with COLON pp) ?env) secret_keys"
  have "get_pristine_env digest secret_keys d orig_env = Some ?e"
    using j keys(1)
    by (simp add: get_pristine_env_def path_def orig_path_def pp_def Let_def)
  moreover have "map_of ?e PATH_KEY = join_paths pp"
    using assms keys j by (simp add: strip_inherited_secrets_at)
  ultimately show "(\<exists>env path orig_path pristine_path.
      get_pristine_env digest secret_keys d orig_env = Some env
    \<and> path = (case map_of (reverse_diff_preserving_overrides digest d orig_env) PATH_KEY of
                Some p \<Rightarrow> split_paths p | None \<Rightarrow> [])
    \<and> orig_path = (case map_of orig_env (lit ''__MISE_ORIG_PATH'') of
                     Some p \<Rightarrow> split_paths p | None \<Rightarrow> [])
    \<and> (\<forall>k. k \<in> secret_keys \<or> k = SECRET_KEYS_MARKER \<longrightarrow> map_of env k = None)
    \<and> (\<forall>k. k \<notin> secret_keys \<and> k \<notin> {SECRET_KEYS_MARKER, MISE_TASK_NAMES_ONLY_ENV, PATH_KEY}
          \<longrightarrow> map_of env k = map_of (reverse_diff_preserving_overrides digest d orig_env) k)
    \<and> map_of env PATH_KEY = join_paths pristine_path
    \<and> (\<forall>p. path_count p pristine_path = path_count p path -
          (if path_in p (ed_path d) \<and> \<not> (path_in p orig_path \<and> path_count p path = 1) then 1 else 0)))"
    using path_def orig_path_def strip_once_count [of _ orig_path path "ed_path d" path]
    by (intro exI [of _ ?e] exI [of _ path] exI [of _ orig_path] exI [of _ pp])
      (simp add: strip_inherited_secrets_at pp_def)
qed (use forged_marker_harmless in blast)

definition demo_live_env :: str_env where
  "demo_live_env = [(lit ''PATH'', lit ''/t:/t:/b''), (lit ''TOKEN'', lit ''x''),
     (lit ''__MISE_ORIG_PATH'', lit ''/b'')]"

theorem get_pristine_env_result_witness:
  "PATH_KEY \<notin> {lit ''TOKEN''}
   \<and> (\<exists>env. get_pristine_env id {lit ''TOKEN''} (ed_default\<lparr> ed_path := [lit ''/t'', lit ''/b''] \<rparr>)
           demo_live_env = Some env
         \<and> map_of env (lit ''TOKEN'') = None \<and> map_of env PATH_KEY = Some (lit ''/t:/b''))
   \<and> map_of (strip_inherited_secrets [(lit ''HOME'', lit ''/h''), (lit ''T'', lit ''1'')]
        (inherited_secret_keys (Some (lit ''HOME, T'')) [] env_key_eq)) (lit ''HOME'') = Some (lit ''/h'')
   \<and> lit ''T'' \<in> inherited_secret_keys (Some (lit ''HOME, T'')) [] env_key_eq"
proof -
  have p: "PATH_KEY \<notin> {lit ''TOKEN''}" by (simp add: PATH_KEY_def lit_def)
  let ?d = "ed_default\<lparr> ed_path := [lit ''/t'', lit ''/b''] \<rparr>"
  obtain env where e: "get_pristine_env id {lit ''TOKEN''} ?d demo_live_env = Some env"
    and s: "map_of env (lit ''TOKEN'') = None"
    using get_pristine_env_result [OF p, of id ?d demo_live_env] by auto
  have path: "map_option (\<lambda>env. map_of env PATH_KEY)
      (get_pristine_env id {lit ''TOKEN''} ?d demo_live_env) = Some (Some (lit ''/t:/b''))"
    by (simp add: get_pristine_env_def demo_live_env_def reverse_diff_preserving_overrides_def
        ed_default_def PATH_KEY_def MISE_TASK_NAMES_ONLY_ENV_def SECRET_KEYS_MARKER_def
        strip_inherited_secrets_def strip_matching_def env_key_eq_def bt_remove_def path_simps)
  have r: "is_reserved_secret_name (lit ''HOME'')"
    by (simp add: is_reserved_secret_name_def reserved_secret_name_def RESERVED_def env_key_eq_def lit_def)
  have m: "lit ''HOME'' \<noteq> SECRET_KEYS_MARKER"
    by (simp add: SECRET_KEYS_MARKER_def lit_def)
  have f: "\<not> is_fish_temp_name (lit ''HOME'') env_key_eq"
    by (simp add: is_fish_temp_name_def head_matches_def FISH_SECRET_PREFIX_def lit_def byte_len_def
        len_utf8_def byte_prefix_rec)
  have "lit ''T'' \<in> inherited_secret_keys (Some (lit ''HOME, T'')) [] env_key_eq"
    by (simp add: inherited_secret_keys_def parse_secret_keys_def lit_def str_trim_def
        reserved_secret_name_def RESERVED_def head_matches_def env_key_eq_def byte_len_def
        is_valid_secret_name_def uchar_simps byte_prefix_rec)
  moreover have "map_of (strip_inherited_secrets [(lit ''HOME'', lit ''/h''), (lit ''T'', lit ''1'')]
      (inherited_secret_keys (Some (lit ''HOME, T'')) [] env_key_eq)) (lit ''HOME'') = Some (lit ''/h'')"
    using r m f get_pristine_env_result [OF p, of id ?d demo_live_env] by (simp add: lit_def)
  ultimately show ?thesis using e s p path by simp
qed

end
