(* ===== verification/Hook_Env.thy ===== *)
theory Hook_Env
  imports Path_Env Env_Diff_Correct
begin

text \<open>
  What \<^verbatim>\<open>mise hook-env\<close> prints for the user's shell on every prompt: the patches that undo the
  previous environment, the PATH after deactivation and the new PATH, the size check, and
  the update of direnv's own record.  Sources: \<^verbatim>\<open>src/hook_env.rs\<close>, \<^verbatim>\<open>src/cli/hook_env.rs\<close> and
  \<^verbatim>\<open>src/direnv.rs\<close>.
\<close>

section \<open>Shell commands\<close>

text \<open>The methods of the \<^verbatim>\<open>Shell\<close> trait that the code calls on a \<^verbatim>\<open>&dyn Shell\<close>.\<close>

record shell_ops =
  sh_to_string :: ustr
  sh_set_env :: "ustr \<Rightarrow> ustr \<Rightarrow> ustr"
  sh_unset_env :: "ustr \<Rightarrow> ustr"
  sh_set_alias :: "ustr \<Rightarrow> ustr \<Rightarrow> ustr"
  sh_unset_alias :: "ustr \<Rightarrow> ustr"

fun patch_command :: "shell_ops \<Rightarrow> env_diff_operation \<Rightarrow> ustr" where
  "patch_command shell (Add k v) = sh_set_env shell k v"
| "patch_command shell (Change k v) = sh_set_env shell k v"
| "patch_command shell (Remove k) = sh_unset_env shell k"

definition build_env_commands :: "shell_ops \<Rightarrow> env_diff_patches \<Rightarrow> ustr" where
  "build_env_commands shell patches = concat (map (patch_command shell) patches)"

definition clear_aliases :: "shell_ops \<Rightarrow> (ustr, ustr) imap \<Rightarrow> ustr" where
  "clear_aliases shell aliases = concat (map (\<lambda>(name, _). sh_unset_alias shell name) aliases)"

definition build_alias_commands ::
    "shell_ops \<Rightarrow> (ustr, ustr) imap \<Rightarrow> (ustr, ustr) imap \<Rightarrow> ustr" where
  "build_alias_commands shell old_aliases new_aliases =
     concat (map (\<lambda>(name, old_cmd).
         case map_of new_aliases name of
           Some new_cmd \<Rightarrow>
             if new_cmd \<noteq> old_cmd
             then sh_unset_alias shell name @ sh_set_alias shell name new_cmd
             else []
         | None \<Rightarrow> sh_unset_alias shell name) old_aliases)
     @ concat (map (\<lambda>(name, cmd).
         if map_of old_aliases name = None then sh_set_alias shell name cmd else []) new_aliases)"

section \<open>The size check\<close>

definition MAX_ENV_STRING_LEN :: nat where "MAX_ENV_STRING_LEN = 128 * 1024"

text \<open>The error names the variable and its length.\<close>

datatype env_too_large = EnvTooLarge ustr nat

fun ensure_env_fits :: "env_diff_patches \<Rightarrow> env_too_large + unit" where
  "ensure_env_fits [] = Inr ()"
| "ensure_env_fits (patch # patches) =
     (case patch of
        Add k v \<Rightarrow>
          if byte_len k + byte_len v + 2 > MAX_ENV_STRING_LEN then Inl (EnvTooLarge k (byte_len v))
          else ensure_env_fits patches
      | Change k v \<Rightarrow>
          if byte_len k + byte_len v + 2 > MAX_ENV_STRING_LEN then Inl (EnvTooLarge k (byte_len v))
          else ensure_env_fits patches
      | Remove k \<Rightarrow> ensure_env_fits patches)"

section \<open>Deactivation\<close>

text \<open>Counting the occurrences of paths, and the two loops that compute the target counts.\<close>

definition count_paths :: "ustr list \<Rightarrow> path_map" where
  "count_paths ps = foldl (\<lambda>m p. pm_insert p (pm_get_or 0 m p + 1) m) [] ps"

definition target_current ::
    "path_ctx \<Rightarrow> path_map \<Rightarrow> path_map \<Rightarrow> path_map \<Rightarrow> path_map" where
  "target_current c current_counts mise_counts pristine_counts =
     foldl (\<lambda>target (path, current_count).
         let removal_count = pm_get_or 0 mise_counts path;
             pristine_count = pm_get_or 0 pristine_counts path;
             user_and_pristine =
               (if is_mise_shims_dir c path then pristine_count
                else max (current_count - removal_count) pristine_count)
         in pm_insert path user_and_pristine target)
       [] current_counts"

definition target_pristine :: "path_map \<Rightarrow> path_map \<Rightarrow> path_map" where
  "target_pristine pristine_counts target =
     foldl (\<lambda>target (path, pristine_count).
         pm_insert path
           (case pm_get target path of Some n \<Rightarrow> max n pristine_count | None \<Rightarrow> pristine_count)
           target)
       target pristine_counts"

text \<open>The loop that keeps entries of the current PATH, with the map of kept copies.\<close>

fun keep_current :: "path_map \<Rightarrow> path_map \<Rightarrow> ustr list \<Rightarrow> ustr list \<times> path_map" where
  "keep_current target kept [] = ([], kept)"
| "keep_current target kept (p # ps) =
     (case pm_get target p of
        None \<Rightarrow> keep_current target kept ps
      | Some t \<Rightarrow>
          let k = pm_get_or 0 kept p in
          if k < t
          then (let (out, kept') = keep_current target (pm_insert p (k + 1) kept) ps in (p # out, kept'))
          else keep_current target (pm_insert p k kept) ps)"

text \<open>The loop that restores missing entries of the pristine PATH; the inner \<^verbatim>\<open>while\<close> pushes the missing copies.\<close>

fun restore_pristine :: "path_map \<Rightarrow> path_map \<Rightarrow> ustr list \<Rightarrow> ustr list" where
  "restore_pristine target kept [] = []"
| "restore_pristine target kept (p # ps) =
     (let t = pm_get_or 0 target p;
          k = pm_get_or 0 kept p
      in replicate (t - k) p @ restore_pristine target (pm_insert p (max k t) kept) ps)"

definition deactivated_paths :: "path_ctx \<Rightarrow> ustr list \<Rightarrow> ustr list \<Rightarrow> ustr list \<Rightarrow> ustr list" where
  "deactivated_paths c current_paths mise_paths pristine_paths =
     (let current_counts = count_paths current_paths;
          mise_counts = count_paths mise_paths;
          pristine_counts = count_paths pristine_paths;
          target = target_pristine pristine_counts
                     (target_current c current_counts mise_counts pristine_counts);
          (kept_paths, kept) = keep_current target [] current_paths
      in kept_paths @ restore_pristine target kept pristine_paths)"

text \<open>
  The arguments are the live PATH (\<^const>\<open>None\<close> when unset), mise's directories of the recorded
  diff, the snapshot taken at activation and the PATH of the pristine environment.
\<close>

definition compute_deactivated_path ::
    "path_ctx \<Rightarrow> ustr option \<Rightarrow> ustr list \<Rightarrow> ustr option \<Rightarrow> str_env \<Rightarrow> ustr" where
  "compute_deactivated_path c live_path mise_paths mise_orig_path pristine_env =
     (let current_path = (case live_path of Some p \<Rightarrow> p | None \<Rightarrow> []);
          pristine_path =
            (case mise_orig_path of
               Some p \<Rightarrow> p
             | None \<Rightarrow> (case map_of pristine_env PATH_KEY of Some p \<Rightarrow> p | None \<Rightarrow> []))
      in if current_path = [] \<or> mise_paths = [] then pristine_path
         else (case join_paths (deactivated_paths c (split_paths current_path) mise_paths
                                  (split_paths pristine_path)) of
                 Some p \<Rightarrow> p
               | None \<Rightarrow> pristine_path))"

definition clear_old_env_patches :: "shell_ops \<Rightarrow> env_diff \<Rightarrow> ustr \<Rightarrow> env_diff_patches" where
  "clear_old_env_patches shell mise_diff new_path =
     (let patches = to_patches (ed_reverse mise_diff)
      in if sh_to_string shell = lit ''fish''
         then filter (\<lambda>p. patch_key p \<noteq> PATH_KEY) patches @ [Change PATH_KEY new_path]
         else patches @ [Change PATH_KEY new_path])"

definition clear_old_env :: "shell_ops \<Rightarrow> env_diff \<Rightarrow> ustr \<Rightarrow> ustr" where
  "clear_old_env shell mise_diff new_path =
     build_env_commands shell (clear_old_env_patches shell mise_diff new_path)"

section \<open>direnv's record\<close>

record direnv_diff =
  dd_old :: "ustr \<rightharpoonup> ustr"
  dd_new :: "ustr \<rightharpoonup> ustr"

text \<open>Decoding (base64, zlib, JSON) is the parameter \<open>decode\<close>; an empty input is an empty record.\<close>

definition dd_parse :: "(ustr \<Rightarrow> 'e + direnv_diff) \<Rightarrow> ustr \<Rightarrow> 'e + direnv_diff" where
  "dd_parse decode input =
     (if input = [] then Inr \<lparr> dd_old = Map.empty, dd_new = Map.empty \<rparr> else decode input)"

definition dd_new_path :: "direnv_diff \<Rightarrow> ustr list" where
  "dd_new_path d = (case dd_new d PATH_KEY of Some p \<Rightarrow> split_paths p | None \<Rightarrow> [])"

definition dd_old_path :: "direnv_diff \<Rightarrow> ustr list" where
  "dd_old_path d = (case dd_old d PATH_KEY of Some p \<Rightarrow> split_paths p | None \<Rightarrow> [])"

text \<open>Writing the two lists back; \<^const>\<open>None\<close> is the error of \<^verbatim>\<open>join_paths\<close>.\<close>

definition dd_store :: "direnv_diff \<Rightarrow> ustr list \<Rightarrow> ustr list \<Rightarrow> direnv_diff option" where
  "dd_store d old new =
     (case join_paths old of
        None \<Rightarrow> None
      | Some old_s \<Rightarrow>
          (case join_paths new of
             None \<Rightarrow> None
           | Some new_s \<Rightarrow> Some (d\<lparr> dd_old := (dd_old d)(PATH_KEY \<mapsto> old_s),
                                    dd_new := (dd_new d)(PATH_KEY \<mapsto> new_s) \<rparr>)))"

definition add_path_to_old_and_new :: "direnv_diff \<Rightarrow> ustr \<Rightarrow> direnv_diff option" where
  "add_path_to_old_and_new d path = dd_store d (path # dd_old_path d) (path # dd_new_path d)"

fun remove_first_path :: "ustr \<Rightarrow> ustr list \<Rightarrow> ustr list" where
  "remove_first_path path [] = []"
| "remove_first_path path (p # ps) = (if path_eq p path then ps else p # remove_first_path path ps)"

definition remove_path_from_old_and_new :: "direnv_diff \<Rightarrow> ustr \<Rightarrow> direnv_diff option" where
  "remove_path_from_old_and_new d path =
     dd_store d (remove_first_path path (dd_old_path d)) (remove_first_path path (dd_new_path d))"

fun dd_each :: "(direnv_diff \<Rightarrow> ustr \<Rightarrow> direnv_diff option) \<Rightarrow> direnv_diff \<Rightarrow> ustr list \<Rightarrow> direnv_diff option" where
  "dd_each f d [] = Some d"
| "dd_each f d (p # ps) = (case f d p of None \<Rightarrow> None | Some d' \<Rightarrow> dd_each f d' ps)"

datatype 'e direnv_error = DirenvCodec 'e | DirenvJoin

definition update_direnv_diff ::
    "(ustr \<Rightarrow> 'e + direnv_diff) \<Rightarrow> (direnv_diff \<Rightarrow> 'e + ustr) \<Rightarrow> ustr \<Rightarrow> ustr list \<Rightarrow> ustr list
     \<Rightarrow> 'e direnv_error + env_diff_operation option" where
  "update_direnv_diff decode encode input installs to_remove =
     (case dd_parse decode input of
        Inl e \<Rightarrow> Inl (DirenvCodec e)
      | Inr diff \<Rightarrow>
          if dd_new_path diff = [] then Inr None
          else (case dd_each remove_path_from_old_and_new diff to_remove of
              None \<Rightarrow> Inl DirenvJoin
            | Some diff \<Rightarrow>
                (case dd_each add_path_to_old_and_new diff installs of
                   None \<Rightarrow> Inl DirenvJoin
                 | Some diff \<Rightarrow>
                     (case encode diff of
                        Inl e \<Rightarrow> Inl (DirenvCodec e)
                      | Inr s \<Rightarrow> Inr (Some (Change (lit ''DIRENV_DIFF'') s))))))"

section \<open>The new PATH\<close>

text \<open>The state of the loop over the current PATH in \<^verbatim>\<open>build_path_operations\<close>.\<close>

record path_split =
  ps_pre :: "ustr list"
  ps_post_user :: "ustr list"
  ps_orig_reordered :: "ustr list"
  ps_seen_orig :: bool
  ps_seen_in_current :: "ustr list"

definition ps_init :: path_split where
  "ps_init = \<lparr> ps_pre = [], ps_post_user = [], ps_orig_reordered = [], ps_seen_orig = False,
     ps_seen_in_current = [] \<rparr>"

definition split_step ::
    "path_ctx \<Rightarrow> install_ctx \<Rightarrow> ustr list \<Rightarrow> ustr list \<Rightarrow> path_split \<Rightarrow> ustr \<Rightarrow> path_split" where
  "split_step c ic orig_paths to_remove st path =
     (if is_mise_shims_dir c path then st
      else if path_in path orig_paths
      then st\<lparr> ps_seen_orig := True, ps_orig_reordered := ps_orig_reordered st @ [path],
               ps_seen_in_current := path # ps_seen_in_current st \<rparr>
      else if path_in path to_remove then st
      else if is_mise_install_path ic path (mise_install_dirs ic) then st
      else if ps_seen_orig st then st\<lparr> ps_post_user := ps_post_user st @ [path] \<rparr>
      else st\<lparr> ps_pre := ps_pre st @ [path] \<rparr>)"

definition split_current ::
    "path_ctx \<Rightarrow> install_ctx \<Rightarrow> ustr list \<Rightarrow> ustr list \<Rightarrow> ustr list
     \<Rightarrow> ustr list \<times> ustr list \<times> ustr list" where
  "split_current c ic orig_paths to_remove current_paths =
     (let st = foldl (split_step c ic orig_paths to_remove) ps_init current_paths
      in (ps_pre st,
          ps_orig_reordered st
            @ filter (\<lambda>p. \<not> is_mise_shims_dir c p \<and> \<not> path_in p (ps_seen_in_current st)) orig_paths,
          ps_post_user st))"

text \<open>Membership literally or through the canonical form.\<close>

definition in_canonical :: "install_ctx \<Rightarrow> ustr \<Rightarrow> ustr list \<Rightarrow> bool" where
  "in_canonical ic p ps \<longleftrightarrow>
     path_in p ps
     \<or> (case ic_canonicalize ic p of
          None \<Rightarrow> False
        | Some canonical \<Rightarrow> path_in canonical (List.map_filter (ic_canonicalize ic) ps))"

definition shim_farm_dirs ::
    "path_ctx \<Rightarrow> (ustr \<Rightarrow> bool) \<Rightarrow> (ustr \<Rightarrow> ustr \<Rightarrow> bool) \<Rightarrow> ustr list" where
  "shim_farm_dirs c is_dir same_file =
     (let user_shims = pc_shims c; system_shims = pc_system_shims c
      in [user_shims]
         @ (if is_dir system_shims
               \<and> \<not> (paths_eq user_shims system_shims \<or> same_file user_shims system_shims)
            then [system_shims] else []))"

text \<open>The six sections of the new PATH, in order.\<close>

definition new_path_sections ::
    "path_ctx \<Rightarrow> install_ctx \<Rightarrow> bool \<Rightarrow> ustr option \<Rightarrow> ustr list \<Rightarrow> ustr list \<Rightarrow> ustr list
     \<Rightarrow> ustr list \<Rightarrow> ustr list \<Rightarrow> ustr list list" where
  "new_path_sections c ic aggressive mise_orig_path current_paths user_paths tool_paths to_remove shim_dirs =
     (let (pre, post, post_user) =
            (case mise_orig_path of
               Some orig_path \<Rightarrow>
                 if \<not> aggressive
                 then split_current c ic (split_paths orig_path) to_remove current_paths
                 else ([], filter (\<lambda>p. \<not> is_mise_shims_dir c p) current_paths, [])
             | None \<Rightarrow> ([], filter (\<lambda>p. \<not> is_mise_shims_dir c p) current_paths, []));
          tool_paths_filtered =
            filter (\<lambda>p. \<not> in_canonical ic p post \<and> \<not> in_canonical ic p (pre @ post_user)) tool_paths;
          user_paths_filtered = filter (\<lambda>p. \<not> in_canonical ic p (pre @ post_user)) user_paths
      in [pre, user_paths_filtered, tool_paths_filtered, shim_dirs, post, post_user])"

text \<open>
  \<^verbatim>\<open>build_path_operations\<close>: \<open>update\<close> is the call of \<^verbatim>\<open>update_direnv_diff\<close> on the value of
  \<^verbatim>\<open>DIRENV_DIFF\<close> when that variable is set, whose errors are only logged; \<^const>\<open>None\<close> is the
  error of \<^verbatim>\<open>join_paths\<close>.
\<close>

definition build_path_operations ::
    "path_ctx \<Rightarrow> install_ctx \<Rightarrow> bool \<Rightarrow> ustr option \<Rightarrow> ustr list
     \<Rightarrow> (ustr list \<Rightarrow> ustr list \<Rightarrow> 'e direnv_error + env_diff_operation option) option
     \<Rightarrow> ustr list \<Rightarrow> ustr list \<Rightarrow> ustr list \<Rightarrow> bool \<Rightarrow> ustr list \<Rightarrow> env_diff_operation list option" where
  "build_path_operations c ic aggressive mise_orig_path env_path update user_paths tool_paths to_remove
       retain_shims shim_farm =
     (case join_paths env_path of
        None \<Rightarrow> None
      | Some full \<Rightarrow>
          let sections = new_path_sections c ic aggressive mise_orig_path (split_paths full)
                           user_paths tool_paths to_remove (if retain_shims then shim_farm else [])
          in (case join_paths (concat sections) of
                None \<Rightarrow> None
              | Some new_path \<Rightarrow>
                  Some (Add PATH_KEY new_path
                    # (case update of
                         None \<Rightarrow> []
                       | Some f \<Rightarrow>
                           (case f (sections ! 1 @ sections ! 2) to_remove of
                              Inr (Some op) \<Rightarrow> [op]
                            | _ \<Rightarrow> [])))))"

section \<open>The patches of a prompt\<close>

definition cleared_keys :: "env_diff_patches \<Rightarrow> ustr set" where
  "cleared_keys old_patches =
     set (List.map_filter (\<lambda>p. case p of Remove key \<Rightarrow> Some key | _ \<Rightarrow> None) old_patches)"

text \<open>
  The diff for the directory and its patches (\<^verbatim>\<open>HookEnv::run\<close>): variables to remove are
  recorded as old values, and a variable that the undo patches already unset is not unset
  again.
\<close>

definition env_remove_step :: "str_env \<Rightarrow> env_diff \<Rightarrow> ustr \<Rightarrow> env_diff" where
  "env_remove_step pristine diff key =
     (case map_of pristine key of
        Some value \<Rightarrow> diff\<lparr> ed_old := imap_insert key value (ed_old diff) \<rparr>
      | None \<Rightarrow> diff)"

definition hook_diff :: "str_env \<Rightarrow> str_env \<Rightarrow> ustr list \<Rightarrow> env_diff" where
  "hook_diff pristine mise_env env_remove =
     foldl (env_remove_step pristine) (env_diff_new pristine (bt_remove PATH_KEY mise_env)) env_remove"

definition hook_patches :: "shell_ops \<Rightarrow> env_diff \<Rightarrow> ustr set \<Rightarrow> env_diff_patches" where
  "hook_patches shell diff cleared =
     filter (\<lambda>p. case p of Remove k \<Rightarrow> k \<notin> cleared | _ \<Rightarrow> True)
       (if sh_to_string shell = lit ''fish''
        then filter (\<lambda>p. patch_key p \<noteq> PATH_KEY) (to_patches diff)
        else to_patches diff)"

fun patch_to_status :: "env_diff_operation \<Rightarrow> ustr" where
  "patch_to_status (Add k v) = PLUS # k"
| "patch_to_status (Change k v) = 126 # k"
| "patch_to_status (Remove k) = MINUS # k"

text \<open>The changes of the environment that \<^verbatim>\<open>display_status\<close> reports against the previous session.\<close>

definition status_changes ::
    "(ustr \<Rightarrow> ustr) \<Rightarrow> nat \<Rightarrow> (ustr, ustr) imap \<Rightarrow> str_env \<Rightarrow> env_diff_patches" where
  "status_changes digest prev_v prev_env cur_env =
     List.map_filter (\<lambda>(k, v).
         case map_of prev_env k of
           Some prev \<Rightarrow> if env_value_matches digest prev_v prev v then None else Some (Change k [])
         | None \<Rightarrow> Some (Add k [])) cur_env
     @ List.map_filter (\<lambda>(k, _). if map_of cur_env k = None then Some (Remove k) else None) prev_env"

end
