(* ===== verification/Hook_Env_Correct.thy ===== *)
theory Hook_Env_Correct
  imports Hook_Env
begin

text \<open>
  Correctness of the shell hook: how many copies of each directory deactivation leaves on
  PATH and in which order, where every directory of the new PATH comes from, the size bound,
  the undo of the recorded diff, and the bookkeeping in direnv's record.
\<close>

section \<open>Counting maps\<close>

abbreviation pm_find :: "path_map \<Rightarrow> ustr \<Rightarrow> (ustr \<times> nat) option" where
  "pm_find m q \<equiv> find (\<lambda>e. path_eq q (fst e)) m"

lemma pm_get_find: "pm_get m q = map_option snd (pm_find m q)"
  by (induction m q rule: pm_get.induct) simp_all

lemma pm_find_insert:
  "pm_find (pm_insert p n m) q =
     (if path_eq q p
      then Some (case pm_find m q of None \<Rightarrow> p | Some e \<Rightarrow> fst e, n)
      else pm_find m q)"
  by (induction p n m rule: pm_insert.induct) (auto simp: path_eq_def)

lemma pm_find_fold:
  assumes "distinct (map components (map fst kvs))"
  shows "pm_get (foldl (\<lambda>m e. pm_insert (fst e) (g (fst e) (snd e) (pm_get m (fst e))) m) m kvs) q =
    (case pm_find kvs q of None \<Rightarrow> pm_get m q | Some e \<Rightarrow> Some (g (fst e) (snd e) (pm_get m q)))"
  using assms
proof (induction kvs arbitrary: m)
  case Nil
  then show ?case by simp
next
  case (Cons e kvs)
  show ?case
  proof (cases "path_eq q (fst e)")
    case True
    have "pm_find kvs q = None"
      using Cons.prems True by (force simp: find_None_iff path_eq_def)
    with Cons True show ?thesis using pm_get_cong [OF True, of m] by simp
  next
    case False
    with Cons show ?thesis by (simp split: option.split)
  qed
qed

lemma count_paths_snoc:
  "count_paths (ps @ [p]) = pm_insert p (pm_get_or 0 (count_paths ps) p + 1) (count_paths ps)"
  by (simp add: count_paths_def)

lemma count_paths_find:
  "pm_find (count_paths ps) q = map_option (\<lambda>r. (r, path_count q ps)) (find (path_eq q) ps)"
proof (induction ps rule: rev_induct)
  case Nil
  then show ?case by (simp add: count_paths_def)
next
  case (snoc p ps)
  have f: "find (path_eq q) (ps @ [p]) =
      (case find (path_eq q) ps of None \<Rightarrow> if path_eq q p then Some p else None | Some r \<Rightarrow> Some r)"
    by (induction ps) auto
  show ?case
  proof (cases "path_eq q p")
    case True
    have "pm_get (count_paths ps) p = pm_get (count_paths ps) q"
      using True by (metis pm_get_cong)
    then have "pm_get_or 0 (count_paths ps) p = path_count q ps"
    proof (cases "find (path_eq q) ps")
      case None
      then have "\<not> path_in q ps" by (auto simp: find_None_iff path_in_iff)
      then have "path_count q ps = 0" by (simp add: path_count_0_iff)
      with None snoc \<open>pm_get (count_paths ps) p = _\<close> show ?thesis
        by (simp add: pm_get_or_def pm_get_find)
    next
      case (Some r)
      with snoc \<open>pm_get (count_paths ps) p = _\<close> show ?thesis
        by (auto simp: pm_get_or_def pm_get_find)
    qed
    with True snoc f show ?thesis
      by (simp add: count_paths_snoc pm_find_insert split: option.splits)
  next
    case False
    with snoc f show ?thesis
      by (simp add: count_paths_snoc pm_find_insert split: option.splits)
  qed
qed

lemma count_paths_distinct: "distinct (map components (map fst (count_paths ps)))"
proof (induction ps rule: rev_induct)
  case Nil
  then show ?case by (simp add: count_paths_def)
next
  case (snoc p ps)
  then show ?case unfolding count_paths_snoc by (rule pm_insert_distinct)
qed

lemma find_path_eq_None: "find (path_eq q) ps = None \<longleftrightarrow> \<not> path_in q ps"
  by (auto simp: find_None_iff path_in_iff)

lemma find_path_eq_Some: "find (path_eq q) ps = Some r \<Longrightarrow> path_eq q r \<and> path_in q ps"
  by (induction ps) (auto split: if_splits)

lemma count_paths_get: "pm_get_or 0 (count_paths ps) q = path_count q ps"
proof (cases "find (path_eq q) ps")
  case None
  then have "path_count q ps = 0" by (simp add: path_count_0_iff find_path_eq_None)
  with None show ?thesis by (simp add: pm_get_or_def pm_get_find count_paths_find)
next
  case (Some r)
  then show ?thesis by (simp add: pm_get_or_def pm_get_find count_paths_find)
qed

section \<open>The target counts\<close>

text \<open>
  How many copies of a directory deactivation aims for: what was there before activation,
  and for a directory that is not a shim farm also the copies that mise did not add.  Whether
  it is a shim farm is decided on its first spelling on the current PATH.
\<close>

definition target_count :: "path_ctx \<Rightarrow> ustr list \<Rightarrow> ustr list \<Rightarrow> ustr list \<Rightarrow> ustr \<Rightarrow> nat" where
  "target_count c current mise pristine q =
     (case find (path_eq q) current of
        None \<Rightarrow> path_count q pristine
      | Some r \<Rightarrow>
          if is_mise_shims_dir c r then path_count q pristine
          else max (path_count q current - path_count q mise) (path_count q pristine))"

definition deactivation_target :: "path_ctx \<Rightarrow> ustr list \<Rightarrow> ustr list \<Rightarrow> ustr list \<Rightarrow> path_map" where
  "deactivation_target c current mise pristine =
     target_pristine (count_paths pristine)
       (target_current c (count_paths current) (count_paths mise) (count_paths pristine))"

lemma target_current_get:
  "pm_get (target_current c (count_paths current) (count_paths mise) (count_paths pristine)) q =
     (case find (path_eq q) current of
        None \<Rightarrow> None
      | Some r \<Rightarrow>
          Some (if is_mise_shims_dir c r then path_count q pristine
                else max (path_count q current - path_count q mise) (path_count q pristine)))"
proof -
  let ?g = "\<lambda>p n (_ :: nat option). if is_mise_shims_dir c p then path_count p pristine
      else max (n - path_count p mise) (path_count p pristine)"
  have "target_current c (count_paths current) (count_paths mise) (count_paths pristine) =
      foldl (\<lambda>m e. pm_insert (fst e) (?g (fst e) (snd e) (pm_get m (fst e))) m) [] (count_paths current)"
    unfolding target_current_def
    by (intro foldl_cong refl) (auto simp: Let_def count_paths_get)
  then have "pm_get (target_current c (count_paths current) (count_paths mise) (count_paths pristine)) q =
      (case pm_find (count_paths current) q of
         None \<Rightarrow> pm_get [] q | Some e \<Rightarrow> Some (?g (fst e) (snd e) (pm_get [] q)))"
    using pm_find_fold [OF count_paths_distinct, where g = ?g and m = "[]" and q = q] by simp
  then show ?thesis
    using path_count_cong [of q]
    by (auto simp: count_paths_find dest!: find_path_eq_Some split: option.splits)
qed

lemma deactivation_target_get:
  "pm_get_or 0 (deactivation_target c current mise pristine) q = target_count c current mise pristine q
   \<and> (pm_get (deactivation_target c current mise pristine) q = None
        \<longrightarrow> target_count c current mise pristine q = 0)"
proof -
  let ?t = "target_current c (count_paths current) (count_paths mise) (count_paths pristine)"
  let ?g = "\<lambda>(p :: ustr) n t. case t of Some k \<Rightarrow> max k n | None \<Rightarrow> n"
  have "deactivation_target c current mise pristine =
      foldl (\<lambda>m e. pm_insert (fst e) (?g (fst e) (snd e) (pm_get m (fst e))) m) ?t (count_paths pristine)"
    unfolding deactivation_target_def target_pristine_def
    by (intro foldl_cong refl) (auto split: option.split)
  then have "pm_get (deactivation_target c current mise pristine) q =
      (case pm_find (count_paths pristine) q of
         None \<Rightarrow> pm_get ?t q | Some e \<Rightarrow> Some (?g (fst e) (snd e) (pm_get ?t q)))"
    using pm_find_fold [OF count_paths_distinct, where g = ?g and m = ?t and q = q] by simp
  moreover have "find (path_eq q) pristine = None \<Longrightarrow> path_count q pristine = 0"
    by (simp add: find_path_eq_None path_count_0_iff)
  ultimately show ?thesis
    by (cases "find (path_eq q) pristine"; cases "find (path_eq q) current")
      (auto simp: target_count_def pm_get_or_def target_current_get count_paths_find)
qed

section \<open>Keeping and restoring\<close>

lemma pm_get_or_insert:
  "pm_get_or d (pm_insert p n m) q = (if path_eq q p then n else pm_get_or d m q)"
  by (simp add: pm_get_or_def)

lemma pm_get_or_cong: "path_eq p q \<Longrightarrow> pm_get_or d m p = pm_get_or d m q"
  using pm_get_cong by (simp add: pm_get_or_def)

text \<open>One step of the loop, without the pair: what is put out and the updated map.\<close>

lemma keep_current_step:
  "keep_current target kept (p # ps) =
     (let t = pm_get_or 0 target p; k = pm_get_or 0 kept p;
          kept' = (if pm_get target p = None then kept else pm_insert p (if k < t then k + 1 else k) kept);
          r = keep_current target kept' ps
      in (if k < t then p # fst r else fst r, snd r))"
  by (simp add: pm_get_or_def Let_def case_prod_beta split: option.splits)

lemma keep_current_count:
  "path_count q (fst (keep_current target kept ps)) =
     min (path_count q ps) (pm_get_or 0 target q - pm_get_or 0 kept q)
   \<and> pm_get_or 0 (snd (keep_current target kept ps)) q =
       pm_get_or 0 kept q + path_count q (fst (keep_current target kept ps))"
proof (induction ps arbitrary: kept)
  case Nil
  then show ?case by simp
next
  case (Cons p ps)
  define t k where "t = pm_get_or 0 target p" and "k = pm_get_or 0 kept p"
  define kept' where
    "kept' = (if pm_get target p = None then kept else pm_insert p (if k < t then k + 1 else k) kept)"
  have none: "pm_get target p = None \<Longrightarrow> t = 0" by (simp add: t_def pm_get_or_def)
  have step: "keep_current target kept (p # ps) =
      (if k < t then p # fst (keep_current target kept' ps) else fst (keep_current target kept' ps),
       snd (keep_current target kept' ps))"
    unfolding keep_current_step by (simp add: t_def k_def kept'_def Let_def)
  show ?case
  proof (cases "path_eq q p")
    case True
    then have "pm_get_or 0 target q = t" "pm_get_or 0 kept q = k"
      by (simp_all add: t_def k_def pm_get_or_cong)
    moreover have "pm_get_or 0 kept' q = (if k < t then k + 1 else k)"
      using True none calculation(2) by (auto simp: kept'_def pm_get_or_insert)
    ultimately show ?thesis
      using Cons.IH [of kept'] True by (auto simp: step simp del: keep_current.simps)
  next
    case False
    then have "pm_get_or 0 kept' q = pm_get_or 0 kept q"
      by (simp add: kept'_def pm_get_or_insert)
    with Cons.IH [of kept'] False show ?thesis by (auto simp: step simp del: keep_current.simps)
  qed
qed

lemma keep_current_subseq: "subseq (fst (keep_current target kept ps)) ps"
  by (induction ps arbitrary: kept)
    (auto simp: keep_current_step Let_def simp del: keep_current.simps(2) intro: subseq_Cons')

lemma subseq_subset: "subseq xs ys \<Longrightarrow> set xs \<subseteq> set ys"
  by (auto elim: list_emb_set)

lemma path_count_replicate: "path_count q (replicate n p) = (if path_eq q p then n else 0)"
  by (induction n) auto

lemma restore_pristine_count:
  "path_count q (restore_pristine target kept ps) =
     (if path_in q ps then pm_get_or 0 target q - pm_get_or 0 kept q else 0)"
proof (induction target kept ps rule: restore_pristine.induct)
  case (1 target kept)
  then show ?case by simp
next
  case (2 target kept p ps)
  show ?case
  proof (cases "path_eq q p")
    case True
    then have "pm_get_or 0 target q = pm_get_or 0 target p" "pm_get_or 0 kept q = pm_get_or 0 kept p"
      by (simp_all add: pm_get_or_cong)
    with 2 True show ?thesis by (simp add: Let_def path_count_replicate pm_get_or_insert)
  next
    case False
    with 2 show ?thesis by (simp add: Let_def path_count_replicate pm_get_or_insert)
  qed
qed

lemma restore_pristine_set: "set (restore_pristine target kept ps) \<subseteq> set ps"
  by (induction target kept ps rule: restore_pristine.induct) (auto simp: Let_def)

lemma deactivated_paths_eq:
  "deactivated_paths c current mise pristine =
     (let target = deactivation_target c current mise pristine
      in fst (keep_current target [] current)
         @ restore_pristine target (snd (keep_current target [] current)) pristine)"
  by (simp add: deactivated_paths_def deactivation_target_def Let_def case_prod_beta)

lemma target_count_le:
  "path_count q current < target_count c current mise pristine q \<Longrightarrow>
     path_in q pristine"
  using path_count_0_iff [of q pristine]
  by (auto simp: target_count_def max_def split: option.splits if_splits)

lemma deactivated_paths_count:
  "path_count q (deactivated_paths c current mise pristine) = target_count c current mise pristine q"
proof -
  let ?t = "deactivation_target c current mise pristine"
  have t: "pm_get_or 0 ?t q = target_count c current mise pristine q"
    using deactivation_target_get by blast
  have "pm_get_or 0 [] q = 0" by (simp add: pm_get_or_def)
  with t target_count_le [of q current c mise pristine] show ?thesis
    by (cases "path_count q current < target_count c current mise pristine q")
      (simp_all add: deactivated_paths_eq Let_def keep_current_count restore_pristine_count)
qed

lemma deactivated_paths_order:
  "\<exists>kept restored. deactivated_paths c current mise pristine = kept @ restored
     \<and> subseq kept current \<and> set restored \<subseteq> set pristine"
  unfolding deactivated_paths_eq Let_def
  using keep_current_subseq restore_pristine_set by blast

lemma deactivated_path_grows:
  "compute_deactivated_path demo_path_ctx (Some (lit ''/t'')) [lit ''/t''] (Some (lit ''/a:/b'')) env =
     lit ''/a:/b''
   \<and> length (lit ''/t'') < length (lit ''/a:/b'')"
  by (simp add: compute_deactivated_path_def deactivated_paths_def count_paths_def
      target_current_def target_pristine_def demo_path_ctx_def path_simps)

text \<open>
  \<^bold>\<open>C21.\<close> Deactivation leaves on PATH, of every directory, exactly the target number of
  copies: those present before activation, and for a directory that is not a shim farm at
  least the copies that mise did not add.  The result is a subsequence of the live PATH
  followed by pristine directories that had gone missing, and joining it never fails.  So
  the PATH after deactivation can be longer than the live one.
\<close>

theorem deactivated_path_counts:
  assumes "live \<noteq> []" and "mise_paths \<noteq> []"
  shows "(\<exists>result kept restored.
      compute_deactivated_path c (Some live) mise_paths (Some orig) pristine_env = join_with COLON result
    \<and> result = kept @ restored
    \<and> subseq kept (split_paths live) \<and> set restored \<subseteq> set (split_paths orig)
    \<and> (\<forall>p. path_count p result =
          target_count c (split_paths live) mise_paths (split_paths orig) p))
    \<and> (\<exists>c live mise_paths orig.
         length live < length (compute_deactivated_path c (Some live) mise_paths (Some orig) pristine_env))"
    (is "?counts \<and> ?grows")
proof -
  let ?r = "deactivated_paths c (split_paths live) mise_paths (split_paths orig)"
  obtain kept restored where r: "?r = kept @ restored" and k: "subseq kept (split_paths live)"
    and s: "set restored \<subseteq> set (split_paths orig)"
    using deactivated_paths_order by blast
  have "set kept \<subseteq> set (split_paths live)"
    using k by (rule subseq_subset)
  then have "\<forall>p\<in>set ?r. COLON \<notin> set p"
    using s split_paths_no_colon r by (metis Un_iff set_append subsetD)
  then have "compute_deactivated_path c (Some live) mise_paths (Some orig) pristine_env = join_with COLON ?r"
    using assms by (simp add: compute_deactivated_path_def join_paths_Some)
  with r k s deactivated_paths_count have ?counts by metis
  moreover have ?grows using deactivated_path_grows by metis
  ultimately show ?thesis by blast
qed

theorem deactivated_path_counts_witness:
  "path_count (lit ''/b'') (split_paths
      (compute_deactivated_path demo_path_ctx (Some (lit ''/t:/h/shims:/b:/t:/u'')) [lit ''/t'', lit ''/b'']
         (Some (lit ''/a:/b'')) [])) = 1"
proof -
  let ?l = "lit ''/t:/h/shims:/b:/t:/u''" and ?m = "[lit ''/t'', lit ''/b'']" and ?o = "lit ''/a:/b''"
  have l: "?l \<noteq> []" by (simp add: lit_def)
  obtain result kept restored where
      r: "compute_deactivated_path demo_path_ctx (Some ?l) ?m (Some ?o) [] = join_with COLON result"
    and s: "result = kept @ restored" "subseq kept (split_paths ?l)" "set restored \<subseteq> set (split_paths ?o)"
    and n: "path_count (lit ''/b'') result =
      target_count demo_path_ctx (split_paths ?l) ?m (split_paths ?o) (lit ''/b'')"
    using deactivated_path_counts [OF l, of ?m demo_path_ctx ?o "[]"] by auto
  have "set result \<subseteq> set (split_paths ?l) \<union> set (split_paths ?o)"
    using s subseq_subset [OF s(2)] by auto
  then have "\<forall>p\<in>set result. COLON \<notin> set p"
    using split_paths_no_colon by blast
  moreover have t: "target_count demo_path_ctx (split_paths ?l) ?m (split_paths ?o) (lit ''/b'') = 1"
    by (simp add: target_count_def demo_path_ctx_def path_simps)
  moreover have "result \<noteq> []" using n t by auto
  ultimately have "path_count (lit ''/b'') (split_paths (join_with COLON result)) = 1"
    using n by (simp add: split_paths_def split_on_join)
  moreover have "compute_deactivated_path demo_path_ctx (Some ?l) ?m (Some ?o) [] = lit ''/t:/b:/u:/a''"
    by (simp add: compute_deactivated_path_def deactivated_paths_def count_paths_def
        target_current_def target_pristine_def demo_path_ctx_def path_simps numeral_eq_Suc)
  ultimately show ?thesis using r by simp
qed

end
