(* ===== verification/Hook_Path.thy ===== *)
theory Hook_Path
  imports Hook_Env_Correct
begin

text \<open>
  The new PATH of a prompt (\<^verbatim>\<open>build_path_operations\<close>), the size check, the transition of the
  environment from one directory to the next, and direnv's record.
\<close>

section \<open>Where the directories of the new PATH come from\<close>

text \<open>Reference definitions of the classes into which the loop sorts the current PATH.\<close>

definition orig_entry :: "path_ctx \<Rightarrow> ustr list \<Rightarrow> ustr \<Rightarrow> bool" where
  "orig_entry c orig p \<longleftrightarrow> \<not> is_mise_shims_dir c p \<and> path_in p orig"

definition user_entry ::
    "path_ctx \<Rightarrow> install_ctx \<Rightarrow> ustr list \<Rightarrow> ustr list \<Rightarrow> ustr \<Rightarrow> bool" where
  "user_entry c ic orig to_remove p \<longleftrightarrow>
     \<not> is_mise_shims_dir c p \<and> \<not> path_in p orig \<and> \<not> path_in p to_remove
     \<and> \<not> is_mise_install_path ic p (mise_install_dirs ic)"

lemma split_step_cases:
  "split_step c ic orig tr st p =
     (if orig_entry c orig p
      then st\<lparr> ps_seen_orig := True, ps_orig_reordered := ps_orig_reordered st @ [p],
               ps_seen_in_current := p # ps_seen_in_current st \<rparr>
      else if user_entry c ic orig tr p
      then (if ps_seen_orig st then st\<lparr> ps_post_user := ps_post_user st @ [p] \<rparr>
            else st\<lparr> ps_pre := ps_pre st @ [p] \<rparr>)
      else st)"
  by (simp add: split_step_def orig_entry_def user_entry_def)

lemma user_not_orig: "user_entry c ic orig tr p \<Longrightarrow> \<not> orig_entry c orig p"
  by (simp add: orig_entry_def user_entry_def)

lemma split_loop:
  "foldl (split_step c ic orig tr) st ps =
     st\<lparr> ps_seen_orig := ps_seen_orig st \<or> (\<exists>p\<in>set ps. orig_entry c orig p),
         ps_orig_reordered := ps_orig_reordered st @ filter (orig_entry c orig) ps,
         ps_seen_in_current := rev (filter (orig_entry c orig) ps) @ ps_seen_in_current st,
         ps_pre := ps_pre st @ filter (user_entry c ic orig tr)
           (if ps_seen_orig st then [] else takeWhile (\<lambda>p. \<not> orig_entry c orig p) ps),
         ps_post_user := ps_post_user st @ filter (user_entry c ic orig tr)
           (if ps_seen_orig st then ps else dropWhile (\<lambda>p. \<not> orig_entry c orig p) ps) \<rparr>"
proof (induction ps arbitrary: st)
  case Nil
  then show ?case by simp
next
  case (Cons p ps)
  show ?case
    using user_not_orig [of c ic orig tr p]
    by (cases "orig_entry c orig p"; cases "user_entry c ic orig tr p"; cases "ps_seen_orig st")
      (simp_all add: Cons.IH split_step_cases [of _ _ _ _ st p])
qed

lemma path_in_rev [simp]: "path_in p (rev ps) = path_in p ps"
  by (simp add: path_in_def)

lemma split_current_eq:
  "split_current c ic orig tr current =
     (filter (user_entry c ic orig tr) (takeWhile (\<lambda>p. \<not> orig_entry c orig p) current),
      filter (orig_entry c orig) current
        @ filter (\<lambda>p. \<not> is_mise_shims_dir c p \<and> \<not> path_in p (filter (orig_entry c orig) current)) orig,
      filter (user_entry c ic orig tr) (dropWhile (\<lambda>p. \<not> orig_entry c orig p) current))"
  by (simp add: split_current_def split_loop ps_init_def Let_def)

text \<open>
  The loop over the current PATH is equivalent to a sort by provenance: the entries
  the user added, in their order, are those before and those after the first original entry;
  the original entries follow in their current order, then the original ones that are
  missing; shim directories, directories of the previous session and stale install
  directories are dropped.  A tool directory that any of these already provides, literally
  or through its canonical form, is not added a second time.
\<close>

definition sorted_sections ::
    "path_ctx \<Rightarrow> install_ctx \<Rightarrow> ustr list \<Rightarrow> ustr list \<Rightarrow> ustr list \<Rightarrow> ustr list \<Rightarrow> ustr list \<Rightarrow> ustr list \<Rightarrow> ustr list list" where
  "sorted_sections c ic os current user_paths tool_paths to_remove shim_dirs =
     (let user = user_entry c ic os to_remove;
          pre = filter user (takeWhile (\<lambda>p. \<not> orig_entry c os p) current);
          post_user = filter user (dropWhile (\<lambda>p. \<not> orig_entry c os p) current);
          kept = filter (orig_entry c os) current;
          post = kept @ filter (\<lambda>p. \<not> is_mise_shims_dir c p \<and> \<not> path_in p kept) os
      in [pre,
          filter (\<lambda>p. \<not> in_canonical ic p (pre @ post_user)) user_paths,
          filter (\<lambda>p. \<not> in_canonical ic p post \<and> \<not> in_canonical ic p (pre @ post_user)) tool_paths,
          shim_dirs, post, post_user])"

lemma new_path_sections_eq:
  "new_path_sections c ic False (Some orig) current user_paths tool_paths to_remove shim_dirs =
     sorted_sections c ic (split_paths orig) current user_paths tool_paths to_remove shim_dirs"
  by (simp add: new_path_sections_def sorted_sections_def split_current_eq Let_def)


definition demo_install_ctx :: install_ctx where
  "demo_install_ctx = \<lparr> ic_installs = lit ''/i'', ic_install_store = lit ''/i'',
     ic_shared_install_dirs = [], ic_canonicalize = (\<lambda>_. None) \<rparr>"


section \<open>The size bound\<close>

text \<open>The string \<^verbatim>\<open>NAME=value\<close> of a patch with its terminating NUL.\<close>

definition env_string_len :: "env_diff_operation \<Rightarrow> nat" where
  "env_string_len p = (case patch_val p of Some v \<Rightarrow> byte_len (patch_key p) + byte_len v + 2 | None \<Rightarrow> 0)"

text \<open>
  \<^bold>\<open>C23.\<close> The size check accepts a list of patches exactly when every variable it would set
  fits in 128 KiB with its name, the equals sign and the terminating NUL; otherwise it
  reports the first one that does not.
\<close>

theorem ensure_env_fits_iff:
  "ensure_env_fits patches =
     (case find (\<lambda>p. env_string_len p > 131072) patches of
        None \<Rightarrow> Inr ()
      | Some p \<Rightarrow> Inl (EnvTooLarge (patch_key p)
          (case patch_val p of Some v \<Rightarrow> byte_len v | None \<Rightarrow> 0)))"
  by (induction patches rule: ensure_env_fits.induct)
    (auto simp: env_string_len_def MAX_ENV_STRING_LEN_def split: env_diff_operation.splits)

section \<open>From one directory to the next\<close>

lemma ed_wf_env_remove: "ed_wf d \<Longrightarrow> ed_wf (foldl (env_remove_step pristine) d ks)"
proof (induction ks arbitrary: d)
  case Nil
  then show ?case by simp
next
  case (Cons k ks)
  have "ed_wf (env_remove_step pristine d k)"
    using Cons.prems
    by (auto simp: env_remove_step_def ed_wf_def distinct_imap_insert split: option.splits)
  with Cons.IH show ?case by simp
qed

lemma ed_wf_hook_diff [simp, intro]: "ed_wf (hook_diff pristine mise_env env_remove)"
  by (simp add: hook_diff_def ed_wf_env_remove)

lemma env_remove_old:
  "map_of (ed_old (foldl (env_remove_step pristine) d ks)) k =
     (if k \<in> set ks \<and> map_of pristine k \<noteq> None then map_of pristine k else map_of (ed_old d) k)
   \<and> ed_new (foldl (env_remove_step pristine) d ks) = ed_new d"
proof (induction ks arbitrary: d)
  case Nil
  then show ?case by simp
next
  case (Cons j ks)
  show ?case
    using Cons.IH [of "env_remove_step pristine d j"]
    by (cases "map_of pristine j") (auto simp: env_remove_step_def)
qed

text \<open>The two maps of the diff of a directory, key by key.\<close>

lemma hook_diff_maps:
  assumes "bt_wf mise_env" and "k \<noteq> PATH_KEY"
  shows "map_of (ed_new (hook_diff pristine mise_env env_remove)) k =
      (if map_of mise_env k = map_of pristine k then None else map_of mise_env k)"
    and "map_of (ed_old (hook_diff pristine mise_env env_remove)) k =
      (if k \<in> set env_remove \<and> map_of pristine k \<noteq> None then map_of pristine k
       else if map_of mise_env k = map_of pristine k \<or> map_of mise_env k = None then None
       else map_of pristine k)"
proof -
  have d: "distinct (map fst (bt_remove PATH_KEY mise_env))"
    using assms(1) by (simp add: bt_wf_distinct)
  show "map_of (ed_new (hook_diff pristine mise_env env_remove)) k =
      (if map_of mise_env k = map_of pristine k then None else map_of mise_env k)"
    using assms(2) env_remove_old
    by (auto simp: hook_diff_def env_diff_new_new [OF d] split: option.splits)
  show "map_of (ed_old (hook_diff pristine mise_env env_remove)) k =
      (if k \<in> set env_remove \<and> map_of pristine k \<noteq> None then map_of pristine k
       else if map_of mise_env k = map_of pristine k \<or> map_of mise_env k = None then None
       else map_of pristine k)"
    using assms(2)
    by (auto simp: hook_diff_def env_remove_old env_diff_new_old [OF d] split: option.splits)
qed

text \<open>The last patch of a variable decides.\<close>

lemma apply_patches_last:
  "apply_patches ps m k =
     (case find (\<lambda>p. patch_key p = k) (rev ps) of None \<Rightarrow> m k | Some p \<Rightarrow> patch_val p)"
  by (induction ps rule: rev_induct) (simp_all add: apply_patches_append)

lemma find_filter_weaker: "(\<And>x. P x \<Longrightarrow> Q x) \<Longrightarrow> find P (filter Q xs) = find P xs"
  by (induction xs) auto

lemma apply_patches_filter_key:
  assumes "k \<noteq> K"
  shows "apply_patches (filter (\<lambda>p. patch_key p \<noteq> K) ps) m k = apply_patches ps m k"
proof -
  have "find (\<lambda>p. patch_key p = k) (filter (\<lambda>p. patch_key p \<noteq> K) (rev ps)) =
      find (\<lambda>p. patch_key p = k) (rev ps)"
    using assms by (intro find_filter_weaker) simp
  then show ?thesis by (simp add: apply_patches_last rev_filter)
qed

lemma Remove_in_old_patches:
  "Remove k \<in> set (map (\<lambda>(k, _). case n k of Some v \<Rightarrow> Change k v | None \<Rightarrow> Remove k) kvs) \<longleftrightarrow>
     map_of kvs k \<noteq> None \<and> n k = None"
  by (induction kvs) (auto split: option.splits)

lemma Remove_in_to_patches:
  "Remove k \<in> set (to_patches d) \<longleftrightarrow> map_of (ed_old d) k \<noteq> None \<and> map_of (ed_new d) k = None"
proof -
  have "Remove k \<notin> set (List.map_filter
      (\<lambda>(k, v). if map_of (ed_old d) k = None then Some (Add k v) else None) (ed_new d))"
    by (auto simp: in_set_map_filter split: if_splits)
  then show ?thesis
    using Remove_in_old_patches [of k "map_of (ed_new d)" "ed_old d"]
    by (simp only: to_patches_def set_append Un_iff simp_thms)
qed

lemma hook_diff_new_PATH:
  "bt_wf mise_env \<Longrightarrow> map_of (ed_new (hook_diff pristine mise_env env_remove)) PATH_KEY = None"
  using env_remove_old [of pristine _ env_remove]
  by (simp add: hook_diff_def env_diff_new_new bt_wf_distinct)

lemma in_cleared_keys: "j \<in> cleared_keys ps \<longleftrightarrow> Remove j \<in> set ps"
proof -
  have "(case p of Remove key \<Rightarrow> Some key | _ \<Rightarrow> None) = Some j \<longleftrightarrow> p = Remove j" for p
    by (cases p) auto
  then show ?thesis by (simp add: cleared_keys_def in_set_map_filter)
qed

text \<open>The patches that undo the previous directory, at every variable but PATH.\<close>

lemma apply_clear_old_env:
  assumes "ed_wf d" and "k \<noteq> PATH_KEY"
  shows "apply_patches (clear_old_env_patches shell d new_path) m k =
    (if map_of (ed_new d) k = None \<and> map_of (ed_old d) k = None then m k else map_of (ed_old d) k)"
proof -
  have w: "ed_wf (ed_reverse d)" using assms(1) by simp
  have "apply_patches (clear_old_env_patches shell d new_path) m k =
      apply_patches (to_patches (ed_reverse d)) m k"
    using assms(2)
    by (simp add: clear_old_env_patches_def Let_def apply_patches_append apply_patches_filter_key)
  also have "\<dots> = (if map_of (ed_new d) k = None \<and> map_of (ed_old d) k = None then m k
      else map_of (ed_old d) k)"
    unfolding apply_to_patches [OF w] by (auto simp: ed_reverse_def)
  finally show ?thesis .
qed

lemma hook_patches_apply:
  assumes "ed_wf d" and "k \<noteq> PATH_KEY"
    and "\<And>j. Remove j \<in> set (to_patches d) \<Longrightarrow> j \<notin> cleared"
  shows "apply_patches (hook_patches shell d cleared) m k = apply_patches (to_patches d) m k"
proof -
  have "filter (\<lambda>p. case p of Remove j \<Rightarrow> j \<notin> cleared | _ \<Rightarrow> True) ps = ps"
    if "set ps \<subseteq> set (to_patches d)" for ps
    using that assms(3) by (auto simp: filter_id_conv split: env_diff_operation.splits)
  then have "hook_patches shell d cleared =
      (if sh_to_string shell = lit ''fish'' then filter (\<lambda>p. patch_key p \<noteq> PATH_KEY) (to_patches d)
       else to_patches d)"
    by (simp add: hook_patches_def)
  then show ?thesis using assms(2) by (simp add: apply_patches_filter_key)
qed

text \<open>
  \<^bold>\<open>C24.\<close> A prompt in a new directory, composed of the undo of the recorded diff of the
  previous directory and the patches of the new one: whatever shell is used, every variable
  except PATH then has the value the new directory gives it, is unset when the new directory
  removes it, and otherwise has its pristine value, whatever the previous directory had set
  or removed.
\<close>

theorem hook_env_transition:
  assumes "bt_wf env_a" and "bt_wf env_b" and "k \<noteq> PATH_KEY"
    and "set remove_b \<inter> dom (map_of env_b) = {}"
  shows "let recorded = ed_wire digest {} (hook_diff pristine env_a remove_a);
             live = apply_patches (to_patches (hook_diff pristine env_a remove_a)) (map_of pristine);
             undo = clear_old_env_patches shell recorded path;
             patches = hook_patches shell (hook_diff pristine env_b remove_b) (cleared_keys undo)
         in apply_patches patches (apply_patches undo live) k =
              (if k \<in> set remove_b then None
               else case map_of env_b k of Some v \<Rightarrow> Some v | None \<Rightarrow> map_of pristine k)"
proof -
  let ?da = "hook_diff pristine env_a remove_a" and ?db = "hook_diff pristine env_b remove_b"
  let ?w = "ed_wire digest {} ?da"
  let ?live = "apply_patches (to_patches ?da) (map_of pristine)"
  let ?undo = "clear_old_env_patches shell ?w path"
  have ww: "ed_wf ?w" by (simp add: ed_wf_wire)
  have undone: "apply_patches ?undo ?live k = map_of pristine k"
    using assms(1,3)
    by (auto simp: apply_clear_old_env [OF ww assms(3)] ed_wire_old ed_wire_new
        apply_to_patches [OF ed_wf_hook_diff] hook_diff_maps split: if_splits)
  have cleared: "j \<notin> cleared_keys ?undo" if "Remove j \<in> set (to_patches ?db)" for j
  proof
    assume "j \<in> cleared_keys ?undo"
    then have "Remove j \<in> set ?undo" by (simp only: in_cleared_keys)
    then have u: "Remove j \<in> set (to_patches (ed_reverse ?w))"
      by (auto simp: clear_old_env_patches_def Let_def split: if_splits)
    have p: "map_of (ed_old ?db) j \<noteq> None" "map_of (ed_new ?db) j = None"
      and q: "map_of (ed_new ?da) j \<noteq> None" "map_of (ed_old ?da) j = None"
      using that u by (simp_all add: Remove_in_to_patches ed_reverse_def ed_wire_old ed_wire_new)
    from q(1) hook_diff_new_PATH [OF assms(1)] have "j \<noteq> PATH_KEY" by metis
    with p q assms(1,2) show False by (simp add: hook_diff_maps split: if_splits)
  qed
  have "apply_patches (hook_patches shell ?db (cleared_keys ?undo)) (apply_patches ?undo ?live) k =
      apply_patches (to_patches ?db) (apply_patches ?undo ?live) k"
    using assms(3) cleared by (intro hook_patches_apply) auto
  also have "\<dots> = (if k \<in> set remove_b then None
               else case map_of env_b k of Some v \<Rightarrow> Some v | None \<Rightarrow> map_of pristine k)"
    using assms(2-4)
    by (auto simp: apply_to_patches [OF ed_wf_hook_diff] hook_diff_maps undone split: option.splits)
  finally show ?thesis by (simp add: Let_def)
qed

definition demo_shell :: shell_ops where
  "demo_shell = \<lparr> sh_to_string = lit ''fish'', sh_set_env = (\<lambda>k v. k), sh_unset_env = (\<lambda>k. k),
     sh_set_alias = (\<lambda>k v. k), sh_unset_alias = (\<lambda>k. k) \<rparr>"

theorem hook_env_transition_witness:
  "bt_wf [(lit ''A'', lit ''1'')] \<and> bt_wf [(lit ''B'', lit ''2'')] \<and> lit ''A'' \<noteq> PATH_KEY
   \<and> set [] \<inter> dom (map_of [(lit ''B'', lit ''2'')]) = {}
   \<and> (let recorded = ed_wire id {} (hook_diff [(lit ''A'', lit ''0'')] [(lit ''A'', lit ''1'')] []);
          live = apply_patches (to_patches (hook_diff [(lit ''A'', lit ''0'')] [(lit ''A'', lit ''1'')] []))
                   (map_of [(lit ''A'', lit ''0'')]);
          undo = clear_old_env_patches demo_shell recorded (lit ''/b'');
          patches = hook_patches demo_shell (hook_diff [(lit ''A'', lit ''0'')] [(lit ''B'', lit ''2'')] [])
                      (cleared_keys undo)
      in apply_patches patches (apply_patches undo live) (lit ''A'') = Some (lit ''0''))"
proof -
  have a: "bt_wf [(lit ''A'', lit ''1'')]" and b: "bt_wf [(lit ''B'', lit ''2'')]"
    by (simp_all add: bt_wf_def)
  have k: "lit ''A'' \<noteq> PATH_KEY" by (simp add: PATH_KEY_def lit_def)
  have r: "set [] \<inter> dom (map_of [(lit ''B'', lit ''2'')]) = {}" by simp
  show ?thesis
    using a b k hook_env_transition [OF a b k r, of id "[(lit ''A'', lit ''0'')]" "[]" demo_shell "lit ''/b''"]
    by (simp add: Let_def) (simp add: lit_def)
qed

section \<open>direnv's record\<close>

lemma dd_store_split:
  assumes "\<forall>p\<in>set old. COLON \<notin> set p" and "\<forall>p\<in>set new. COLON \<notin> set p"
  shows "dd_store d old new =
    Some (d\<lparr> dd_old := (dd_old d)(PATH_KEY \<mapsto> join_with COLON old),
            dd_new := (dd_new d)(PATH_KEY \<mapsto> join_with COLON new) \<rparr>)"
  using assms by (simp add: dd_store_def join_paths_Some)

definition demo_direnv :: direnv_diff where
  "demo_direnv = \<lparr> dd_old = [PATH_KEY \<mapsto> lit ''/m''], dd_new = [PATH_KEY \<mapsto> lit ''/m:/n''] \<rparr>"

lemma direnv_empty_entry:
  "map_option (\<lambda>d. dd_old d PATH_KEY)
     (Option.bind (remove_path_from_old_and_new demo_direnv (lit ''/m''))
        (\<lambda>d. add_path_to_old_and_new d (lit ''/t''))) = Some (Some (lit ''/t:''))"
  by (simp add: demo_direnv_def remove_path_from_old_and_new_def add_path_to_old_and_new_def
      dd_old_path_def dd_new_path_def dd_store_def path_simps)

text \<open>
  \<^bold>\<open>C25.\<close> Adding a directory without a colon to both PATHs of direnv's record always
  succeeds and puts it first in both, and removing it again gives back the record it was
  added to, provided both PATHs were there.  But removing the only directory of a PATH and
  adding another one leaves an empty entry, which a shell reads as the current directory: an
  empty PATH is written as the empty string, which splits into one empty entry.
\<close>

theorem direnv_add_remove:
  assumes "dd_old d PATH_KEY = Some old" and "dd_new d PATH_KEY = Some new" and "COLON \<notin> set path"
  shows "(\<exists>d'. add_path_to_old_and_new d path = Some d'
      \<and> dd_old_path d' = path # dd_old_path d \<and> dd_new_path d' = path # dd_new_path d
      \<and> remove_path_from_old_and_new d' path = Some d)
    \<and> (\<exists>d path path'. map_option (\<lambda>d. dd_old d PATH_KEY)
        (Option.bind (remove_path_from_old_and_new d path) (\<lambda>d. add_path_to_old_and_new d path'))
          = Some (Some (path' @ [COLON])))" (is "?restored \<and> ?empty")
proof -
  let ?d = "d\<lparr> dd_old := (dd_old d)(PATH_KEY \<mapsto> join_with COLON (path # split_paths old)),
            dd_new := (dd_new d)(PATH_KEY \<mapsto> join_with COLON (path # split_paths new)) \<rparr>"
  have c: "\<forall>p\<in>set (path # split_paths s). COLON \<notin> set p" for s
    using assms(3) split_paths_no_colon by auto
  have "add_path_to_old_and_new d path = Some ?d"
    using assms(1,2) dd_store_split [OF c c, of d old new]
    by (simp only: add_path_to_old_and_new_def dd_old_path_def dd_new_path_def option.case)
  moreover have "split_paths (join_with COLON (path # split_paths s)) = path # split_paths s" for s
    unfolding split_paths_def using c [of s] by (intro split_on_join) (auto simp: split_paths_def)
  then have p: "dd_old_path ?d = path # split_paths old" "dd_new_path ?d = path # split_paths new"
    by (simp_all add: dd_old_path_def dd_new_path_def)
  moreover have "remove_path_from_old_and_new ?d path =
      Some (?d\<lparr> dd_old := (dd_old ?d)(PATH_KEY \<mapsto> old), dd_new := (dd_new ?d)(PATH_KEY \<mapsto> new) \<rparr>)"
    unfolding remove_path_from_old_and_new_def p
    by (simp add: dd_store_def)
  moreover have "?d\<lparr> dd_old := (dd_old ?d)(PATH_KEY \<mapsto> old), dd_new := (dd_new ?d)(PATH_KEY \<mapsto> new) \<rparr> = d"
    using assms(1,2) by (simp add: map_upd_triv)
  ultimately have ?restored using assms(1,2) by (simp add: dd_old_path_def dd_new_path_def)
  moreover have ?empty
    using direnv_empty_entry
    by (intro exI [of _ demo_direnv] exI [of _ "lit ''/m''"] exI [of _ "lit ''/t''"]) (simp add: lit_def)
  ultimately show ?thesis by blast
qed

theorem direnv_add_remove_witness:
  "dd_old demo_direnv PATH_KEY = Some (lit ''/m'') \<and> dd_new demo_direnv PATH_KEY = Some (lit ''/m:/n'')
   \<and> COLON \<notin> set (lit ''/t'')
   \<and> (\<exists>d'. add_path_to_old_and_new demo_direnv (lit ''/t'') = Some d'
         \<and> dd_old_path d' = [lit ''/t'', lit ''/m'']
         \<and> remove_path_from_old_and_new d' (lit ''/t'') = Some demo_direnv)"
proof -
  have o: "dd_old demo_direnv PATH_KEY = Some (lit ''/m'')"
    and n: "dd_new demo_direnv PATH_KEY = Some (lit ''/m:/n'')"
    by (simp_all add: demo_direnv_def)
  have c: "COLON \<notin> set (lit ''/t'')" by (simp add: lit_def)
  have "dd_old_path demo_direnv = [lit ''/m'']"
    by (simp add: dd_old_path_def o split_paths_def lit_def)
  with direnv_add_remove [OF o n c] o n c show ?thesis by auto
qed

end
