(* ===== verification/Task_Cycles.thy ===== *)
theory Task_Cycles
  imports Mise_Prelude
begin

text \<open>
  The search for dependency cycles between tasks, \<^verbatim>\<open>find_cycles\<close> of \<^verbatim>\<open>src/task/deps.rs\<close>: for
  every strongly connected component, a depth-first walk with an explicit stack from each
  node enumerates the simple cycles whose smallest node it is.  The graph is seen through the
  calls the code makes: the neighbours of a node in outgoing direction, the test for an edge,
  and the components that petgraph's \<^verbatim>\<open>kosaraju_scc\<close> returns.  Node indices are numbers.
\<close>

section \<open>The model\<close>

text \<open>
  A frame of the stack is a node, its neighbours inside the component in index order, and the
  position of the next one.  The top of the stack is the head of the list.
\<close>

type_synonym frame = "nat \<times> nat list \<times> nat"

record fc_state =
  fc_path :: "nat list"
  fc_in_path :: "nat set"
  fc_stack :: "frame list"
  fc_cycles :: "nat list list"

definition fc_deps :: "(nat \<Rightarrow> nat list) \<Rightarrow> nat set \<Rightarrow> nat \<Rightarrow> nat list" where
  "fc_deps succ cmp n = sort (filter (\<lambda>m. m \<in> cmp) (succ n))"

definition reached_limit :: "nat option \<Rightarrow> nat list list \<Rightarrow> bool" where
  "reached_limit limit cycles = (case limit of None \<Rightarrow> False | Some l \<Rightarrow> length cycles \<ge> l)"

text \<open>
  One iteration of the \<^verbatim>\<open>while\<close> loop: \<^const>\<open>Inl\<close> is the early return from \<^verbatim>\<open>find_cycles\<close> when
  the limit is reached.
\<close>

definition fc_step ::
    "(nat \<Rightarrow> nat list) \<Rightarrow> nat set \<Rightarrow> nat option \<Rightarrow> nat \<Rightarrow> fc_state \<Rightarrow> nat list list + fc_state" where
  "fc_step succ cmp limit start st =
     (case fc_stack st of
        [] \<Rightarrow> Inr st
      | (node, dependencies, nxt) # rest \<Rightarrow>
          if nxt < length dependencies
          then (let dependency = dependencies ! nxt;
                    st = st\<lparr> fc_stack := (node, dependencies, nxt + 1) # rest \<rparr>
                in if dependency = start
                   then (let cycles = fc_cycles st @ [fc_path st @ [start]]
                         in if reached_limit limit cycles then Inl cycles
                            else Inr (st\<lparr> fc_cycles := cycles \<rparr>))
                   else if dependency \<ge> start \<and> dependency \<notin> fc_in_path st
                   then Inr (st\<lparr> fc_in_path := insert dependency (fc_in_path st),
                                fc_path := fc_path st @ [dependency],
                                fc_stack := (dependency, fc_deps succ cmp dependency, 0) # fc_stack st \<rparr>)
                   else Inr st)
          else Inr (st\<lparr> fc_stack := rest, fc_path := butlast (fc_path st),
                       fc_in_path := fc_in_path st - {node} \<rparr>))"

partial_function (option) fc_loop ::
    "(nat \<Rightarrow> nat list) \<Rightarrow> nat set \<Rightarrow> nat option \<Rightarrow> nat \<Rightarrow> fc_state
     \<Rightarrow> (nat list list + nat list list) option" where
  "fc_loop succ cmp limit start st =
     (if fc_stack st = [] then Some (Inr (fc_cycles st))
      else case fc_step succ cmp limit start st of
             Inl cycles \<Rightarrow> Some (Inl cycles)
           | Inr st' \<Rightarrow> fc_loop succ cmp limit start st')"

text \<open>The \<^verbatim>\<open>for\<close> loop over the start nodes of one component, and over the components.\<close>

fun fc_starts ::
    "(nat \<Rightarrow> nat list) \<Rightarrow> nat set \<Rightarrow> nat option \<Rightarrow> nat list \<Rightarrow> nat list list
     \<Rightarrow> (nat list list + nat list list) option" where
  "fc_starts succ cmp limit [] cycles = Some (Inr cycles)"
| "fc_starts succ cmp limit (start # starts) cycles =
     (case fc_loop succ cmp limit start
             \<lparr> fc_path = [start], fc_in_path = {start},
               fc_stack = [(start, fc_deps succ cmp start, 0)], fc_cycles = cycles \<rparr> of
        None \<Rightarrow> None
      | Some (Inl cycles') \<Rightarrow> Some (Inl cycles')
      | Some (Inr cycles') \<Rightarrow> fc_starts succ cmp limit starts cycles')"

fun fc_components ::
    "(nat \<Rightarrow> nat list) \<Rightarrow> (nat \<Rightarrow> nat \<Rightarrow> bool) \<Rightarrow> nat option \<Rightarrow> nat list list \<Rightarrow> nat list list
     \<Rightarrow> nat list list option" where
  "fc_components succ find_edge limit [] cycles = Some cycles"
| "fc_components succ find_edge limit (component # rest) cycles =
     (let cmp = set component in
      if card cmp = 1
      then (let node = hd (sort component);
                cycles = (if find_edge node node then cycles @ [[node, node]] else cycles)
            in if reached_limit limit cycles then Some cycles
               else fc_components succ find_edge limit rest cycles)
      else (case fc_starts succ cmp limit (sort (remdups component)) cycles of
              None \<Rightarrow> None
            | Some (Inl cycles') \<Rightarrow> Some cycles'
            | Some (Inr cycles') \<Rightarrow> fc_components succ find_edge limit rest cycles'))"

definition find_cycles ::
    "(nat \<Rightarrow> nat list) \<Rightarrow> (nat \<Rightarrow> nat \<Rightarrow> bool) \<Rightarrow> nat list list \<Rightarrow> nat option \<Rightarrow> nat list list option" where
  "find_cycles succ find_edge sccs limit = fc_components succ find_edge limit sccs []"

section \<open>A recursive reference\<close>

text \<open>All ways to close the path to a cycle, in the order of the walk.\<close>

function closings :: "(nat \<Rightarrow> nat list) \<Rightarrow> nat set \<Rightarrow> nat \<Rightarrow> nat list \<Rightarrow> nat list list" where
  "closings succ cmp start path =
     (if finite cmp
      then concat (map (\<lambda>d.
          if d = start then [path @ [start]]
          else if d \<ge> start \<and> d \<in> cmp \<and> d \<notin> set path then closings succ cmp start (path @ [d])
          else []) (fc_deps succ cmp (last path)))
      else [])"
  by pat_completeness auto
termination
proof (relation "measure (\<lambda>(succ, cmp, start, path). card (cmp - set path))", goal_cases)
  case 1
  show ?case by simp
next
  case (2 succ cmp start path d)
  have "card (cmp - set (path @ [d])) < card (cmp - set path)"
    by (rule psubset_card_mono) (use 2 in auto)
  then show ?case by simp
qed

declare closings.simps [simp del]

text \<open>The part of the closings that go through the given next nodes.\<close>

definition closings_via ::
    "(nat \<Rightarrow> nat list) \<Rightarrow> nat set \<Rightarrow> nat \<Rightarrow> nat list \<Rightarrow> nat list \<Rightarrow> nat list list" where
  "closings_via succ cmp start path ds =
     concat (map (\<lambda>d.
        if d = start then [path @ [start]]
        else if d \<ge> start \<and> d \<in> cmp \<and> d \<notin> set path then closings succ cmp start (path @ [d])
        else []) ds)"

lemma closings_via_all:
  "finite cmp \<Longrightarrow> closings succ cmp start path = closings_via succ cmp start path (fc_deps succ cmp (last path))"
  by (subst closings.simps) (simp add: closings_via_def)

lemma closings_via_Nil [simp]: "closings_via succ cmp start path [] = []"
  by (simp add: closings_via_def)

lemma closings_via_Cons:
  "closings_via succ cmp start path (d # ds) =
     (if d = start then [path @ [start]]
      else if d \<ge> start \<and> d \<in> cmp \<and> d \<notin> set path then closings succ cmp start (path @ [d])
      else []) @ closings_via succ cmp start path ds"
  by (simp add: closings_via_def)

section \<open>The loop computes the reference\<close>

text \<open>
  Continue with a list of cycles: with a limit, the walk stops as soon as the limit is
  reached, and what it returns is the prefix of that length.
\<close>

definition continue_with ::
    "nat option \<Rightarrow> nat list list \<Rightarrow> (nat list list \<Rightarrow> (nat list list + nat list list) option)
     \<Rightarrow> (nat list list + nat list list) option" where
  "continue_with limit cycles k =
     (case limit of
        None \<Rightarrow> k cycles
      | Some l \<Rightarrow> if length cycles \<ge> l then Some (Inl (take l cycles)) else k cycles)"

lemma continue_with_append:
  "continue_with limit (a @ b) k = continue_with limit a (\<lambda>c. continue_with limit (c @ b) k)"
  by (auto simp: continue_with_def split: option.splits)

lemma continue_with_below: "\<not> reached_limit limit cycles \<Longrightarrow> continue_with limit cycles k = k cycles"
  by (auto simp: continue_with_def reached_limit_def split: option.splits)

lemma continue_with_cong:
  "(\<not> reached_limit limit cycles \<Longrightarrow> k cycles = k' cycles) \<Longrightarrow>
     continue_with limit cycles k = continue_with limit cycles k'"
  by (auto simp: continue_with_def reached_limit_def split: option.splits)

lemma continue_with_exact:
  "\<not> reached_limit limit cycles \<Longrightarrow> reached_limit limit (cycles @ [c]) \<Longrightarrow>
     continue_with limit (cycles @ c # cs) k = Some (Inl (cycles @ [c]))"
  by (cases limit; cases "the limit - length cycles")
    (auto simp: continue_with_def reached_limit_def)

lemma fc_loop_step:
  "fc_stack st \<noteq> [] \<Longrightarrow> fc_step succ cmp limit start st = Inr st' \<Longrightarrow>
     fc_loop succ cmp limit start st = fc_loop succ cmp limit start st'"
  by (subst fc_loop.simps) simp

lemma fc_loop_stop:
  "fc_stack st \<noteq> [] \<Longrightarrow> fc_step succ cmp limit start st = Inl cycles \<Longrightarrow>
     fc_loop succ cmp limit start st = Some (Inl cycles)"
  by (subst fc_loop.simps) simp

lemma fc_loop_done: "fc_stack st = [] \<Longrightarrow> fc_loop succ cmp limit start st = Some (Inr (fc_cycles st))"
  by (subst fc_loop.simps) simp

text \<open>The states of the walk: the set of nodes on the path is the path's.\<close>

abbreviation walk_state :: "nat list \<Rightarrow> frame list \<Rightarrow> nat list list \<Rightarrow> fc_state" where
  "walk_state path stack cycles \<equiv>
     \<lparr> fc_path = path, fc_in_path = set path, fc_stack = stack, fc_cycles = cycles \<rparr>"

text \<open>
  Working off the frame on top: the walk appends the closings through the nodes the frame
  still has to visit, and pops the frame.
\<close>

lemma fc_loop_frame:
  assumes "finite cmp" and "distinct path" and "path \<noteq> []" and "set ds \<subseteq> cmp"
    and "\<not> reached_limit limit cycles" and "nxt \<le> length ds"
  shows "fc_loop succ cmp limit start (walk_state path ((last path, ds, nxt) # rest) cycles) =
    continue_with limit (cycles @ closings_via succ cmp start path (drop nxt ds))
      (\<lambda>c. fc_loop succ cmp limit start (walk_state (butlast path) rest c))"
  using assms(2-)
proof (induction "card (cmp - set path)" arbitrary: path ds nxt cycles rest rule: less_induct)
  case less
  show ?case
    using less.prems(4,5)
  proof (induction "length ds - nxt" arbitrary: nxt cycles)
    case 0
    let ?st = "walk_state path ((last path, ds, nxt) # rest) cycles"
    have "set path - {last path} = set (butlast path)"
      using less.prems(1,2) by (cases path rule: rev_cases) auto
    then have "fc_step succ cmp limit start ?st = Inr (walk_state (butlast path) rest cycles)"
      using 0 by (simp add: fc_step_def)
    then have "fc_loop succ cmp limit start ?st =
        fc_loop succ cmp limit start (walk_state (butlast path) rest cycles)"
      by (intro fc_loop_step) simp_all
    with 0 show ?case by (simp add: continue_with_below)
  next
    case (Suc n)
    then have lt: "nxt < length ds" by simp
    let ?st = "walk_state path ((last path, ds, nxt) # rest) cycles"
    let ?next = "\<lambda>c. walk_state path ((last path, ds, nxt + 1) # rest) c"
    let ?k = "\<lambda>c. fc_loop succ cmp limit start (walk_state (butlast path) rest c)"
    let ?via = "closings_via succ cmp start path (drop (nxt + 1) ds)"
    define d where "d = ds ! nxt"
    have dr: "drop nxt ds = d # drop (nxt + 1) ds" using lt by (simp add: d_def Cons_nth_drop_Suc)
    have dc: "d \<in> cmp" using lt less.prems(3) by (auto simp: d_def)
    have inner: "fc_loop succ cmp limit start (?next c) = continue_with limit (c @ ?via) ?k"
      if "\<not> reached_limit limit c" for c
      by (rule Suc.hyps(1)) (use Suc.hyps(2) lt that in simp_all)
    consider (closed) "d = start"
      | (visit) "d \<noteq> start" "d \<ge> start" "d \<notin> set path"
      | (skip) "d \<noteq> start" "\<not> (d \<ge> start \<and> d \<notin> set path)"
      by blast
    then show ?case
    proof cases
      case closed
      let ?c = "cycles @ [path @ [start]]"
      show ?thesis
      proof (cases "reached_limit limit ?c")
        case True
        then have "fc_step succ cmp limit start ?st = Inl ?c"
          using lt closed by (simp add: fc_step_def d_def)
        then have "fc_loop succ cmp limit start ?st = Some (Inl ?c)"
          by (intro fc_loop_stop) simp_all
        with True Suc.prems(1) closed show ?thesis
          by (simp add: dr closings_via_Cons continue_with_exact)
      next
        case False
        then have "fc_step succ cmp limit start ?st = Inr (?next ?c)"
          using lt closed by (simp add: fc_step_def d_def)
        then have "fc_loop succ cmp limit start ?st = fc_loop succ cmp limit start (?next ?c)"
          by (intro fc_loop_step) simp_all
        with inner [OF False] closed show ?thesis by (simp add: dr closings_via_Cons)
      qed
    next
      case visit
      let ?path = "path @ [d]" and ?ds = "fc_deps succ cmp d"
      let ?cl = "closings succ cmp start ?path"
      have "fc_step succ cmp limit start ?st =
          Inr (walk_state ?path ((last ?path, ?ds, 0) # (last path, ds, nxt + 1) # rest) cycles)"
        using lt visit by (simp add: fc_step_def d_def Let_def)
      then have "fc_loop succ cmp limit start ?st =
          fc_loop succ cmp limit start
            (walk_state ?path ((last ?path, ?ds, 0) # (last path, ds, nxt + 1) # rest) cycles)"
        by (intro fc_loop_step) simp_all
      also have "\<dots> = continue_with limit (cycles @ closings_via succ cmp start ?path (drop 0 ?ds))
          (\<lambda>c. fc_loop succ cmp limit start (walk_state (butlast ?path) ((last path, ds, nxt + 1) # rest) c))"
      proof (rule less.hyps)
        have "cmp - set ?path \<subset> cmp - set path" using dc visit by auto
        then show "card (cmp - set ?path) < card (cmp - set path)"
          using assms(1) by (simp add: psubset_card_mono)
      qed (use visit less.prems Suc.prems in \<open>auto simp: fc_deps_def\<close>)
      also have "closings_via succ cmp start ?path (drop 0 ?ds) = ?cl"
        using assms(1) by (simp add: closings_via_all)
      also have "continue_with limit (cycles @ ?cl)
          (\<lambda>c. fc_loop succ cmp limit start (walk_state (butlast ?path) ((last path, ds, nxt + 1) # rest) c)) =
        continue_with limit (cycles @ ?cl) (\<lambda>c. continue_with limit (c @ ?via) ?k)"
        by (rule continue_with_cong) (use inner in simp)
      finally show ?thesis
        using visit dc by (simp add: dr closings_via_Cons continue_with_append [symmetric])
    next
      case skip
      then have "fc_step succ cmp limit start ?st = Inr (?next cycles)"
        using lt by (auto simp: fc_step_def d_def Let_def)
      then have "fc_loop succ cmp limit start ?st = fc_loop succ cmp limit start (?next cycles)"
        by (intro fc_loop_step) simp_all
      with inner [OF Suc.prems(1)] skip show ?thesis by (auto simp: dr closings_via_Cons)
    qed
  qed
qed

text \<open>What the search finds in one component.\<close>

definition component_cycles ::
    "(nat \<Rightarrow> nat list) \<Rightarrow> (nat \<Rightarrow> nat \<Rightarrow> bool) \<Rightarrow> nat list \<Rightarrow> nat list list" where
  "component_cycles succ find_edge component =
     (if card (set component) = 1
      then (let node = hd (sort component) in if find_edge node node then [[node, node]] else [])
      else concat (map (\<lambda>s. closings succ (set component) s [s]) (sort (remdups component))))"

lemma fc_starts_eq:
  assumes "finite cmp"
  shows "\<not> reached_limit limit cycles \<Longrightarrow>
    fc_starts succ cmp limit starts cycles =
    continue_with limit (cycles @ concat (map (\<lambda>s. closings succ cmp s [s]) starts)) (\<lambda>c. Some (Inr c))"
proof (induction starts arbitrary: cycles)
  case Nil
  then show ?case by (simp add: continue_with_below)
next
  case (Cons s starts)
  let ?cl = "closings succ cmp s [s]"
  let ?init = "\<lparr> fc_path = [s], fc_in_path = {s}, fc_stack = [(s, fc_deps succ cmp s, 0)], fc_cycles = cycles \<rparr>"
  have "fc_loop succ cmp limit s ?init =
      continue_with limit (cycles @ ?cl) (\<lambda>c. fc_loop succ cmp limit s (walk_state [] [] c))"
    using fc_loop_frame [OF assms, of "[s]" "fc_deps succ cmp s" limit cycles 0 succ s "[]"] Cons.prems assms
    by (auto simp: fc_deps_def closings_via_all)
  then have l: "fc_loop succ cmp limit s ?init = continue_with limit (cycles @ ?cl) (\<lambda>c. Some (Inr c))"
    by (simp add: fc_loop_done)
  show ?case
  proof (cases "reached_limit limit (cycles @ ?cl)")
    case True
    with l show ?thesis
      by (auto simp: continue_with_def reached_limit_def split: option.splits)
  next
    case False
    then have "fc_loop succ cmp limit s ?init = Some (Inr (cycles @ ?cl))"
      using l by (simp add: continue_with_below)
    with Cons.IH [OF False] show ?thesis by simp
  qed
qed

definition take_limit :: "nat option \<Rightarrow> 'a list \<Rightarrow> 'a list" where
  "take_limit limit xs = (case limit of None \<Rightarrow> xs | Some l \<Rightarrow> take l xs)"

lemma fc_components_eq:
  "\<not> reached_limit limit cycles \<Longrightarrow>
     fc_components succ find_edge limit sccs cycles =
     Some (take_limit limit (cycles @ concat (map (component_cycles succ find_edge) sccs)))"
proof (induction sccs arbitrary: cycles)
  case Nil
  then show ?case by (auto simp: take_limit_def reached_limit_def split: option.splits)
next
  case (Cons component sccs)
  let ?cs = "component_cycles succ find_edge component"
  let ?rest = "concat (map (component_cycles succ find_edge) sccs)"
  show ?case
  proof (cases "card (set component) = 1")
    case single: True
    let ?c = "cycles @ ?cs"
    have step: "fc_components succ find_edge limit (component # sccs) cycles =
        (if reached_limit limit ?c then Some ?c else fc_components succ find_edge limit sccs ?c)"
      using single by (simp add: component_cycles_def Let_def)
    show ?thesis
    proof (cases "reached_limit limit ?c")
      case True
      have "length ?cs \<le> 1" using single by (simp add: component_cycles_def Let_def)
      with True Cons.prems have "take_limit limit (?c @ ?rest) = ?c"
        by (auto simp: take_limit_def reached_limit_def split: option.splits)
      with True step show ?thesis by simp
    next
      case False
      with step Cons.IH [OF False] show ?thesis by simp
    qed
  next
    case multi: False
    have s: "fc_starts succ (set component) limit (sort (remdups component)) cycles =
        continue_with limit (cycles @ ?cs) (\<lambda>c. Some (Inr c))"
      using fc_starts_eq [of "set component" limit cycles] Cons.prems multi
      by (simp add: component_cycles_def)
    show ?thesis
    proof (cases "reached_limit limit (cycles @ ?cs)")
      case True
      then have "fc_components succ find_edge limit (component # sccs) cycles =
          Some (take_limit limit (cycles @ ?cs))"
        using s multi
        by (auto simp: continue_with_def reached_limit_def take_limit_def split: option.splits)
      with True show ?thesis
        by (auto simp: reached_limit_def take_limit_def split: option.splits)
    next
      case False
      then have "fc_components succ find_edge limit (component # sccs) cycles =
          fc_components succ find_edge limit sccs (cycles @ ?cs)"
        using s multi by (simp add: continue_with_below)
      with Cons.IH [OF False] show ?thesis by simp
    qed
  qed
qed

section \<open>Simple cycles\<close>

definition succ_rel :: "(nat \<Rightarrow> nat list) \<Rightarrow> (nat \<times> nat) set" where
  "succ_rel succ = {(a, b). b \<in> set (succ a)}"

abbreviation walk :: "(nat \<times> nat) set \<Rightarrow> nat list \<Rightarrow> bool" where
  "walk E \<equiv> successively (\<lambda>a b. (a, b) \<in> E)"

text \<open>A simple cycle is written from its smallest node back to it.\<close>

definition simple_cycle :: "(nat \<times> nat) set \<Rightarrow> nat list \<Rightarrow> bool" where
  "simple_cycle E c \<longleftrightarrow>
     (\<exists>p. p \<noteq> [] \<and> c = p @ [hd p] \<and> distinct p \<and> walk E c \<and> (\<forall>x\<in>set p. hd p \<le> x))"

lemma walk_last_append: "walk E (xs @ y # ys) \<longleftrightarrow> walk E (xs @ [y]) \<and> walk E (y # ys)"
  by (cases ys) (auto simp: successively_append_iff successively_Cons)

lemma in_closings:
  assumes "finite cmp" and "path \<noteq> []" and "distinct path" and "start \<in> cmp" and "start \<in> set path"
  shows "c \<in> set (closings succ cmp start path) \<longleftrightarrow>
    (\<exists>q. c = path @ q @ [start] \<and> distinct (path @ q) \<and> set q \<subseteq> {x \<in> cmp. start \<le> x}
       \<and> walk (succ_rel succ) (last path # q @ [start]))"
  using assms
proof (induction succ cmp start path rule: closings.induct)
  case (1 succ cmp start path)
  let ?E = "succ_rel succ"
  let ?R = "\<lambda>path q. c = path @ q @ [start] \<and> distinct (path @ q) \<and> set q \<subseteq> {x \<in> cmp. start \<le> x}
       \<and> walk ?E (last path # q @ [start])"
  have IH: "c \<in> set (closings succ cmp start (path @ [d])) \<longleftrightarrow> (\<exists>q. ?R (path @ [d]) q)"
    if "d \<in> set (fc_deps succ cmp (last path))" "d \<noteq> start" "d \<ge> start" "d \<notin> set path" for d
    using "1.IH" [of d] that "1.prems" by (auto simp: fc_deps_def)
  have dd: "d \<in> set (fc_deps succ cmp (last path)) \<longleftrightarrow> d \<in> cmp \<and> (last path, d) \<in> ?E" for d
    by (auto simp: fc_deps_def succ_rel_def)
  have "c \<in> set (closings succ cmp start path) \<longleftrightarrow>
      ((last path, start) \<in> ?E \<and> c = path @ [start])
      \<or> (\<exists>d. d \<in> cmp \<and> (last path, d) \<in> ?E \<and> d \<noteq> start \<and> d \<ge> start \<and> d \<notin> set path
            \<and> (\<exists>q. ?R (path @ [d]) q))"
    using "1.prems" IH dd by (subst closings.simps) (auto split: if_splits)
  also have "\<dots> \<longleftrightarrow> (\<exists>q. ?R path q)"
  proof
    assume "((last path, start) \<in> ?E \<and> c = path @ [start])
      \<or> (\<exists>d. d \<in> cmp \<and> (last path, d) \<in> ?E \<and> d \<noteq> start \<and> d \<ge> start \<and> d \<notin> set path
            \<and> (\<exists>q. ?R (path @ [d]) q))"
    then show "\<exists>q. ?R path q"
    proof
      assume "(last path, start) \<in> ?E \<and> c = path @ [start]"
      then show ?thesis using "1.prems" by (intro exI [of _ "[]"]) simp
    next
      assume "\<exists>d. d \<in> cmp \<and> (last path, d) \<in> ?E \<and> d \<noteq> start \<and> d \<ge> start \<and> d \<notin> set path
            \<and> (\<exists>q. ?R (path @ [d]) q)"
      then obtain d q where "d \<in> cmp" "(last path, d) \<in> ?E" "d \<ge> start" "?R (path @ [d]) q" by blast
      then show ?thesis by (intro exI [of _ "d # q"]) (auto simp: successively_Cons)
    qed
  next
    assume "\<exists>q. ?R path q"
    then obtain q where q: "?R path q" by blast
    show "((last path, start) \<in> ?E \<and> c = path @ [start])
      \<or> (\<exists>d. d \<in> cmp \<and> (last path, d) \<in> ?E \<and> d \<noteq> start \<and> d \<ge> start \<and> d \<notin> set path
            \<and> (\<exists>q. ?R (path @ [d]) q))"
    proof (cases q)
      case Nil
      with q show ?thesis by (simp add: successively_Cons)
    next
      case (Cons d q')
      with q "1.prems" have "d \<in> cmp \<and> (last path, d) \<in> ?E \<and> d \<noteq> start \<and> d \<ge> start \<and> d \<notin> set path
          \<and> ?R (path @ [d]) q'"
        by (auto simp: successively_Cons)
      then show ?thesis by blast
    qed
  qed
  finally show ?case .
qed

lemma closings_start:
  assumes "finite cmp" and "s \<in> cmp"
  shows "c \<in> set (closings succ cmp s [s]) \<longleftrightarrow>
    simple_cycle (succ_rel succ) c \<and> hd c = s \<and> set c \<subseteq> cmp"
proof -
  have "c \<in> set (closings succ cmp s [s]) \<longleftrightarrow>
      (\<exists>q. c = s # q @ [s] \<and> distinct (s # q) \<and> set q \<subseteq> {x \<in> cmp. s \<le> x}
         \<and> walk (succ_rel succ) (s # q @ [s]))"
    using in_closings [of cmp "[s]" s c succ] assms by simp
  also have "\<dots> \<longleftrightarrow> simple_cycle (succ_rel succ) c \<and> hd c = s \<and> set c \<subseteq> cmp"
  proof
    assume "\<exists>q. c = s # q @ [s] \<and> distinct (s # q) \<and> set q \<subseteq> {x \<in> cmp. s \<le> x}
         \<and> walk (succ_rel succ) (s # q @ [s])"
    then obtain q where "c = s # q @ [s]" "distinct (s # q)" "set q \<subseteq> {x \<in> cmp. s \<le> x}"
      "walk (succ_rel succ) (s # q @ [s])" by blast
    then show "simple_cycle (succ_rel succ) c \<and> hd c = s \<and> set c \<subseteq> cmp"
      using assms(2) unfolding simple_cycle_def by (intro conjI exI [of _ "s # q"]) auto
  next
    assume a: "simple_cycle (succ_rel succ) c \<and> hd c = s \<and> set c \<subseteq> cmp"
    then obtain p where "p \<noteq> []" "c = p @ [hd p]" "distinct p" "walk (succ_rel succ) c"
      "\<forall>x\<in>set p. hd p \<le> x"
      by (auto simp: simple_cycle_def)
    moreover from this(1,2) a obtain q where "p = s # q" by (cases p) auto
    ultimately show "\<exists>q. c = s # q @ [s] \<and> distinct (s # q) \<and> set q \<subseteq> {x \<in> cmp. s \<le> x}
         \<and> walk (succ_rel succ) (s # q @ [s])"
      using a by (intro exI [of _ q]) auto
  qed
  finally show ?thesis .
qed

lemma simple_cycle_singleton:
  "set c \<subseteq> {n} \<Longrightarrow> simple_cycle E c \<longleftrightarrow> c = [n, n] \<and> (n, n) \<in> E"
proof
  assume c: "set c \<subseteq> {n}" and "simple_cycle E c"
  then obtain p where p: "p \<noteq> []" "c = p @ [hd p]" "distinct p" "walk E c"
    by (auto simp: simple_cycle_def)
  have "p = [n]"
  proof (cases p)
    case (Cons x p')
    with c p have "x = n" "set p' \<subseteq> {n}" "n \<notin> set p'" by auto
    with Cons show ?thesis by (cases p') auto
  qed (use p in simp)
  with p show "c = [n, n] \<and> (n, n) \<in> E" by simp
next
  assume "c = [n, n] \<and> (n, n) \<in> E"
  then show "simple_cycle E c"
    unfolding simple_cycle_def by (intro exI [of _ "[n]"]) simp
qed

lemma simple_cycle_not_Nil: "simple_cycle E c \<Longrightarrow> c \<noteq> [] \<and> hd c \<in> set c"
  by (auto simp: simple_cycle_def)

lemma component_cycles_set:
  assumes "\<And>a b. find_edge a b \<longleftrightarrow> (a, b) \<in> succ_rel succ"
  shows "set (component_cycles succ find_edge component) =
    {c. simple_cycle (succ_rel succ) c \<and> set c \<subseteq> set component}"
proof (cases "card (set component) = 1")
  case True
  then obtain n where n: "set component = {n}" by (auto simp: card_1_singleton_iff)
  have "set (sort component) = {n}" using n by simp
  then have "hd (sort component) = n"
    by (metis list.set_sel(1) set_empty insert_not_empty singletonD)
  with True n assms show ?thesis
    by (auto simp: component_cycles_def simple_cycle_singleton)
next
  case False
  then have "set (component_cycles succ find_edge component) =
      (\<Union>s\<in>set component. set (closings succ (set component) s [s]))"
    by (simp add: component_cycles_def)
  also have "\<dots> = {c. simple_cycle (succ_rel succ) c \<and> set c \<subseteq> set component}"
    using simple_cycle_not_Nil by (fastforce simp: closings_start)
  finally show ?thesis .
qed

section \<open>Cycles and strongly connected components\<close>

text \<open>What \<^verbatim>\<open>kosaraju_scc\<close> documents: the classes of mutually reachable nodes.\<close>

definition scc_partition :: "(nat \<times> nat) set \<Rightarrow> nat set \<Rightarrow> nat list list \<Rightarrow> bool" where
  "scc_partition E nodes sccs \<longleftrightarrow>
     \<Union> (set (map set sccs)) = nodes
     \<and> (\<forall>C\<in>set sccs. \<forall>x\<in>set C. \<forall>y\<in>nodes. y \<in> set C \<longleftrightarrow> (x, y) \<in> E\<^sup>* \<and> (y, x) \<in> E\<^sup>*)"

lemma walk_rtrancl: "walk E (x # xs) \<Longrightarrow> y \<in> set (x # xs) \<Longrightarrow> (x, y) \<in> E\<^sup>*"
proof (induction xs arbitrary: x)
  case Nil
  then show ?case by simp
next
  case (Cons z xs)
  then show ?case
    by (cases "y = x") (auto simp: intro: converse_rtrancl_into_rtrancl)
qed

lemma walk_rtrancl_last: "walk E (xs @ [z]) \<Longrightarrow> y \<in> set (xs @ [z]) \<Longrightarrow> (y, z) \<in> E\<^sup>*"
proof (induction xs)
  case Nil
  then show ?case by simp
next
  case (Cons x xs)
  show ?case
  proof (cases "y = x")
    case True
    with Cons.prems walk_rtrancl [of E x "xs @ [z]" z] show ?thesis by simp
  next
    case False
    with Cons show ?thesis by (simp add: successively_Cons)
  qed
qed

lemma simple_cycle_mutual:
  assumes "simple_cycle E c" and "x \<in> set c" and "y \<in> set c"
  shows "(x, y) \<in> E\<^sup>*"
proof -
  obtain p where p: "p \<noteq> []" "c = p @ [hd p]" "walk E c"
    using assms(1) by (auto simp: simple_cycle_def)
  then obtain q where q: "p = hd p # q" by (metis list.collapse)
  have "(x, hd p) \<in> E\<^sup>*" using walk_rtrancl_last [of E p "hd p" x] p assms(2) by simp
  moreover have "(hd p, y) \<in> E\<^sup>*"
    using walk_rtrancl [of E "hd p" "q @ [hd p]" y] p q assms(3) by (metis append_Cons)
  ultimately show ?thesis by (rule rtrancl_trans)
qed

lemma walk_trancl: "walk E (x # xs @ [y]) \<Longrightarrow> (x, y) \<in> E\<^sup>+"
proof (induction xs arbitrary: x)
  case Nil
  then show ?case by auto
next
  case (Cons z xs)
  then show ?case by (auto intro: trancl_into_trancl2)
qed

text \<open>A closed walk contains a closed walk without repetitions, which can be turned to start anywhere.\<close>

lemma closed_walk_distinct:
  "p \<noteq> [] \<Longrightarrow> walk E (p @ [hd p]) \<Longrightarrow> \<exists>q. q \<noteq> [] \<and> distinct q \<and> walk E (q @ [hd q])"
proof (induction "length p" arbitrary: p rule: less_induct)
  case less
  show ?case
  proof (cases "distinct p")
    case True
    with less.prems show ?thesis by blast
  next
    case False
    then obtain a y b c where p: "p = a @ [y] @ b @ [y] @ c"
      using not_distinct_decomp by blast
    let ?q = "a @ y # c"
    have h: "hd ?q = hd p" using p by (cases a) auto
    have "walk E (a @ y # (b @ y # c @ [hd p]))" using less.prems(2) p by simp
    then have 1: "walk E (a @ [y])" and "walk E ((y # b) @ y # (c @ [hd p]))"
      using walk_last_append [of E a y "b @ y # c @ [hd p]"] by simp_all
    then have "walk E (y # c @ [hd p])"
      using walk_last_append [of E "y # b" y "c @ [hd p]"] by blast
    with 1 have "walk E (?q @ [hd ?q])"
      unfolding h using walk_last_append [of E a y "c @ [hd p]"] by simp
    moreover have "length ?q < length p" by (simp add: p)
    ultimately show ?thesis using less.hyps by blast
  qed
qed

lemma closed_walk_rotate:
  assumes "walk E ((a @ x # b) @ [hd (a @ x # b)])"
  shows "walk E ((x # b @ a) @ [x])"
proof (cases a)
  case Nil
  with assms show ?thesis by simp
next
  case (Cons y a')
  have "walk E (a @ x # (b @ [y]))" using assms Cons by simp
  then have 1: "walk E (a @ [x])" and 2: "walk E ((x # b) @ [y])"
    using walk_last_append [of E a x "b @ [y]"] by simp_all
  then have "walk E ((x # b) @ y # (a' @ [x]))"
    using walk_last_append [of E "x # b" y "a' @ [x]"] Cons by simp
  with Cons show ?thesis by simp
qed

lemma trancl_walk: "(x, y) \<in> E\<^sup>+ \<Longrightarrow> \<exists>p. p \<noteq> [] \<and> hd p = x \<and> walk E (p @ [y])"
proof (induction rule: trancl_induct)
  case (base y)
  then show ?case by (intro exI [of _ "[x]"]) simp
next
  case (step y z)
  then obtain p where "p \<noteq> []" "hd p = x" "walk E (p @ [y])" by blast
  with step(2) show ?case
    using walk_last_append [of E p y "[z]"] by (intro exI [of _ "p @ [y]"]) simp
qed

lemma cyclic_simple_cycle: "\<not> acyclic E \<longleftrightarrow> (\<exists>c. simple_cycle E c)"
proof
  assume "\<not> acyclic E"
  then obtain x where "(x, x) \<in> E\<^sup>+" by (auto simp: acyclic_def)
  then obtain p where "p \<noteq> []" "walk E (p @ [hd p])" using trancl_walk by metis
  then obtain q where q: "q \<noteq> []" "distinct q" "walk E (q @ [hd q])"
    using closed_walk_distinct by blast
  define m where "m = Min (set q)"
  have "m \<in> set q" using q(1) by (simp add: m_def)
  then obtain a b where ab: "q = a @ m # b" by (meson split_list)
  have "walk E ((m # b @ a) @ [m])" using q(3) unfolding ab by (rule closed_walk_rotate)
  moreover have "\<forall>x\<in>set (m # b @ a). m \<le> x"
    unfolding m_def using ab by auto
  moreover have "distinct (m # b @ a)" using q(2) ab by auto
  ultimately have "simple_cycle E ((m # b @ a) @ [m])"
    unfolding simple_cycle_def by (intro exI [of _ "m # b @ a"]) auto
  then show "\<exists>c. simple_cycle E c" ..
next
  assume "\<exists>c. simple_cycle E c"
  then obtain c p where "p \<noteq> []" "c = p @ [hd p]" "walk E c"
    by (auto simp: simple_cycle_def)
  then have "walk E (hd p # tl p @ [hd p])" by (cases p) auto
  then have "(hd p, hd p) \<in> E\<^sup>+" by (rule walk_trancl)
  then show "\<not> acyclic E" by (auto simp: acyclic_def)
qed

lemma find_cycles_result:
  assumes "scc_partition (succ_rel succ) nodes sccs"
    and "succ_rel succ \<subseteq> nodes \<times> nodes"
    and "\<And>a b. find_edge a b \<longleftrightarrow> (a, b) \<in> succ_rel succ"
    and "0 < l"
  shows "\<exists>cycles. find_cycles succ find_edge sccs None = Some cycles
    \<and> find_cycles succ find_edge sccs (Some l) = Some (take l cycles)
    \<and> set cycles = {c. simple_cycle (succ_rel succ) c}
    \<and> (cycles = [] \<longleftrightarrow> acyclic (succ_rel succ))"
proof -
  let ?E = "succ_rel succ"
  let ?cs = "concat (map (component_cycles succ find_edge) sccs)"
  have "find_cycles succ find_edge sccs None = Some ?cs"
    by (simp add: find_cycles_def fc_components_eq reached_limit_def take_limit_def)
  moreover have "find_cycles succ find_edge sccs (Some l) = Some (take l ?cs)"
    using assms(4) by (simp add: find_cycles_def fc_components_eq reached_limit_def take_limit_def)
  moreover have set: "set ?cs = {c. simple_cycle ?E c}"
  proof -
    have "\<exists>C\<in>set sccs. set c \<subseteq> set C" if c: "simple_cycle ?E c" for c
    proof -
      have h: "hd c \<in> set c" using simple_cycle_not_Nil [OF c] by simp
      have nodes: "y \<in> nodes" if "y \<in> set c" for y
      proof -
        obtain p where "p \<noteq> []" "c = p @ [hd p]" "walk ?E c"
          using c by (auto simp: simple_cycle_def)
        then have "walk ?E (hd p # tl p @ [hd p])" by (cases p) auto
        then have "(hd p, hd p) \<in> ?E\<^sup>+" by (rule walk_trancl)
        moreover have "hd p = hd c" using \<open>c = p @ [hd p]\<close> \<open>p \<noteq> []\<close> by (cases p) auto
        ultimately have "hd c \<in> nodes" using assms(2)
          by (metis tranclD mem_Sigma_iff subsetD)
        moreover have "(hd c, y) \<in> ?E\<^sup>*" using simple_cycle_mutual [OF c h that] .
        ultimately show ?thesis using assms(2)
          by (metis rtranclE mem_Sigma_iff subsetD)
      qed
      obtain C where C: "C \<in> set sccs" "hd c \<in> set C"
        using assms(1) nodes [OF h] unfolding scc_partition_def by auto
      have "y \<in> set C" if "y \<in> set c" for y
        using assms(1) C nodes [OF that] simple_cycle_mutual [OF c h that] simple_cycle_mutual [OF c that h]
        unfolding scc_partition_def by blast
      with C show ?thesis by blast
    qed
    then show ?thesis using component_cycles_set [OF assms(3)] by auto
  qed
  moreover have "?cs = [] \<longleftrightarrow> acyclic ?E"
    using set cyclic_simple_cycle [of ?E] by (metis Collect_empty_eq set_empty)
  ultimately show ?thesis by blast
qed

text \<open>
  \<^bold>\<open>C26.\<close> The search for task cycles always ends, and without a limit it reports exactly the
  simple cycles of the graph, each written from its node of smallest index; in particular it
  reports none exactly when the graph is acyclic.  With a limit it reports the first ones of
  that list, up to the limit.
\<close>

theorem find_cycles_correct:
  assumes "scc_partition (succ_rel succ) nodes sccs"
    and "succ_rel succ \<subseteq> nodes \<times> nodes"
    and "\<And>a b. find_edge a b \<longleftrightarrow> (a, b) \<in> succ_rel succ"
    and "0 < l"
  shows "\<exists>cycles. find_cycles succ find_edge sccs None = Some cycles
    \<and> find_cycles succ find_edge sccs (Some l) = Some (take l cycles)
    \<and> set cycles = {c. simple_cycle (succ_rel succ) c}
    \<and> (cycles = [] \<longleftrightarrow> acyclic (succ_rel succ))"
  using assms by (rule find_cycles_result)

definition demo_succ :: "nat \<Rightarrow> nat list" where
  "demo_succ n = (if n = 0 then [1] else if n = 1 then [2, 0] else if n = 2 then [0] else if n = 3 then [3] else [])"

theorem find_cycles_correct_witness:
  "scc_partition (succ_rel demo_succ) {0, 1, 2, 3} [[0, 1, 2], [3]]
   \<and> succ_rel demo_succ \<subseteq> {0, 1, 2, 3} \<times> {0, 1, 2, 3}
   \<and> (\<exists>cycles. find_cycles demo_succ (\<lambda>a b. b \<in> set (demo_succ a)) [[0, 1, 2], [3]] None = Some cycles
        \<and> find_cycles demo_succ (\<lambda>a b. b \<in> set (demo_succ a)) [[0, 1, 2], [3]] (Some 1) = Some (take 1 cycles)
        \<and> [0, 1, 2, 0] \<in> set cycles \<and> [3, 3] \<in> set cycles)"
proof -
  let ?E = "succ_rel demo_succ"
  have E: "?E = {(0, 1), (1, 2), (1, 0), (2, 0), (3, 3)}"
    by (auto simp: succ_rel_def demo_succ_def split: if_splits)
  have "(0, 1) \<in> ?E\<^sup>*" "(1, 2) \<in> ?E\<^sup>*" "(2, 0) \<in> ?E\<^sup>*" by (auto simp: E)
  then have r: "(x, y) \<in> ?E\<^sup>*" if "x \<in> {0, 1, 2}" "y \<in> {0, 1, 2}" for x y
    using that by (auto intro: rtrancl_trans)
  have i: "(x, y) \<in> ?E\<^sup>* \<Longrightarrow> (x = 3 \<longleftrightarrow> y = 3)" for x y
    by (induction rule: rtrancl_induct) (auto simp: E)
  have p: "scc_partition ?E {0, 1, 2, 3} [[0, 1, 2], [3]]"
    using r by (auto simp: scc_partition_def dest: i)
  have s: "?E \<subseteq> {0, 1, 2, 3} \<times> {0, 1, 2, 3}" by (auto simp: E)
  have c: "simple_cycle ?E [0, 1, 2, 0]"
    unfolding simple_cycle_def E by (intro exI [of _ "[0, 1, 2]"]) auto
  have d: "simple_cycle ?E [3, 3]"
    unfolding simple_cycle_def E by (intro exI [of _ "[3]"]) auto
  have f: "b \<in> set (demo_succ a) \<longleftrightarrow> (a, b) \<in> ?E" for a b
    by (simp add: succ_rel_def)
  show ?thesis
    using find_cycles_correct [OF p s, of "\<lambda>a b. b \<in> set (demo_succ a)" 1] f c d p s by auto
qed

end
