(* ===== verification/Task_Graph.thy ===== *)
theory Task_Graph
  imports Task_Cycles
begin

text \<open>
  The interface of petgraph's \<^verbatim>\<open>DiGraph\<close>, which the task graph of \<^verbatim>\<open>src/task/deps.rs\<close> is written
  against.  Unlike the stable graph of the generic scheduler it numbers its nodes without
  gaps: removing a node moves the last one into its place.  As before the operations are an
  argument of the definitions, the locale \<open>digraph\<close> states the documented laws, and
  \<open>vec_ops\<close> is a reference implementation for which they are proved.
\<close>

record ('g, 'n) di_ops =
  di_new :: 'g
  di_add_node :: "'g \<Rightarrow> 'n \<Rightarrow> 'g \<times> nat"
  di_set_weight :: "'g \<Rightarrow> nat \<Rightarrow> 'n \<Rightarrow> 'g"
  di_update_edge :: "'g \<Rightarrow> nat \<Rightarrow> nat \<Rightarrow> 'g"
  di_remove_node :: "'g \<Rightarrow> nat \<Rightarrow> 'g"
  di_node_count :: "'g \<Rightarrow> nat"
  di_weight :: "'g \<Rightarrow> nat \<Rightarrow> 'n option"
  di_outgoing :: "'g \<Rightarrow> nat \<Rightarrow> nat list"
  di_externals :: "'g \<Rightarrow> nat list"
  di_scc :: "'g \<Rightarrow> nat list list"

abbreviation di_rel :: "('g, 'n) di_ops \<Rightarrow> 'g \<Rightarrow> (nat \<times> nat) set" where
  "di_rel G g \<equiv> succ_rel (di_outgoing G g)"

text \<open>The old index of the node that has index \<open>j\<close> after node \<open>i\<close> of \<open>n + 1\<close> was removed.\<close>

definition di_moved :: "nat \<Rightarrow> nat \<Rightarrow> nat \<Rightarrow> nat" where
  "di_moved i n j = (if j = i then n else j)"

locale digraph =
  fixes G :: "('g, 'n) di_ops"
    and valid :: "'g \<Rightarrow> bool"
  assumes di_new_valid: "valid (di_new G)"
    and di_new_count: "di_node_count G (di_new G) = 0"
    and di_weight_iff: "valid g \<Longrightarrow> di_weight G g i \<noteq> None \<longleftrightarrow> i < di_node_count G g"
    and di_rel_range: "valid g \<Longrightarrow> di_rel G g \<subseteq> {..<di_node_count G g} \<times> {..<di_node_count G g}"
    and di_externals_set: "valid g \<Longrightarrow>
      set (di_externals G g) = {i. i < di_node_count G g \<and> di_outgoing G g i = []}"
    and di_scc_partition: "valid g \<Longrightarrow> scc_partition (di_rel G g) {..<di_node_count G g} (di_scc G g)"
    and di_add: "valid g \<Longrightarrow> di_add_node G g n = (g', i) \<Longrightarrow>
      valid g' \<and> i = di_node_count G g \<and> di_node_count G g' = Suc (di_node_count G g)
      \<and> di_weight G g' = (di_weight G g)(i \<mapsto> n) \<and> di_rel G g' = di_rel G g"
    and di_set: "valid g \<Longrightarrow> i < di_node_count G g \<Longrightarrow>
      valid (di_set_weight G g i n) \<and> di_node_count G (di_set_weight G g i n) = di_node_count G g
      \<and> di_weight G (di_set_weight G g i n) = (di_weight G g)(i \<mapsto> n)
      \<and> di_rel G (di_set_weight G g i n) = di_rel G g"
    and di_upd: "valid g \<Longrightarrow> a < di_node_count G g \<Longrightarrow> b < di_node_count G g \<Longrightarrow>
      valid (di_update_edge G g a b) \<and> di_node_count G (di_update_edge G g a b) = di_node_count G g
      \<and> di_weight G (di_update_edge G g a b) = di_weight G g
      \<and> di_rel G (di_update_edge G g a b) = insert (a, b) (di_rel G g)"
    and di_rem: "valid g \<Longrightarrow> di_node_count G g = Suc m \<Longrightarrow> i \<le> m \<Longrightarrow>
      valid (di_remove_node G g i) \<and> di_node_count G (di_remove_node G g i) = m
      \<and> (\<forall>j<m. di_weight G (di_remove_node G g i) j = di_weight G g (di_moved i m j))
      \<and> di_rel G (di_remove_node G g i) =
          {(a, b). a < m \<and> b < m \<and> (di_moved i m a, di_moved i m b) \<in> di_rel G g}"
begin

text \<open>Removing a node keeps a graph acyclic.\<close>

lemma di_rem_acyclic:
  assumes "valid g" and "i < di_node_count G g" and "acyclic (di_rel G g)"
  shows "acyclic (di_rel G (di_remove_node G g i))"
proof -
  obtain n where n: "di_node_count G g = Suc n" "i \<le> n"
    using assms(2) by (cases "di_node_count G g") auto
  let ?E = "di_rel G (di_remove_node G g i)"
  have step: "(a, b) \<in> ?E \<Longrightarrow> (di_moved i n a, di_moved i n b) \<in> di_rel G g" for a b
    using di_rem [OF assms(1) n] by simp
  have "(di_moved i n a, di_moved i n b) \<in> (di_rel G g)\<^sup>+" if "(a, b) \<in> ?E\<^sup>+" for a b
    using that by (induction rule: trancl_induct) (auto dest!: step intro: trancl_into_trancl)
  with assms(3) show ?thesis by (auto simp: acyclic_def)
qed

text \<open>An acyclic graph with a node has one without outgoing edges.\<close>

lemma di_leaf_exists:
  assumes "valid g" and "acyclic (di_rel G g)" and "di_node_count G g \<noteq> 0"
  shows "di_externals G g \<noteq> []"
proof -
  have "\<exists>x\<in>{..<di_node_count G g}. \<forall>y\<in>{..<di_node_count G g}. (x, y) \<notin> di_rel G g"
    using assms(2,3) by (intro acyclic_has_leaf) auto
  then obtain x where x: "x < di_node_count G g" "\<forall>y. (x, y) \<notin> di_rel G g"
    using di_rel_range [OF assms(1)] by blast
  then have "di_outgoing G g x = []"
    by (metis (mono_tags) succ_rel_def case_prodI list.set_intros(1) mem_Collect_eq neq_Nil_conv)
  with x(1) have "x \<in> set (di_externals G g)" using di_externals_set [OF assms(1)] by simp
  then show ?thesis by auto
qed

end

section \<open>A reference implementation\<close>

type_synonym 'n vec_graph = "'n list \<times> (nat \<times> nat) list"

definition vec_outgoing :: "'n vec_graph \<Rightarrow> nat \<Rightarrow> nat list" where
  "vec_outgoing g i = map snd (filter (\<lambda>e. fst e = i) (snd g))"

definition vec_remove :: "'n vec_graph \<Rightarrow> nat \<Rightarrow> 'n vec_graph" where
  "vec_remove g i =
     (let n = length (fst g) - 1;
          new_index = (\<lambda>j. if j = n then i else j)
      in (butlast ((fst g)[i := last (fst g)]),
          map (\<lambda>e. (new_index (fst e), new_index (snd e)))
            (filter (\<lambda>e. fst e \<noteq> i \<and> snd e \<noteq> i) (snd g))))"

definition vec_mutual :: "'n vec_graph \<Rightarrow> nat \<Rightarrow> nat \<Rightarrow> bool" where
  "vec_mutual g a b \<longleftrightarrow> (a, b) \<in> (set (snd g))\<^sup>* \<and> (b, a) \<in> (set (snd g))\<^sup>*"

definition vec_scc :: "'n vec_graph \<Rightarrow> nat list list" where
  "vec_scc g =
     map (\<lambda>i. filter (vec_mutual g i) [0..<length (fst g)])
       (filter (\<lambda>i. \<forall>j\<in>set [0..<i]. \<not> vec_mutual g i j) [0..<length (fst g)])"

definition vec_ops :: "('n vec_graph, 'n) di_ops" where
  "vec_ops = \<lparr>
     di_new = ([], []),
     di_add_node = (\<lambda>g n. ((fst g @ [n], snd g), length (fst g))),
     di_set_weight = (\<lambda>g i n. ((fst g)[i := n], snd g)),
     di_update_edge = (\<lambda>g a b. (fst g, if (a, b) \<in> set (snd g) then snd g else snd g @ [(a, b)])),
     di_remove_node = vec_remove,
     di_node_count = (\<lambda>g. length (fst g)),
     di_weight = (\<lambda>g i. if i < length (fst g) then Some (fst g ! i) else None),
     di_outgoing = vec_outgoing,
     di_externals = (\<lambda>g. filter (\<lambda>i. vec_outgoing g i = []) [0..<length (fst g)]),
     di_scc = vec_scc \<rparr>"

definition vec_valid :: "'n vec_graph \<Rightarrow> bool" where
  "vec_valid g \<longleftrightarrow> (\<forall>(a, b)\<in>set (snd g). a < length (fst g) \<and> b < length (fst g))"

lemma vec_rel [simp]: "succ_rel (vec_outgoing g) = set (snd g)"
  by (force simp: succ_rel_def vec_outgoing_def)

lemma vec_mutual_refl: "vec_mutual g i i"
  by (simp add: vec_mutual_def)

lemma vec_mutual_trans: "vec_mutual g a b \<Longrightarrow> vec_mutual g b c \<Longrightarrow> vec_mutual g a c"
  unfolding vec_mutual_def by (meson rtrancl_trans)

lemma vec_mutual_sym: "vec_mutual g a b \<Longrightarrow> vec_mutual g b a"
  by (simp add: vec_mutual_def)

lemma in_vec_scc:
  "C \<in> set (vec_scc g) \<longleftrightarrow>
     (\<exists>i<length (fst g). (\<forall>j<i. \<not> vec_mutual g i j) \<and> C = filter (vec_mutual g i) [0..<length (fst g)])"
  by (auto simp: vec_scc_def image_iff)

lemma vec_scc_partition: "scc_partition (set (snd g)) {..<length (fst g)} (vec_scc g)"
proof -
  let ?n = "length (fst g)"
  have "\<exists>i<?n. (\<forall>j<i. \<not> vec_mutual g i j) \<and> vec_mutual g i x" if "x < ?n" for x
  proof -
    define i where "i = (LEAST i. vec_mutual g x i)"
    have m: "vec_mutual g x i" unfolding i_def by (rule LeastI) (rule vec_mutual_refl)
    have "i \<le> x" unfolding i_def by (rule Least_le) (rule vec_mutual_refl)
    moreover have "\<not> vec_mutual g i j" if "j < i" for j
      using not_less_Least [of j "vec_mutual g x"] that m vec_mutual_trans i_def by blast
    ultimately show ?thesis using that vec_mutual_sym [OF m] by (intro exI [of _ i]) auto
  qed
  moreover have "{..<?n} \<subseteq> \<Union> (set (map set (vec_scc g)))"
  proof
    fix x assume x: "x \<in> {..<?n}"
    then obtain i where "i < ?n" "\<forall>j<i. \<not> vec_mutual g i j" and m: "vec_mutual g i x"
      using calculation by auto
    then have "filter (vec_mutual g i) [0..<?n] \<in> set (vec_scc g)" by (auto simp: in_vec_scc)
    moreover have "x \<in> set (filter (vec_mutual g i) [0..<?n])" using x m by simp
    ultimately show "x \<in> \<Union> (set (map set (vec_scc g)))" by (simp only: set_map) blast
  qed
  moreover have "\<Union> (set (map set (vec_scc g))) \<subseteq> {..<?n}"
    by (auto simp: in_vec_scc)
  moreover have "\<forall>C\<in>set (vec_scc g). \<forall>x\<in>set C. \<forall>y\<in>{..<?n}. y \<in> set C \<longleftrightarrow> vec_mutual g x y"
  proof (intro ballI)
    fix C x y assume a: "C \<in> set (vec_scc g)" "x \<in> set C" "y \<in> {..<?n}"
    then obtain i where C: "C = filter (vec_mutual g i) [0..<?n]" and x: "vec_mutual g i x"
      by (auto simp: in_vec_scc)
    have "y \<in> set C \<longleftrightarrow> vec_mutual g i y" using a(3) C by simp
    also have "\<dots> \<longleftrightarrow> vec_mutual g x y"
      using x vec_mutual_trans [of g i x y] vec_mutual_trans [of g x i y] vec_mutual_sym [OF x] by blast
    finally show "y \<in> set C \<longleftrightarrow> vec_mutual g x y" .
  qed
  ultimately show ?thesis by (simp add: scc_partition_def vec_mutual_def)
qed

lemma vec_remove_rel:
  assumes "vec_valid g" and "length (fst g) = Suc n" and "i \<le> n"
  shows "set (snd (vec_remove g i)) =
    {(a, b). a < n \<and> b < n \<and> (di_moved i n a, di_moved i n b) \<in> set (snd g)}"
proof -
  let ?new = "\<lambda>j. if j = n then i else j"
  have new: "j \<noteq> i \<Longrightarrow> j < Suc n \<Longrightarrow> ?new j < n \<and> di_moved i n (?new j) = j" for j
    using assms(3) by (auto simp: di_moved_def)
  have bk: "a < n \<Longrightarrow> di_moved i n a \<noteq> i \<and> ?new (di_moved i n a) = a" for a
    using assms(3) by (auto simp: di_moved_def)
  have "(a, b) \<in> set (snd (vec_remove g i)) \<longleftrightarrow>
      (\<exists>(x, y)\<in>set (snd g). x \<noteq> i \<and> y \<noteq> i \<and> a = ?new x \<and> b = ?new y)" for a b
  proof -
    have "snd (vec_remove g i) =
        map (\<lambda>e. (?new (fst e), ?new (snd e))) (filter (\<lambda>e. fst e \<noteq> i \<and> snd e \<noteq> i) (snd g))"
      using assms(2) by (simp add: vec_remove_def)
    then have "(a, b) \<in> set (snd (vec_remove g i)) \<longleftrightarrow>
        (\<exists>e\<in>set (snd g). fst e \<noteq> i \<and> snd e \<noteq> i \<and> (a, b) = (?new (fst e), ?new (snd e)))"
      by (simp only: set_map set_filter image_iff mem_Collect_eq Bex_def conj_assoc)
    then show ?thesis by (simp add: case_prod_beta)
  qed
  moreover have "(\<exists>(x, y)\<in>set (snd g). x \<noteq> i \<and> y \<noteq> i \<and> a = ?new x \<and> b = ?new y) \<longleftrightarrow>
      a < n \<and> b < n \<and> (di_moved i n a, di_moved i n b) \<in> set (snd g)" for a b
  proof
    assume "\<exists>(x, y)\<in>set (snd g). x \<noteq> i \<and> y \<noteq> i \<and> a = ?new x \<and> b = ?new y"
    then obtain x y where e: "(x, y) \<in> set (snd g)" "x \<noteq> i" "y \<noteq> i" "a = ?new x" "b = ?new y" by blast
    then have "x < Suc n" "y < Suc n" using assms(1,2) by (auto simp: vec_valid_def)
    then have "a < n \<and> di_moved i n a = x" "b < n \<and> di_moved i n b = y"
      using e(2-5) new [of x] new [of y] by simp_all
    with e(1) show "a < n \<and> b < n \<and> (di_moved i n a, di_moved i n b) \<in> set (snd g)"
      by simp
  next
    assume "a < n \<and> b < n \<and> (di_moved i n a, di_moved i n b) \<in> set (snd g)"
    with bk [of a] bk [of b]
    show "\<exists>(x, y)\<in>set (snd g). x \<noteq> i \<and> y \<noteq> i \<and> a = ?new x \<and> b = ?new y"
      by (intro bexI [of _ "(di_moved i n a, di_moved i n b)"]) simp_all
  qed
  ultimately show ?thesis by auto
qed

lemma vec_remove_nodes:
  assumes "length (fst g) = Suc n" and "i \<le> n"
  shows "length (fst (vec_remove g i)) = n"
    and "j < n \<Longrightarrow> fst (vec_remove g i) ! j = fst g ! di_moved i n j"
proof -
  have "fst g \<noteq> []" using assms(1) by auto
  then have "last (fst g) = fst g ! n" using assms(1) by (simp add: last_conv_nth)
  then show "j < n \<Longrightarrow> fst (vec_remove g i) ! j = fst g ! di_moved i n j"
    using assms by (simp add: vec_remove_def Let_def nth_butlast di_moved_def nth_list_update)
  show "length (fst (vec_remove g i)) = n"
    using assms by (simp add: vec_remove_def Let_def)
qed

lemma vec_remove_law:
  assumes "vec_valid g" and "length (fst g) = Suc n" and "i \<le> n"
  shows "vec_valid (vec_remove g i) \<and> length (fst (vec_remove g i)) = n
    \<and> (\<forall>j<n. fst (vec_remove g i) ! j = fst g ! di_moved i n j \<and> di_moved i n j < Suc n)
    \<and> set (snd (vec_remove g i)) =
        {(a, b). a < n \<and> b < n \<and> (di_moved i n a, di_moved i n b) \<in> set (snd g)}"
  using vec_remove_rel [OF assms] vec_remove_nodes [OF assms(2,3)] assms(3)
  by (auto simp: vec_valid_def di_moved_def)

lemma vec_valid_add: "vec_valid g \<Longrightarrow> vec_valid (fst g @ [n], snd g)"
  unfolding vec_valid_def by (auto simp: less_Suc_eq)

interpretation vec: digraph vec_ops vec_valid
proof (unfold_locales, goal_cases)
  case (7 g n g' i)
  then show ?case using vec_valid_add [of g n] by (auto simp: vec_ops_def nth_append fun_eq_iff)
next
  case (6 g)
  then show ?case using vec_scc_partition by (simp add: vec_ops_def)
next
  case (10 g m i)
  then show ?case using vec_remove_law [of g m i] by (simp add: vec_ops_def)
qed (auto simp: vec_ops_def vec_valid_def nth_append fun_eq_iff split: if_splits)

end
