(* ===== verification/Task_Deps.thy ===== *)
theory Task_Deps
  imports Task_Graph "HOL-Library.List_Lexorder" "HOL-Library.Product_Lexorder"
begin

text \<open>
  The graph of tasks that \<^verbatim>\<open>mise run\<close> works off, \<^verbatim>\<open>Deps\<close> of \<^verbatim>\<open>src/task/deps.rs\<close>: its construction
  from the declared dependencies, the emission of tasks that wait for nothing, and the
  bookkeeping of finished tasks.  A task is modelled by the fields this file reads; fetching
  remote files, rendering templates and resolving dependency patterns to tasks are the
  parameters collected in \<open>task_env\<close>.
\<close>

section \<open>Tasks\<close>

datatype task_run_phase = NormalPhase | PostPhase

datatype env_directive = EnvVal ustr ustr | EnvOther

record task =
  t_name :: ustr
  t_display_name :: ustr
  t_args :: "ustr list"
  t_env :: "env_directive list"
  t_overlay_env :: "env_directive list"
  t_run_phase :: task_run_phase
  t_show_args_in_prefix :: bool

type_synonym task_key_t = "ustr \<times> ustr list \<times> (ustr \<times> ustr) list \<times> task_run_phase"

definition env_vals :: "env_directive list \<Rightarrow> (ustr \<times> ustr) list" where
  "env_vals ds = List.map_filter (\<lambda>d. case d of EnvVal k v \<Rightarrow> Some (k, v) | EnvOther \<Rightarrow> None) ds"

text \<open>The key of the graph counts the overlay environment, the equality of tasks does not.\<close>

definition env_key :: "task \<Rightarrow> (ustr \<times> ustr) list" where
  "env_key t = sort (env_vals (t_env t @ t_overlay_env t))"

definition own_env_key :: "task \<Rightarrow> (ustr \<times> ustr) list" where
  "own_env_key t = sort (env_vals (t_env t))"

definition task_key :: "task \<Rightarrow> task_key_t" where
  "task_key t = (t_name t, t_args t, env_key t, t_run_phase t)"

definition task_eq :: "task \<Rightarrow> task \<Rightarrow> bool" where
  "task_eq a b \<longleftrightarrow>
     t_name a = t_name b \<and> t_args a = t_args b \<and> own_env_key a = own_env_key b
     \<and> t_run_phase a = t_run_phase b"

definition same_task_without_phase :: "task \<Rightarrow> task \<Rightarrow> bool" where
  "same_task_without_phase a b \<longleftrightarrow> t_name a = t_name b \<and> t_args a = t_args b \<and> env_key a = env_key b"

definition with_run_phase :: "task_run_phase \<Rightarrow> task \<Rightarrow> task" where
  "with_run_phase p t = t\<lparr> t_run_phase := p \<rparr>"

fun join_str :: "ustr \<Rightarrow> ustr list \<Rightarrow> ustr" where
  "join_str sep [] = []"
| "join_str sep [s] = s"
| "join_str sep (s # t # ss) = s @ sep @ join_str sep (t # ss)"

definition task_cycle_label :: "task \<Rightarrow> ustr" where
  "task_cycle_label t =
     (let label = (if t_args t = [] then t_name t else t_name t @ SP # join_str [SP] (t_args t));
          label = (if t_run_phase t = PostPhase then label @ lit '' (post)'' else label);
          env_keys = join_str (lit '', '') (remdups (sort (map fst (env_vals (t_env t)))))
      in if env_keys = [] then label else label @ lit '' [env: '' @ env_keys @ lit '']'')"

record resolved_task_dependencies =
  rd_depends :: "task list"
  rd_wait_for :: "task list"
  rd_depends_post :: "task list"

section \<open>The graph of tasks\<close>

text \<open>
  The channel is the list of messages sent since the last \<^verbatim>\<open>subscribe\<close>, oldest first;
  \<open>tk_open\<close> tells whether its receiver is still alive.
\<close>

record 'g tdeps =
  tk_graph :: 'g
  tk_sent :: "task_key_t set"
  tk_removed :: "task_key_t set"
  tk_executed :: "task_key_t set"
  tk_did_work :: "task_key_t set"
  tk_cache_keys :: "task_key_t \<rightharpoonup> ustr"
  tk_dep_edges :: "task_key_t \<rightharpoonup> task_key_t list"
  tk_post_dep_parents :: "task_key_t \<rightharpoonup> task_key_t list"
  tk_creation_order :: "task_key_t list"
  tk_tx :: "task option list"
  tk_open :: bool

definition tk_weights :: "('g, task) di_ops \<Rightarrow> 'g \<Rightarrow> task list" where
  "tk_weights G g = List.map_filter (di_weight G g) [0..<di_node_count G g]"

definition tk_leaves :: "('g, task) di_ops \<Rightarrow> 'g \<Rightarrow> task list" where
  "tk_leaves G g = List.map_filter (di_weight G g) (di_externals G g)"

definition tk_is_empty :: "('g, task) di_ops \<Rightarrow> 'g tdeps \<Rightarrow> bool" where
  "tk_is_empty G d \<longleftrightarrow> di_node_count G (tk_graph d) = 0"

text \<open>The loop of \<^verbatim>\<open>emit_leaves\<close>: a failed send takes the key back out.\<close>

fun tk_emit_loop :: "task list \<Rightarrow> 'g tdeps \<Rightarrow> 'g tdeps" where
  "tk_emit_loop [] d = d"
| "tk_emit_loop (t # ts) d =
     (let key = task_key t in
      if key \<in> tk_sent d then tk_emit_loop ts d
      else if tk_open d
      then tk_emit_loop ts (d\<lparr> tk_sent := insert key (tk_sent d), tk_tx := tk_tx d @ [Some t] \<rparr>)
      else tk_emit_loop ts (d\<lparr> tk_sent := insert key (tk_sent d) - {key} \<rparr>))"

text \<open>\<^const>\<open>None\<close> is the panic \<^verbatim>\<open>Infinitive loop detected\<close>.\<close>

definition tk_emit_leaves :: "('g, task) di_ops \<Rightarrow> 'g tdeps \<Rightarrow> 'g tdeps option" where
  "tk_emit_leaves G d =
     (let leaves = tk_leaves G (tk_graph d);
          d' = tk_emit_loop leaves d
      in if tk_is_empty G d' then Some (if tk_open d' then d'\<lparr> tk_tx := tk_tx d' @ [None] \<rparr> else d')
         else if leaves = [] \<and> card (tk_sent d') = card (tk_removed d') then None
         else Some d')"

definition tk_subscribe :: "('g, task) di_ops \<Rightarrow> 'g tdeps \<Rightarrow> 'g tdeps option" where
  "tk_subscribe G d = tk_emit_leaves G (d\<lparr> tk_tx := [], tk_open := True \<rparr>)"

definition tk_node_idx :: "('g, task) di_ops \<Rightarrow> 'g \<Rightarrow> task \<Rightarrow> nat option" where
  "tk_node_idx G g t =
     find (\<lambda>i. case di_weight G g i of Some u \<Rightarrow> task_eq u t | None \<Rightarrow> False) [0..<di_node_count G g]"

definition tk_remove_node :: "('g, task) di_ops \<Rightarrow> task \<Rightarrow> nat \<Rightarrow> 'g tdeps \<Rightarrow> 'g tdeps" where
  "tk_remove_node G t i d =
     d\<lparr> tk_graph := di_remove_node G (tk_graph d) i, tk_removed := insert (task_key t) (tk_removed d) \<rparr>"

definition tk_remove :: "('g, task) di_ops \<Rightarrow> task \<Rightarrow> 'g tdeps \<Rightarrow> 'g tdeps option" where
  "tk_remove G t d =
     (case tk_node_idx G (tk_graph d) t of
        None \<Rightarrow> Some d
      | Some i \<Rightarrow> tk_emit_leaves G (tk_remove_node G t i d))"

fun tk_remove_each :: "('g, task) di_ops \<Rightarrow> task list \<Rightarrow> 'g tdeps \<Rightarrow> 'g tdeps" where
  "tk_remove_each G [] d = d"
| "tk_remove_each G (t # ts) d =
     (case tk_node_idx G (tk_graph d) t of
        None \<Rightarrow> tk_remove_each G ts d
      | Some i \<Rightarrow> tk_remove_each G ts (tk_remove_node G t i d))"

definition tk_remove_batch :: "('g, task) di_ops \<Rightarrow> task list \<Rightarrow> 'g tdeps \<Rightarrow> 'g tdeps option" where
  "tk_remove_batch G ts d = tk_emit_leaves G (tk_remove_each G ts d)"

section \<open>Execution state\<close>

record task_completion_state =
  cs_completed :: "task_key_t set"
  cs_did_work :: "task_key_t set"
  cs_cache_keys :: "task_key_t \<rightharpoonup> ustr"

definition cs_merge :: "task_completion_state \<Rightarrow> task_completion_state \<Rightarrow> task_completion_state" where
  "cs_merge a b =
     \<lparr> cs_completed = cs_completed a \<union> cs_completed b, cs_did_work = cs_did_work a \<union> cs_did_work b,
       cs_cache_keys = cs_cache_keys a ++ cs_cache_keys b \<rparr>"

definition completion_state :: "'g tdeps \<Rightarrow> task_completion_state" where
  "completion_state d =
     \<lparr> cs_completed = tk_removed d, cs_did_work = tk_did_work d, cs_cache_keys = tk_cache_keys d \<rparr>"

definition is_runnable_post_dep :: "'g tdeps \<Rightarrow> task \<Rightarrow> bool" where
  "is_runnable_post_dep d t =
     (case tk_post_dep_parents d (task_key t) of
        Some parents \<Rightarrow> (\<exists>p\<in>set parents. p \<in> tk_executed d)
      | None \<Rightarrow> False)"

definition has_executed :: "'g tdeps \<Rightarrow> task \<Rightarrow> bool" where
  "has_executed d t \<longleftrightarrow> task_key t \<in> tk_executed d"

definition mark_executed :: "task \<Rightarrow> 'g tdeps \<Rightarrow> 'g tdeps" where
  "mark_executed t d = d\<lparr> tk_executed := insert (task_key t) (tk_executed d) \<rparr>"

definition unmark_executed :: "task \<Rightarrow> 'g tdeps \<Rightarrow> 'g tdeps" where
  "unmark_executed t d = d\<lparr> tk_executed := tk_executed d - {task_key t} \<rparr>"

definition mark_did_work :: "task \<Rightarrow> 'g tdeps \<Rightarrow> 'g tdeps" where
  "mark_did_work t d = d\<lparr> tk_did_work := insert (task_key t) (tk_did_work d) \<rparr>"

definition mark_cache_key :: "task \<Rightarrow> ustr \<Rightarrow> 'g tdeps \<Rightarrow> 'g tdeps" where
  "mark_cache_key t k d = d\<lparr> tk_cache_keys := (tk_cache_keys d)(task_key t \<mapsto> k) \<rparr>"

record task_dependency_state =
  ds_cache_keys :: "ustr list"
  ds_any_did_work :: bool
  ds_any_unkeyed_did_work :: bool

definition keys_at :: "(task_key_t \<rightharpoonup> task_key_t list) \<Rightarrow> task_key_t \<Rightarrow> task_key_t list" where
  "keys_at m k = (case m k of Some ks \<Rightarrow> ks | None \<Rightarrow> [])"

definition dependency_state :: "'g tdeps \<Rightarrow> task \<Rightarrow> task_dependency_state" where
  "dependency_state d t =
     (let key = task_key t;
          deps = keys_at (tk_dep_edges d) key @ keys_at (tk_post_dep_parents d) key
      in \<lparr> ds_cache_keys = remdups (sort (List.map_filter (tk_cache_keys d) deps)),
           ds_any_did_work = (\<exists>k\<in>set deps. k \<in> tk_did_work d),
           ds_any_unkeyed_did_work =
             (\<exists>k\<in>set deps. k \<in> tk_did_work d \<and> tk_cache_keys d k = None) \<rparr>)"

text \<open>The task of each key that is still in the graph, in the order the nodes were created.\<close>

definition all_in_creation_order :: "('g, task) di_ops \<Rightarrow> 'g tdeps \<Rightarrow> task list" where
  "all_in_creation_order G d =
     List.map_filter (\<lambda>key. find (\<lambda>t. task_key t = key) (rev (tk_weights G (tk_graph d))))
       (remdups (tk_creation_order d))"

definition mark_ambiguous_prefixes :: "('g, task) di_ops \<Rightarrow> 'g tdeps \<Rightarrow> 'g tdeps" where
  "mark_ambiguous_prefixes G d =
     (let g = tk_graph d;
          names = map t_display_name (tk_weights G g)
      in d\<lparr> tk_graph := foldl (\<lambda>g i.
            case di_weight G g i of
              Some t \<Rightarrow>
                if count_list names (t_display_name t) > 1
                then di_set_weight G g i (t\<lparr> t_show_args_in_prefix := True \<rparr>) else g
            | None \<Rightarrow> g) g [0..<di_node_count G g] \<rparr>)"

text \<open>
  Popping leaves one at a time: \<^const>\<open>None\<close> is a loop that does not end, or the panic of the
  \<^verbatim>\<open>unwrap\<close>.
\<close>

partial_function (option) is_linear_loop :: "('g, task) di_ops \<Rightarrow> nat \<Rightarrow> 'g \<Rightarrow> bool option" where
  "is_linear_loop G n g =
     (case tk_leaves G g of
        [] \<Rightarrow> Some True
      | [leaf] \<Rightarrow>
          (case find (\<lambda>i. case di_weight G g i of Some u \<Rightarrow> task_eq u leaf | None \<Rightarrow> False) [0..<n] of
             None \<Rightarrow> None
           | Some i \<Rightarrow> is_linear_loop G n (di_remove_node G g i))
      | _ \<Rightarrow> Some False)"

definition is_linear :: "('g, task) di_ops \<Rightarrow> 'g tdeps \<Rightarrow> bool option" where
  "is_linear G d = is_linear_loop G (di_node_count G (tk_graph d)) (tk_graph d)"

section \<open>Construction\<close>

record 'e task_env =
  te_is_remote :: "task \<Rightarrow> bool"
  te_fetch :: "task \<Rightarrow> 'e + task"
  te_render :: "task \<Rightarrow> 'e + task"
  te_resolve_all :: "task list \<Rightarrow> 'e + task list"
  te_resolve :: "task list \<Rightarrow> task \<Rightarrow> 'e + resolved_task_dependencies"

definition fetch_remote_task :: "'e task_env \<Rightarrow> task \<Rightarrow> 'e + task" where
  "fetch_remote_task E t =
     (if \<not> te_is_remote E t then Inr t
      else case te_fetch E t of
             Inl e \<Rightarrow> Inl e
           | Inr t' \<Rightarrow> Inr (with_run_phase (t_run_phase t) t'))"

text \<open>The local state of \<^verbatim>\<open>new_with_cycle_limit\<close>; the top of the stack is the head of the list.\<close>

record 'g build =
  b_graph :: 'g
  b_indexes :: "task_key_t \<rightharpoonup> nat"
  b_stack :: "task list"
  b_seen :: "task_key_t set"
  b_direct_post_parents :: "(task_key_t, task_key_t list) imap"
  b_dep_edges :: "(task_key_t, task_key_t list) imap"
  b_wait_edges :: "(task_key_t \<times> task) list"

text \<open>\<^verbatim>\<open>entry(k).or_default().insert(x)\<close> on a map of sets: the sets are lists without repetition.\<close>

definition mset_insert :: "task_key_t \<Rightarrow> task_key_t \<Rightarrow> (task_key_t, task_key_t list) imap \<Rightarrow> (task_key_t, task_key_t list) imap" where
  "mset_insert k x m =
     (let xs = (case map_of m k of Some xs \<Rightarrow> xs | None \<Rightarrow> [])
      in imap_insert k (if x \<in> set xs then xs else xs @ [x]) m)"

definition add_idx :: "('g, task) di_ops \<Rightarrow> task \<Rightarrow> 'g build \<Rightarrow> 'g build \<times> nat" where
  "add_idx G t b =
     (case b_indexes b (task_key t) of
        Some i \<Rightarrow> (b, i)
      | None \<Rightarrow>
          (case di_add_node G (b_graph b) t of
             (g, i) \<Rightarrow> (b\<lparr> b_graph := g, b_indexes := (b_indexes b)(task_key t \<mapsto> i) \<rparr>, i)))"

fun build_roots :: "('g, task) di_ops \<Rightarrow> 'e task_env \<Rightarrow> task list \<Rightarrow> 'g build \<Rightarrow> 'e + 'g build" where
  "build_roots G E [] b = Inr b"
| "build_roots G E (t # ts) b =
     (case fetch_remote_task E (with_run_phase NormalPhase t) of
        Inl e \<Rightarrow> Inl e
      | Inr t \<Rightarrow> build_roots G E ts (fst (add_idx G t (b\<lparr> b_stack := t # b_stack b \<rparr>))))"

text \<open>The loops over the dependencies of one task.\<close>

fun build_depends ::
    "('g, task) di_ops \<Rightarrow> 'e task_env \<Rightarrow> task \<Rightarrow> nat \<Rightarrow> task list \<Rightarrow> 'g build \<Rightarrow> 'e + 'g build" where
  "build_depends G E a a_idx [] b = Inr b"
| "build_depends G E a a_idx (t # ts) b =
     (case fetch_remote_task E (with_run_phase (t_run_phase a) t) of
        Inl e \<Rightarrow> Inl e
      | Inr t \<Rightarrow>
          (case add_idx G t b of
             (b, t_idx) \<Rightarrow>
               build_depends G E a a_idx ts
                 (b\<lparr> b_graph := di_update_edge G (b_graph b) a_idx t_idx,
                     b_dep_edges := mset_insert (task_key a) (task_key t) (b_dep_edges b),
                     b_stack := t # b_stack b \<rparr>)))"

fun build_post ::
    "('g, task) di_ops \<Rightarrow> 'e task_env \<Rightarrow> task \<Rightarrow> task list \<Rightarrow> 'g build \<Rightarrow> 'e + 'g build" where
  "build_post G E a [] b = Inr b"
| "build_post G E a (t # ts) b =
     (case fetch_remote_task E (with_run_phase PostPhase t) of
        Inl e \<Rightarrow> Inl e
      | Inr t \<Rightarrow>
          (let b = fst (add_idx G t b) in
           build_post G E a ts
             (b\<lparr> b_direct_post_parents := mset_insert (task_key t) (task_key a) (b_direct_post_parents b),
                 b_stack := t # b_stack b \<rparr>)))"

text \<open>The body of the worklist loop for a task that was not seen before.\<close>

definition build_task ::
    "('g, task) di_ops \<Rightarrow> 'e task_env \<Rightarrow> task list \<Rightarrow> task \<Rightarrow> 'g build \<Rightarrow> 'e + 'g build" where
  "build_task G E all_tasks a b =
     (case te_render E a of
        Inl e \<Rightarrow> Inl e
      | Inr a \<Rightarrow>
          (case add_idx G a b of
             (b, a_idx) \<Rightarrow>
               let b = b\<lparr> b_graph := di_set_weight G (b_graph b) a_idx a \<rparr> in
               (case te_resolve E all_tasks a of
                  Inl e \<Rightarrow> Inl e
                | Inr resolved \<Rightarrow>
                    (case build_depends G E a a_idx (rd_depends resolved) b of
                       Inl e \<Rightarrow> Inl e
                     | Inr b \<Rightarrow>
                         build_post G E a (rd_depends_post resolved)
                           (b\<lparr> b_wait_edges := b_wait_edges b
                                @ map (\<lambda>t. (task_key a, t)) (rd_wait_for resolved) \<rparr>)))))"

partial_function (option) build_loop ::
    "('g, task) di_ops \<Rightarrow> 'e task_env \<Rightarrow> task list \<Rightarrow> 'g build \<Rightarrow> ('e + 'g build) option" where
  "build_loop G E all_tasks b =
     (case b_stack b of
        [] \<Rightarrow> Some (Inr b)
      | a # stack \<Rightarrow>
          (let b = b\<lparr> b_stack := stack \<rparr> in
           if task_key a \<in> b_seen b then build_loop G E all_tasks b
           else (case build_task G E all_tasks a (b\<lparr> b_seen := insert (task_key a) (b_seen b) \<rparr>) of
                   Inl e \<Rightarrow> Some (Inl e)
                 | Inr b \<Rightarrow> build_loop G E all_tasks b)))"

text \<open>Propagating the triggering parents through the dependencies of a post task.\<close>

fun post_push ::
    "task_key_t \<Rightarrow> task_key_t list \<Rightarrow> (task_key_t, task_key_t list) imap \<times> (task_key_t \<times> task_key_t) list
     \<Rightarrow> (task_key_t, task_key_t list) imap \<times> (task_key_t \<times> task_key_t) list" where
  "post_push parent [] st = st"
| "post_push parent (dep # deps) (pp, pending) =
     (if snd (snd (snd dep)) \<noteq> PostPhase \<or> dep = parent then post_push parent deps (pp, pending)
      else if parent \<in> set (case map_of pp dep of Some xs \<Rightarrow> xs | None \<Rightarrow> [])
      then post_push parent deps (pp, pending)
      else post_push parent deps (mset_insert dep parent pp, pending @ [(dep, parent)]))"

partial_function (option) post_loop ::
    "(task_key_t, task_key_t list) imap \<Rightarrow> (task_key_t, task_key_t list) imap \<Rightarrow> (task_key_t \<times> task_key_t) list
     \<Rightarrow> (task_key_t, task_key_t list) imap option" where
  "post_loop dep_edges pp pending =
     (case pending of
        [] \<Rightarrow> Some pp
      | (post_key, parent) # rest \<Rightarrow>
          (case post_push parent (case map_of dep_edges post_key of Some ds \<Rightarrow> ds | None \<Rightarrow> []) (pp, rest) of
             (pp', pending') \<Rightarrow> post_loop dep_edges pp' pending'))"

text \<open>
  The seed: every direct parent once.  The maps of the code iterate in an arbitrary order,
  the model in the order of insertion.
\<close>

definition post_seed ::
    "(task_key_t, task_key_t list) imap \<Rightarrow> (task_key_t, task_key_t list) imap \<times> (task_key_t \<times> task_key_t) list" where
  "post_seed direct =
     (direct, concat (map (\<lambda>(k, ps). map (\<lambda>p. (k, p)) ps) direct))"

text \<open>The barrier edges; \<^const>\<open>None\<close> is a panic of \<^verbatim>\<open>indexes[key]\<close>.\<close>

fun add_barriers ::
    "('g, task) di_ops \<Rightarrow> (task_key_t \<rightharpoonup> nat) \<Rightarrow> (task_key_t \<times> task_key_t) list \<Rightarrow> 'g \<Rightarrow> 'g option" where
  "add_barriers G ix [] g = Some g"
| "add_barriers G ix ((post_key, parent) # es) g =
     (case ix post_key of
        None \<Rightarrow> None
      | Some i \<Rightarrow> (case ix parent of None \<Rightarrow> None | Some j \<Rightarrow> add_barriers G ix es (di_update_edge G g i j)))"

definition wait_target :: "('g, task) di_ops \<Rightarrow> 'g \<Rightarrow> task_run_phase \<Rightarrow> task \<Rightarrow> nat option" where
  "wait_target G g phase target =
     (let matches = filter (\<lambda>i. case di_weight G g i of
              Some t \<Rightarrow> same_task_without_phase t target | None \<Rightarrow> False) [0..<di_node_count G g]
      in case find (\<lambda>i. case di_weight G g i of Some t \<Rightarrow> t_run_phase t = phase | None \<Rightarrow> False) matches of
           Some i \<Rightarrow> Some i
         | None \<Rightarrow> (case matches of [] \<Rightarrow> None | i # _ \<Rightarrow> Some i))"

fun add_waits ::
    "('g, task) di_ops \<Rightarrow> (task_key_t \<rightharpoonup> nat) \<Rightarrow> (task_key_t \<times> task) list \<Rightarrow> 'g \<Rightarrow> 'g option" where
  "add_waits G ix [] g = Some g"
| "add_waits G ix ((waiting_key, target) # es) g =
     (case ix waiting_key of
        None \<Rightarrow> None
      | Some i \<Rightarrow>
          (case wait_target G g (snd (snd (snd waiting_key))) target of
             None \<Rightarrow> add_waits G ix es g
           | Some j \<Rightarrow> add_waits G ix es (di_update_edge G g i j)))"

datatype 'e deps_error =
    DepsFailed 'e
  | TaskCycleError "ustr list list" "task_key_t list list"

definition tk_empty :: "'g \<Rightarrow> (task_key_t, task_key_t list) imap \<Rightarrow> (task_key_t, task_key_t list) imap
    \<Rightarrow> task_key_t list \<Rightarrow> 'g tdeps" where
  "tk_empty g dep_edges pp order =
     \<lparr> tk_graph = g, tk_sent = {}, tk_removed = {}, tk_executed = {}, tk_did_work = {},
       tk_cache_keys = Map.empty, tk_dep_edges = map_of dep_edges, tk_post_dep_parents = map_of pp,
       tk_creation_order = order, tk_tx = [], tk_open = False \<rparr>"

text \<open>The end of the construction: barriers, \<^verbatim>\<open>wait_for\<close> edges and the search for cycles.\<close>

definition finish_build ::
    "('g, task) di_ops \<Rightarrow> nat option \<Rightarrow> 'g build \<Rightarrow> ('e deps_error, 'g tdeps) outcome option" where
  "finish_build G cycle_limit b =
     (case post_loop (b_dep_edges b) (fst (post_seed (b_direct_post_parents b)))
             (snd (post_seed (b_direct_post_parents b))) of
        None \<Rightarrow> None
      | Some pp \<Rightarrow>
          (case add_barriers G (b_indexes b)
                  (concat (map (\<lambda>(k, ps). map (\<lambda>p. (k, p)) ps) pp)) (b_graph b) of
             None \<Rightarrow> Some Panicked
           | Some g \<Rightarrow>
               (case add_waits G (b_indexes b) (b_wait_edges b) g of
                  None \<Rightarrow> Some Panicked
                | Some g \<Rightarrow>
                    (case find_cycles (di_outgoing G g) (\<lambda>a c. c \<in> set (di_outgoing G g a)) (di_scc G g)
                            cycle_limit of
                       None \<Rightarrow> None
                     | Some cycles \<Rightarrow>
                         if cycles \<noteq> []
                         then Some (Failed (TaskCycleError
                           (map (List.map_filter (\<lambda>i. map_option task_cycle_label (di_weight G g i))) cycles)
                           (map (List.map_filter (\<lambda>i. map_option task_key (di_weight G g i))) cycles)))
                         else Some (Done (tk_empty g (b_dep_edges b) pp
                                            (map task_key (tk_weights G g))))))))"

definition build_init :: "('g, task) di_ops \<Rightarrow> 'g build" where
  "build_init G = \<lparr> b_graph = di_new G, b_indexes = Map.empty, b_stack = [], b_seen = {},
     b_direct_post_parents = [], b_dep_edges = [], b_wait_edges = [] \<rparr>"

definition new_with_cycle_limit ::
    "('g, task) di_ops \<Rightarrow> 'e task_env \<Rightarrow> task list \<Rightarrow> nat option
     \<Rightarrow> ('e deps_error, 'g tdeps) outcome option" where
  "new_with_cycle_limit G E tasks cycle_limit =
     (case build_roots G E tasks (build_init G) of
        Inl e \<Rightarrow> Some (Failed (DepsFailed e))
      | Inr b \<Rightarrow>
          (case te_resolve_all E tasks of
             Inl e \<Rightarrow> Some (Failed (DepsFailed e))
           | Inr all_tasks \<Rightarrow>
               (case build_loop G E all_tasks b of
                  None \<Rightarrow> None
                | Some (Inl e) \<Rightarrow> Some (Failed (DepsFailed e))
                | Some (Inr b) \<Rightarrow> finish_build G cycle_limit b)))"

definition tk_new :: "('g, task) di_ops \<Rightarrow> 'e task_env \<Rightarrow> task list \<Rightarrow> ('e deps_error, 'g tdeps) outcome option" where
  "tk_new G E tasks = new_with_cycle_limit G E tasks (Some 1)"

definition new_for_validation ::
    "('g, task) di_ops \<Rightarrow> 'e task_env \<Rightarrow> task list \<Rightarrow> ('e deps_error, 'g tdeps) outcome option" where
  "new_for_validation G E tasks = new_with_cycle_limit G E tasks None"

text \<open>Pruning the tasks a caller has completed, from the highest index down.\<close>

definition prune_completed :: "('g, task) di_ops \<Rightarrow> task_completion_state \<Rightarrow> 'g \<Rightarrow> 'g" where
  "prune_completed G completed g =
     foldl (di_remove_node G) g
       (rev (filter (\<lambda>i. case di_weight G g i of
            Some t \<Rightarrow> task_key t \<in> cs_completed completed | None \<Rightarrow> False) [0..<di_node_count G g]))"

definition new_pruned ::
    "('g, task) di_ops \<Rightarrow> 'e task_env \<Rightarrow> task list \<Rightarrow> task_completion_state
     \<Rightarrow> ('e deps_error, 'g tdeps) outcome option" where
  "new_pruned G E tasks completed =
     map_option (\<lambda>r. case r of
         Done d \<Rightarrow>
           Done (mark_ambiguous_prefixes G
             (d\<lparr> tk_did_work := tk_did_work d \<union> cs_did_work completed,
                 tk_cache_keys := tk_cache_keys d ++ cs_cache_keys completed,
                 tk_graph := prune_completed G completed (tk_graph d) \<rparr>))
       | Failed e \<Rightarrow> Failed e
       | Panicked \<Rightarrow> Panicked)
       (tk_new G E tasks)"

end
