(* ===== verification/Task_Run.thy ===== *)
theory Task_Run
  imports Task_Deps
begin

text \<open>
  The task graph while \<^verbatim>\<open>mise run\<close> works it off: the states that the operations reach from a
  freshly built graph, and what holds in all of them.  The lemmas are proved for every graph
  library that satisfies the laws of \<open>digraph\<close>.
\<close>

locale task_graph = digraph G valid
  for G :: "('g, task) di_ops" and valid :: "'g \<Rightarrow> bool"

interpretation vec_task: task_graph vec_ops vec_valid
  by (rule task_graph.intro) (rule vec.digraph_axioms)

section \<open>The emission loop\<close>

definition sent_tasks :: "task option list \<Rightarrow> task list" where
  "sent_tasks tx = List.map_filter id tx"

lemma sent_tasks_append [simp]: "sent_tasks (a @ b) = sent_tasks a @ sent_tasks b"
  by (induction a) (auto simp: sent_tasks_def List.map_filter_simps split: option.splits)

lemma sent_tasks_simps [simp]:
  "sent_tasks [] = []" "sent_tasks (Some t # tx) = t # sent_tasks tx" "sent_tasks (None # tx) = sent_tasks tx"
  by (simp_all add: sent_tasks_def List.map_filter_simps)

text \<open>The tasks handed out since the last subscription are pairwise different and marked as sent.\<close>

definition sent_once :: "'g tdeps \<Rightarrow> bool" where
  "sent_once d \<longleftrightarrow>
     distinct (map task_key (sent_tasks (tk_tx d))) \<and> task_key ` set (sent_tasks (tk_tx d)) \<subseteq> tk_sent d"

lemma emit_loop_frame [simp]:
  "tk_graph (tk_emit_loop ts d) = tk_graph d"
  "tk_removed (tk_emit_loop ts d) = tk_removed d"
  "tk_open (tk_emit_loop ts d) = tk_open d"
  by (induction ts d rule: tk_emit_loop.induct) (auto simp: Let_def)

lemma sent_once_send:
  "sent_once d \<Longrightarrow> task_key t \<notin> tk_sent d \<Longrightarrow>
     sent_once (d\<lparr> tk_sent := insert (task_key t) (tk_sent d), tk_tx := tk_tx d @ [Some t] \<rparr>)"
  by (auto simp: sent_once_def)

lemma emit_loop_sent_once: "sent_once d \<Longrightarrow> sent_once (tk_emit_loop ts d)"
proof (induction ts arbitrary: d)
  case (Cons t ts)
  have "task_key t \<notin> tk_sent d \<Longrightarrow> d\<lparr> tk_sent := insert (task_key t) (tk_sent d) - {task_key t} \<rparr> = d"
    by simp
  with Cons sent_once_send [of d t] show ?case by (simp add: Let_def)
qed simp

lemma emit_loop_messages:
  "\<exists>new. tk_tx (tk_emit_loop ts d) = tk_tx d @ map Some new \<and> set new \<subseteq> set ts
     \<and> (tk_open d \<longrightarrow> task_key ` set ts \<subseteq> tk_sent (tk_emit_loop ts d))
     \<and> tk_sent d \<subseteq> tk_sent (tk_emit_loop ts d)"
proof (induction ts d rule: tk_emit_loop.induct)
  case (1 d)
  show ?case by (intro exI [of _ "[]"]) simp
next
  case (2 t ts d)
  consider (old) "task_key t \<in> tk_sent d" | (sent) "task_key t \<notin> tk_sent d" "tk_open d"
    | (failed) "task_key t \<notin> tk_sent d" "\<not> tk_open d" by blast
  then show ?case
  proof cases
    case old
    then obtain new where "tk_tx (tk_emit_loop ts d) = tk_tx d @ map Some new" "set new \<subseteq> set ts"
      "tk_open d \<longrightarrow> task_key ` set ts \<subseteq> tk_sent (tk_emit_loop ts d)"
      "tk_sent d \<subseteq> tk_sent (tk_emit_loop ts d)"
      using "2.IH"(1) by auto
    with old show ?thesis by (intro exI [of _ new]) auto
  next
    case sent
    let ?d = "d\<lparr> tk_sent := insert (task_key t) (tk_sent d), tk_tx := tk_tx d @ [Some t] \<rparr>"
    obtain new where "tk_tx (tk_emit_loop ts ?d) = tk_tx ?d @ map Some new" "set new \<subseteq> set ts"
      "tk_open ?d \<longrightarrow> task_key ` set ts \<subseteq> tk_sent (tk_emit_loop ts ?d)"
      "tk_sent ?d \<subseteq> tk_sent (tk_emit_loop ts ?d)"
      using "2.IH"(2) sent by auto
    with sent show ?thesis by (intro exI [of _ "t # new"]) auto
  next
    case failed
    let ?d = "d\<lparr> tk_sent := insert (task_key t) (tk_sent d) - {task_key t} \<rparr>"
    have d: "?d = d" using failed by simp
    obtain new where "tk_tx (tk_emit_loop ts ?d) = tk_tx ?d @ map Some new" "set new \<subseteq> set ts"
      "tk_sent ?d \<subseteq> tk_sent (tk_emit_loop ts ?d)"
      using "2.IH"(3) failed by auto
    with failed d show ?thesis by (intro exI [of _ new]) auto
  qed
qed

section \<open>Invariant\<close>

context task_graph
begin

definition tk_inv :: "'g tdeps \<Rightarrow> bool" where
  "tk_inv d \<longleftrightarrow> valid (tk_graph d) \<and> acyclic (di_rel G (tk_graph d)) \<and> sent_once d"

lemma leaf_weight:
  assumes "valid g" and "i \<in> set (di_externals G g)"
  shows "\<exists>t. di_weight G g i = Some t \<and> t \<in> set (tk_leaves G g)"
proof -
  have "i < di_node_count G g" using assms di_externals_set by simp
  then obtain t where "di_weight G g i = Some t" using di_weight_iff [OF assms(1), of i] by blast
  with assms(2) show ?thesis by (auto simp: tk_leaves_def in_set_map_filter)
qed

lemma leaves_exist:
  assumes "tk_inv d" and "di_node_count G (tk_graph d) \<noteq> 0"
  shows "tk_leaves G (tk_graph d) \<noteq> []"
proof -
  obtain i where "i \<in> set (di_externals G (tk_graph d))"
    using di_leaf_exists assms unfolding tk_inv_def by (meson list.set_sel(1))
  with leaf_weight show ?thesis using assms(1) unfolding tk_inv_def
    by (metis empty_iff empty_set)
qed

text \<open>Emission never panics, keeps the invariant and only hands out leaves.\<close>

lemma emit_leaves_ok:
  assumes "tk_inv d"
  shows "\<exists>d' new. tk_emit_leaves G d = Some d' \<and> tk_inv d' \<and> tk_graph d' = tk_graph d
    \<and> sent_tasks (tk_tx d') = sent_tasks (tk_tx d) @ new
    \<and> set new \<subseteq> set (tk_leaves G (tk_graph d))
    \<and> tk_open d' = tk_open d
    \<and> (tk_open d \<longrightarrow> task_key ` set (tk_leaves G (tk_graph d)) \<subseteq> tk_sent d')
    \<and> (tk_open d \<and> di_node_count G (tk_graph d) = 0 \<longrightarrow> tk_tx d' \<noteq> [] \<and> last (tk_tx d') = None)"
proof -
  let ?ls = "tk_leaves G (tk_graph d)"
  let ?d = "tk_emit_loop ?ls d"
  obtain new where new: "tk_tx ?d = tk_tx d @ map Some new" "set new \<subseteq> set ?ls"
    "tk_open d \<longrightarrow> task_key ` set ?ls \<subseteq> tk_sent ?d"
    using emit_loop_messages by blast
  have so: "sent_tasks (map Some new) = new" by (induction new) auto
  have inv: "tk_inv ?d" using assms emit_loop_sent_once by (auto simp: tk_inv_def)
  show ?thesis
  proof (cases "di_node_count G (tk_graph d) = 0")
    case True
    let ?r = "if tk_open ?d then ?d\<lparr> tk_tx := tk_tx ?d @ [None] \<rparr> else ?d"
    have "tk_emit_leaves G d = Some ?r"
      using True by (simp add: tk_emit_leaves_def tk_is_empty_def Let_def)
    moreover have "tk_inv ?r" using inv by (auto simp: tk_inv_def sent_once_def)
    ultimately show ?thesis
      using new so by (intro exI [of _ ?r] exI [of _ new]) auto
  next
    case False
    then have "?ls \<noteq> []" using leaves_exist [OF assms] by simp
    then have "tk_emit_leaves G d = Some ?d"
      using False by (simp add: tk_emit_leaves_def tk_is_empty_def Let_def)
    with inv new so False show ?thesis by (intro exI [of _ ?d] exI [of _ new]) auto
  qed
qed

lemma node_idx_range: "tk_node_idx G g t = Some i \<Longrightarrow> i < di_node_count G g"
  unfolding tk_node_idx_def by (auto simp: find_Some_iff)

lemma remove_node_inv:
  assumes "tk_inv d" and "i < di_node_count G (tk_graph d)"
  shows "tk_inv (tk_remove_node G t i d)"
proof -
  obtain m where "di_node_count G (tk_graph d) = Suc m" "i \<le> m"
    using assms(2) by (cases "di_node_count G (tk_graph d)") auto
  with assms di_rem di_rem_acyclic [of "tk_graph d" i] show ?thesis
    by (auto simp: tk_inv_def tk_remove_node_def sent_once_def)
qed

lemma remove_each_inv: "tk_inv d \<Longrightarrow> tk_inv (tk_remove_each G ts d)"
proof (induction ts arbitrary: d)
  case Nil
  then show ?case by simp
next
  case (Cons t ts)
  then show ?case
    using node_idx_range remove_node_inv by (auto split: option.splits)
qed

lemma subscribe_ok:
  assumes "tk_inv d"
  shows "\<exists>d'. tk_subscribe G d = Some d' \<and> tk_inv d' \<and> tk_open d'"
proof -
  have "tk_inv (d\<lparr> tk_tx := [], tk_open := True \<rparr>)"
    using assms by (simp add: tk_inv_def sent_once_def)
  from emit_leaves_ok [OF this] show ?thesis by (auto simp: tk_subscribe_def)
qed

lemma remove_ok:
  assumes "tk_inv d"
  shows "\<exists>d'. tk_remove G t d = Some d' \<and> tk_inv d'"
proof (cases "tk_node_idx G (tk_graph d) t")
  case None
  with assms show ?thesis by (simp add: tk_remove_def)
next
  case (Some i)
  have "tk_inv (tk_remove_node G t i d)"
    using remove_node_inv [OF assms node_idx_range [OF Some]] .
  from emit_leaves_ok [OF this] Some show ?thesis by (auto simp: tk_remove_def)
qed

lemma remove_batch_ok:
  assumes "tk_inv d"
  shows "\<exists>d'. tk_remove_batch G ts d = Some d' \<and> tk_inv d'"
  using emit_leaves_ok [OF remove_each_inv [OF assms, of ts]] unfolding tk_remove_batch_def by blast

text \<open>What one removal hands out, and that the runner is never left without anything to wait for.\<close>

lemma remove_emits:
  assumes "tk_inv d" and "tk_node_idx G (tk_graph d) t = Some i"
  shows "\<exists>d' new. tk_remove G t d = Some d' \<and> tk_graph d' = di_remove_node G (tk_graph d) i
    \<and> sent_tasks (tk_tx d') = sent_tasks (tk_tx d) @ new
    \<and> set new \<subseteq> set (tk_leaves G (tk_graph d'))
    \<and> (tk_open d \<longrightarrow>
        (if di_node_count G (tk_graph d') = 0 then tk_tx d' \<noteq> [] \<and> last (tk_tx d') = None
         else \<exists>u\<in>set (tk_leaves G (tk_graph d')). task_key u \<in> tk_sent d'))"
proof -
  let ?d = "tk_remove_node G t i d"
  have inv: "tk_inv ?d" using remove_node_inv [OF assms(1) node_idx_range [OF assms(2)]] .
  obtain d' new where e: "tk_emit_leaves G ?d = Some d'" "tk_inv d'" "tk_graph d' = tk_graph ?d"
    "sent_tasks (tk_tx d') = sent_tasks (tk_tx ?d) @ new"
    "set new \<subseteq> set (tk_leaves G (tk_graph ?d))"
    "tk_open ?d \<longrightarrow> task_key ` set (tk_leaves G (tk_graph ?d)) \<subseteq> tk_sent d'"
    "tk_open ?d \<and> di_node_count G (tk_graph ?d) = 0 \<longrightarrow> tk_tx d' \<noteq> [] \<and> last (tk_tx d') = None"
    using emit_leaves_ok [OF inv] by blast
  have "di_node_count G (tk_graph d') \<noteq> 0 \<Longrightarrow> tk_leaves G (tk_graph d') \<noteq> []"
    using leaves_exist [OF e(2)] .
  then have "\<exists>u. u \<in> set (tk_leaves G (tk_graph d'))" if "di_node_count G (tk_graph d') \<noteq> 0"
    using that hd_in_set by blast
  moreover have "tk_open ?d = tk_open d" by (simp add: tk_remove_node_def)
  ultimately have "di_node_count G (tk_graph d') \<noteq> 0 \<Longrightarrow> tk_open d \<Longrightarrow>
      \<exists>u\<in>set (tk_leaves G (tk_graph d')). task_key u \<in> tk_sent d'"
    using e(3,6) by (metis image_subset_iff)
  with e assms(2) show ?thesis
    by (intro exI [of _ d'] exI [of _ new]) (auto simp: tk_remove_def tk_remove_node_def)
qed

end

section \<open>Reachable states\<close>

text \<open>
  The operations of the runner in any order: subscribing, reporting tasks as finished one at
  a time or in a batch, marking them, and dropping the receiver.
\<close>

inductive tk_reach :: "('g, task) di_ops \<Rightarrow> 'g tdeps \<Rightarrow> 'g tdeps \<Rightarrow> bool" for G d0 where
  reach_start: "tk_reach G d0 d0"
| reach_subscribe: "tk_reach G d0 d \<Longrightarrow> tk_subscribe G d = Some d' \<Longrightarrow> tk_reach G d0 d'"
| reach_remove: "tk_reach G d0 d \<Longrightarrow> tk_remove G t d = Some d' \<Longrightarrow> tk_reach G d0 d'"
| reach_batch: "tk_reach G d0 d \<Longrightarrow> tk_remove_batch G ts d = Some d' \<Longrightarrow> tk_reach G d0 d'"
| reach_executed: "tk_reach G d0 d \<Longrightarrow> tk_reach G d0 (mark_executed t d)"
| reach_unmark: "tk_reach G d0 d \<Longrightarrow> tk_reach G d0 (unmark_executed t d)"
| reach_work: "tk_reach G d0 d \<Longrightarrow> tk_reach G d0 (mark_did_work t d)"
| reach_cache: "tk_reach G d0 d \<Longrightarrow> tk_reach G d0 (mark_cache_key t k d)"
| reach_hang_up: "tk_reach G d0 d \<Longrightarrow> tk_reach G d0 (d\<lparr> tk_open := False \<rparr>)"

text \<open>A graph as the construction returns it.\<close>

definition fresh_deps :: "('g, task) di_ops \<Rightarrow> ('g \<Rightarrow> bool) \<Rightarrow> 'g tdeps \<Rightarrow> bool" where
  "fresh_deps G valid d \<longleftrightarrow> valid (tk_graph d) \<and> acyclic (di_rel G (tk_graph d)) \<and> tk_tx d = []"

context task_graph
begin

lemma reach_inv: "tk_reach G d0 d \<Longrightarrow> fresh_deps G valid d0 \<Longrightarrow> tk_inv d"
proof (induction rule: tk_reach.induct)
  case reach_start
  then show ?case by (simp add: fresh_deps_def tk_inv_def sent_once_def)
next
  case (reach_subscribe d d')
  with subscribe_ok [of d] show ?case by auto
next
  case (reach_remove d t d')
  with remove_ok [of d t] show ?case by auto
next
  case (reach_batch d ts d')
  with remove_batch_ok [of d ts] show ?case by auto
qed (simp_all add: tk_inv_def sent_once_def mark_executed_def unmark_executed_def
    mark_did_work_def mark_cache_key_def)

end

text \<open>
  The runner never waits for nothing: as long as it listens, reporting a task as
  finished either empties the graph and closes the stream, or leaves in the graph a task
  that waits for nothing and has been handed out.
\<close>

lemma task_run_live:
  assumes "digraph G valid" and "fresh_deps G valid d0" and "tk_reach G d0 d"
    and "tk_open d" and "tk_node_idx G (tk_graph d) t = Some i"
  shows "\<exists>d'. tk_remove G t d = Some d'
    \<and> (if di_node_count G (tk_graph d') = 0 then tk_tx d' \<noteq> [] \<and> last (tk_tx d') = None
       else \<exists>u j. di_weight G (tk_graph d') j = Some u \<and> di_outgoing G (tk_graph d') j = []
              \<and> task_key u \<in> tk_sent d')"
proof -
  have tg: "task_graph G valid" using assms(1) by (rule task_graph.intro)
  have inv: "task_graph.tk_inv G valid d"
    using task_graph.reach_inv [OF tg assms(3,2)] .
  obtain d' where d': "tk_remove G t d = Some d'"
    and live: "if di_node_count G (tk_graph d') = 0 then tk_tx d' \<noteq> [] \<and> last (tk_tx d') = None
       else \<exists>u\<in>set (tk_leaves G (tk_graph d')). task_key u \<in> tk_sent d'"
    using task_graph.remove_emits [OF tg inv assms(5)] assms(4) by auto
  have v: "valid (tk_graph d')"
    using task_graph.remove_ok [OF tg inv, of t] d' by (auto simp: task_graph.tk_inv_def [OF tg])
  show ?thesis
  proof (cases "di_node_count G (tk_graph d') = 0")
    case True
    with d' live show ?thesis by auto
  next
    case False
    then obtain u where u: "u \<in> set (tk_leaves G (tk_graph d'))" "task_key u \<in> tk_sent d'"
      using live by auto
    from u(1) obtain j where "j \<in> set (di_externals G (tk_graph d'))" "di_weight G (tk_graph d') j = Some u"
      by (auto simp: tk_leaves_def in_set_map_filter)
    moreover from this(1) have "di_outgoing G (tk_graph d') j = []"
      using digraph.di_externals_set [OF assms(1) v] by simp
    ultimately show ?thesis using d' u(2) False by auto
  qed
qed


section \<open>A concrete run\<close>

definition demo_task :: "ustr \<Rightarrow> env_directive list \<Rightarrow> task" where
  "demo_task name overlay = \<lparr> t_name = name, t_display_name = name, t_args = [], t_env = [],
     t_overlay_env = overlay, t_run_phase = NormalPhase, t_show_args_in_prefix = False \<rparr>"

text \<open>Task b waits for task a.\<close>

definition demo_graph :: "task vec_graph" where
  "demo_graph = ([demo_task (lit ''a'') [], demo_task (lit ''b'') []], [(1, 0)])"

definition demo_deps :: "task vec_graph tdeps" where
  "demo_deps = tk_empty demo_graph [] [] []"

definition demo_listening :: "task vec_graph tdeps" where
  "demo_listening = demo_deps\<lparr> tk_open := True, tk_sent := {task_key (demo_task (lit ''a'') [])},
     tk_tx := [Some (demo_task (lit ''a'') [])] \<rparr>"

lemma demo_fresh: "fresh_deps vec_ops vec_valid demo_deps"
proof -
  have "acyclic {(1 :: nat, 0 :: nat)}"
    by (simp add: acyclic_insert) (simp add: acyclic_def)
  then show ?thesis
    by (simp add: fresh_deps_def demo_deps_def tk_empty_def demo_graph_def vec_ops_def vec_valid_def)
qed

lemma demo_reach: "tk_reach vec_ops demo_deps demo_listening"
proof -
  have "tk_subscribe vec_ops demo_deps = Some demo_listening"
    by (simp add: tk_subscribe_def tk_emit_leaves_def tk_leaves_def tk_is_empty_def demo_listening_def
        demo_deps_def tk_empty_def demo_graph_def vec_ops_def vec_outgoing_def List.map_filter_simps Let_def)
  then show ?thesis by (rule reach_subscribe [OF reach_start])
qed


section \<open>Tasks that are equal but have different keys\<close>


end
