(* ===== verification/Task_Build.thy ===== *)
theory Task_Build
  imports Task_Run
begin

text \<open>
  The construction of the task graph: every node has its own key, every declared dependency
  is an edge, the whole subtree of a post task waits for the tasks that triggered it, the
  search for cycles leaves only acyclic graphs, and no lookup in the construction panics.
\<close>

section \<open>Maps of sets\<close>

definition mset_mem :: "(task_key_t, task_key_t list) imap \<Rightarrow> task_key_t \<Rightarrow> task_key_t \<Rightarrow> bool" where
  "mset_mem m k x \<longleftrightarrow> (\<exists>xs. map_of m k = Some xs \<and> x \<in> set xs)"

lemma mset_mem_Nil [simp]: "\<not> mset_mem [] k x"
  by (simp add: mset_mem_def)

lemma mset_mem_insert [simp]:
  "mset_mem (mset_insert k x m) k' x' \<longleftrightarrow> mset_mem m k' x' \<or> k' = k \<and> x' = x"
  by (cases "map_of m k") (auto simp: mset_mem_def mset_insert_def)

lemma mset_insert_distinct: "distinct (map fst m) \<Longrightarrow> distinct (map fst (mset_insert k x m))"
  by (simp add: mset_insert_def Let_def distinct_imap_insert)

lemma mset_mem_alt:
  "x \<in> set (case map_of m k of Some xs \<Rightarrow> xs | None \<Rightarrow> []) \<longleftrightarrow> mset_mem m k x"
  by (cases "map_of m k") (auto simp: mset_mem_def)

lemma mset_pairs:
  "distinct (map fst m) \<Longrightarrow>
     set (concat (map (\<lambda>(k, ps). map (\<lambda>p. (k, p)) ps) m)) = {(k, p). mset_mem m k p}"
  by (fastforce simp: mset_mem_def dest: map_of_SomeD)

section \<open>Propagation through the post subtree\<close>

lemma post_push_effect:
  assumes "post_push parent deps (pp, pending) = (pp', pending')"
  shows "\<exists>new. pending' = pending @ new
    \<and> (\<forall>k p. mset_mem pp' k p \<longleftrightarrow> mset_mem pp k p \<or> (k, p) \<in> set new)
    \<and> distinct new
    \<and> set new \<subseteq> {(k, p). \<not> mset_mem pp k p \<and> p = parent \<and> k \<in> set deps}
    \<and> (\<forall>dep\<in>set deps. snd (snd (snd dep)) = PostPhase \<and> dep \<noteq> parent \<longrightarrow> mset_mem pp' dep parent)
    \<and> (distinct (map fst pp) \<longrightarrow> distinct (map fst pp'))"
  using assms
proof (induction deps arbitrary: pp pending)
  case Nil
  then show ?case by (intro exI [of _ "[]"]) simp
next
  case (Cons dep deps)
  show ?case
  proof (cases "snd (snd (snd dep)) \<noteq> PostPhase \<or> dep = parent \<or> mset_mem pp dep parent")
    case True
    then have "post_push parent deps (pp, pending) = (pp', pending')"
      using Cons.prems True by (cases "map_of pp dep") (auto simp: mset_mem_def split: if_splits)
    from Cons.IH [OF this] obtain new where n: "pending' = pending @ new"
      "\<forall>k p. mset_mem pp' k p \<longleftrightarrow> mset_mem pp k p \<or> (k, p) \<in> set new" "distinct new"
      "set new \<subseteq> {(k, p). \<not> mset_mem pp k p \<and> p = parent \<and> k \<in> set deps}"
      "\<forall>dep\<in>set deps. snd (snd (snd dep)) = PostPhase \<and> dep \<noteq> parent \<longrightarrow> mset_mem pp' dep parent"
      "distinct (map fst pp) \<longrightarrow> distinct (map fst pp')"
      by blast
    have "mset_mem pp dep parent \<Longrightarrow> mset_mem pp' dep parent" using n(2) by blast
    with True n(5) have "\<forall>x\<in>set (dep # deps). snd (snd (snd x)) = PostPhase \<and> x \<noteq> parent
        \<longrightarrow> mset_mem pp' x parent"
      by (simp only: set_simps) blast
    moreover have "set new \<subseteq> {(k, p). \<not> mset_mem pp k p \<and> p = parent \<and> k \<in> set (dep # deps)}"
      using n(4) by auto
    ultimately show ?thesis using n(1-3,6) by blast
  next
    case False
    let ?pp = "mset_insert dep parent pp"
    have "post_push parent deps (?pp, pending @ [(dep, parent)]) = (pp', pending')"
      using Cons.prems False by (cases "map_of pp dep") (auto simp: mset_mem_def split: if_splits)
    from Cons.IH [OF this] obtain new where n: "pending' = (pending @ [(dep, parent)]) @ new"
      "\<forall>k p. mset_mem pp' k p \<longleftrightarrow> mset_mem ?pp k p \<or> (k, p) \<in> set new" "distinct new"
      "set new \<subseteq> {(k, p). \<not> mset_mem ?pp k p \<and> p = parent \<and> k \<in> set deps}"
      "\<forall>dep\<in>set deps. snd (snd (snd dep)) = PostPhase \<and> dep \<noteq> parent \<longrightarrow> mset_mem pp' dep parent"
      "distinct (map fst ?pp) \<longrightarrow> distinct (map fst pp')"
      by blast
    have m: "mset_mem pp' dep parent" using n(2) mset_mem_insert by blast
    show ?thesis
    proof (intro exI [of _ "(dep, parent) # new"] conjI)
      show "\<forall>k p. mset_mem pp' k p \<longleftrightarrow> mset_mem pp k p \<or> (k, p) \<in> set ((dep, parent) # new)"
        using n(2) by (simp only: mset_mem_insert set_simps insert_iff prod.inject) blast
      show "distinct ((dep, parent) # new)" using n(3,4) by auto
      show "set ((dep, parent) # new) \<subseteq>
          {(k, p). \<not> mset_mem pp k p \<and> p = parent \<and> k \<in> set (dep # deps)}"
        using n(4) False by auto
      show "\<forall>x\<in>set (dep # deps). snd (snd (snd x)) = PostPhase \<and> x \<noteq> parent \<longrightarrow> mset_mem pp' x parent"
        using n(5) m by (simp only: set_simps) blast
      show "distinct (map fst pp) \<longrightarrow> distinct (map fst pp')"
        using n(6) mset_insert_distinct by blast
    qed (use n(1) in simp)
  qed
qed

text \<open>
  The parents are closed: whatever waits for a parent as part of its post subtree passes that
  on to its own dependencies in the post phase.
\<close>

definition post_closed :: "(task_key_t, task_key_t list) imap \<Rightarrow> (task_key_t, task_key_t list) imap \<Rightarrow> bool" where
  "post_closed de pp \<longleftrightarrow>
     (\<forall>k p dep. mset_mem pp k p \<and> mset_mem de k dep \<and> snd (snd (snd dep)) = PostPhase \<and> dep \<noteq> p
        \<longrightarrow> mset_mem pp dep p)"

lemma post_loop_result:
  assumes "finite X" and "finite P"
    and "\<forall>k dep. mset_mem de k dep \<longrightarrow> dep \<in> X"
    and "snd ` set pending \<subseteq> P"
    and "\<forall>(k, p)\<in>set pending. mset_mem pp k p"
    and "\<forall>k p dep. mset_mem pp k p \<and> mset_mem de k dep \<and> snd (snd (snd dep)) = PostPhase \<and> dep \<noteq> p
        \<longrightarrow> mset_mem pp dep p \<or> (k, p) \<in> set pending"
    and "distinct (map fst pp)"
  shows "\<exists>pp'. post_loop de pp pending = Some pp' \<and> post_closed de pp' \<and> distinct (map fst pp')
    \<and> (\<forall>k p. mset_mem pp k p \<longrightarrow> mset_mem pp' k p)
    \<and> (\<forall>k p. mset_mem pp' k p \<longrightarrow> mset_mem pp k p \<or> (k \<in> X \<and> p \<in> P))"
  using assms(4-)
proof (induction "2 * card (X \<times> P - {(k, p). mset_mem pp k p}) + length pending"
    arbitrary: pp pending rule: less_induct)
  case less
  show ?case
  proof (cases pending)
    case Nil
    then have "post_loop de pp pending = Some pp" by (subst post_loop.simps) simp
    moreover have "post_closed de pp" using less.prems(3) Nil by (simp add: post_closed_def)
    ultimately show ?thesis using less.prems(4) by (intro exI [of _ pp]) simp
  next
    case (Cons kp rest)
    obtain k p where kp: "kp = (k, p)" by (meson surj_pair)
    obtain pp1 pending1 where push:
      "post_push p (case map_of de k of Some ds \<Rightarrow> ds | None \<Rightarrow> []) (pp, rest) = (pp1, pending1)"
      by fastforce
    then have step: "post_loop de pp pending = post_loop de pp1 pending1"
      using Cons kp by (subst post_loop.simps) simp
    let ?ds = "case map_of de k of Some ds \<Rightarrow> ds | None \<Rightarrow> []"
    obtain new where n: "pending1 = rest @ new"
      "\<forall>k p. mset_mem pp1 k p \<longleftrightarrow> mset_mem pp k p \<or> (k, p) \<in> set new" "distinct new"
      "set new \<subseteq> {(k, q). \<not> mset_mem pp k q \<and> q = p \<and> k \<in> set ?ds}"
      "\<forall>dep\<in>set ?ds. snd (snd (snd dep)) = PostPhase \<and> dep \<noteq> p \<longrightarrow> mset_mem pp1 dep p"
      "distinct (map fst pp) \<longrightarrow> distinct (map fst pp1)"
      using post_push_effect [OF push] by blast
    have pP: "p \<in> P" using less.prems(1) Cons kp by auto
    have newXP: "set new \<subseteq> X \<times> P - {(k, p). mset_mem pp k p}"
      using n(4) assms(3) [unfolded mset_mem_alt [symmetric]] pP by blast
    let ?U = "\<lambda>pp. X \<times> P - {(k, p). mset_mem pp k p}"
    have "?U pp1 = ?U pp - set new" using n(2) by auto
    then have "card (?U pp1) = card (?U pp) - length new"
      using newXP n(3) by (simp add: card_Diff_subset distinct_card)
    moreover have "length new \<le> card (?U pp)"
      using newXP n(3) assms(1,2) card_mono [of "?U pp" "set new"] by (simp add: distinct_card)
    ultimately have "2 * card (?U pp1) + length pending1 < 2 * card (?U pp) + length pending"
      using n(1) Cons by simp
    moreover have "snd ` set pending1 \<subseteq> P"
      using less.prems(1) Cons n(1,4) pP by auto
    moreover have "\<forall>(k, p)\<in>set pending1. mset_mem pp1 k p"
      using less.prems(2) Cons n(1,2) by auto
    moreover have "\<forall>k' p' dep. mset_mem pp1 k' p' \<and> mset_mem de k' dep \<and> snd (snd (snd dep)) = PostPhase
        \<and> dep \<noteq> p' \<longrightarrow> mset_mem pp1 dep p' \<or> (k', p') \<in> set pending1"
    proof (intro allI impI)
      fix k' p' dep
      assume a: "mset_mem pp1 k' p' \<and> mset_mem de k' dep \<and> snd (snd (snd dep)) = PostPhase \<and> dep \<noteq> p'"
      show "mset_mem pp1 dep p' \<or> (k', p') \<in> set pending1"
      proof (cases "(k', p') = (k, p)")
        case True
        with a have "dep \<in> set ?ds" by (simp only: mset_mem_alt prod.inject)
        with True a n(5) show ?thesis by blast
      next
        case False
        with a n(1,2) less.prems(3) Cons kp show ?thesis by (metis Un_iff set_ConsD set_append)
      qed
    qed
    ultimately obtain pp' where "post_loop de pp1 pending1 = Some pp'" "post_closed de pp'"
      "distinct (map fst pp')" "\<forall>k p. mset_mem pp1 k p \<longrightarrow> mset_mem pp' k p"
      "\<forall>k p. mset_mem pp' k p \<longrightarrow> mset_mem pp1 k p \<or> (k \<in> X \<and> p \<in> P)"
      using less.hyps [of pp1 pending1] less.prems(4) n(6) by blast
    moreover from this(4) n(2) have "\<forall>k p. mset_mem pp k p \<longrightarrow> mset_mem pp' k p" by blast
    moreover from calculation(5) n(2) newXP
    have "\<forall>k p. mset_mem pp' k p \<longrightarrow> mset_mem pp k p \<or> (k \<in> X \<and> p \<in> P)" by blast
    ultimately show ?thesis using step by (intro exI [of _ pp'] conjI) simp_all
  qed
qed

section \<open>The invariant of the construction\<close>

text \<open>The occurrence of a dependency in a phase, after its file was fetched.\<close>

definition fetched :: "'e task_env \<Rightarrow> task_run_phase \<Rightarrow> task \<Rightarrow> task \<Rightarrow> bool" where
  "fetched E p t t' \<longleftrightarrow> fetch_remote_task E (with_run_phase p t) = Inr t'"

text \<open>What a task resolves to has been recorded.\<close>

definition recorded :: "'e task_env \<Rightarrow> task list \<Rightarrow> 'g build \<Rightarrow> task \<Rightarrow> bool" where
  "recorded E all_tasks b a \<longleftrightarrow> (\<exists>r. te_resolve E all_tasks a = Inr r
     \<and> (\<forall>t\<in>set (rd_depends r). \<exists>t'. fetched E (t_run_phase a) t t'
          \<and> mset_mem (b_dep_edges b) (task_key a) (task_key t'))
     \<and> (\<forall>t\<in>set (rd_depends_post r). \<exists>t'. fetched E PostPhase t t'
          \<and> mset_mem (b_direct_post_parents b) (task_key t') (task_key a))
     \<and> (\<forall>t\<in>set (rd_wait_for r). (task_key a, t) \<in> set (b_wait_edges b)))"

text \<open>
  What the finished graph owes a task: edges to the dependencies it resolves to, edges from the
  tasks that run after it, and an edge to an occurrence of each task it waits for, if there is one.
\<close>

definition edge_keys :: "('g, task) di_ops \<Rightarrow> 'g \<Rightarrow> task_key_t \<Rightarrow> task_key_t \<Rightarrow> bool" where
  "edge_keys G g k x \<longleftrightarrow> (\<exists>i j t u. di_weight G g i = Some t \<and> task_key t = k
     \<and> di_weight G g j = Some u \<and> task_key u = x \<and> (i, j) \<in> di_rel G g)"

definition honours :: "('g, task) di_ops \<Rightarrow> 'e task_env \<Rightarrow> task list \<Rightarrow> 'g \<Rightarrow> task \<Rightarrow> bool" where
  "honours G E all_tasks g a \<longleftrightarrow> (\<exists>r. te_resolve E all_tasks a = Inr r
     \<and> (\<forall>t\<in>set (rd_depends r). \<exists>t'. fetched E (t_run_phase a) t t' \<and> edge_keys G g (task_key a) (task_key t'))
     \<and> (\<forall>t\<in>set (rd_depends_post r). \<exists>t'. fetched E PostPhase t t' \<and> edge_keys G g (task_key t') (task_key a))
     \<and> (\<forall>t\<in>set (rd_wait_for r). (\<exists>i u. di_weight G g i = Some u \<and> same_task_without_phase u t) \<longrightarrow>
          (\<exists>u. same_task_without_phase u t \<and> edge_keys G g (task_key a) (task_key u))))"

text \<open>Every task of a post subtree waits for the tasks that triggered the subtree.\<close>

definition post_barrier :: "('g, task) di_ops \<Rightarrow> 'g tdeps \<Rightarrow> bool" where
  "post_barrier G d \<longleftrightarrow>
     (\<forall>k. \<forall>p\<in>set (keys_at (tk_post_dep_parents d) k). edge_keys G (tk_graph d) k p
        \<and> (\<forall>dep\<in>set (keys_at (tk_dep_edges d) k). snd (snd (snd dep)) = PostPhase \<and> dep \<noteq> p \<longrightarrow>
             p \<in> set (keys_at (tk_post_dep_parents d) dep)))"

definition well_built :: "('g, task) di_ops \<Rightarrow> 'e task_env \<Rightarrow> task list \<Rightarrow> 'g tdeps \<Rightarrow> bool" where
  "well_built G E all_tasks d \<longleftrightarrow>
     inj_on (\<lambda>i. map_option task_key (di_weight G (tk_graph d) i)) {..<di_node_count G (tk_graph d)}
     \<and> (\<forall>i a. di_weight G (tk_graph d) i = Some a \<longrightarrow> honours G E all_tasks (tk_graph d) a)
     \<and> (\<forall>k. \<forall>x\<in>set (keys_at (tk_dep_edges d) k). edge_keys G (tk_graph d) k x)
     \<and> post_barrier G d"

text \<open>The hypotheses on what the construction calls: rendering keeps a task's key, and finitely many occurrences are resolved.\<close>

definition render_keeps_key :: "'e task_env \<Rightarrow> bool" where
  "render_keeps_key E \<longleftrightarrow> (\<forall>a a'. te_render E a = Inr a' \<longrightarrow> task_key a' = task_key a)"

definition resolves_into :: "'e task_env \<Rightarrow> task_key_t set \<Rightarrow> bool" where
  "resolves_into E K \<longleftrightarrow> (\<forall>ts a r. te_resolve E ts a = Inr r \<longrightarrow>
     (\<forall>t\<in>set (rd_depends r @ rd_depends_post r). \<forall>p t'. fetched E p t t' \<longrightarrow> task_key t' \<in> K))"

text \<open>Keys are tuples; their quantifiers are kept in one piece.\<close>

declare split_paired_All [simp del] split_paired_Ex [simp del]

context task_graph
begin

text \<open>The index of a key is the one node with that key.\<close>

definition keyed :: "'g \<Rightarrow> (task_key_t \<rightharpoonup> nat) \<Rightarrow> bool" where
  "keyed g ix \<longleftrightarrow> valid g \<and> (\<forall>k i. ix k = Some i \<longleftrightarrow> (\<exists>t. di_weight G g i = Some t \<and> task_key t = k))"

definition edges_in :: "'g \<Rightarrow> (task_key_t \<rightharpoonup> nat) \<Rightarrow> (task_key_t, task_key_t list) imap \<Rightarrow> bool" where
  "edges_in g ix m \<longleftrightarrow>
     (\<forall>k x. mset_mem m k x \<longrightarrow> (\<exists>i j. ix k = Some i \<and> ix x = Some j \<and> (i, j) \<in> di_rel G g))"

definition keys_in :: "(task_key_t \<rightharpoonup> nat) \<Rightarrow> (task_key_t, task_key_t list) imap \<Rightarrow> bool" where
  "keys_in ix m \<longleftrightarrow> distinct (map fst m) \<and> (\<forall>k x. mset_mem m k x \<longrightarrow> k \<in> dom ix \<and> x \<in> dom ix)"

definition binv :: "'g build \<Rightarrow> bool" where
  "binv b \<longleftrightarrow> keyed (b_graph b) (b_indexes b)
     \<and> edges_in (b_graph b) (b_indexes b) (b_dep_edges b)
     \<and> keys_in (b_indexes b) (b_direct_post_parents b)
     \<and> (\<forall>w\<in>set (b_wait_edges b). fst w \<in> dom (b_indexes b))"

lemma keyed_range: "keyed g ix \<Longrightarrow> ix k = Some i \<Longrightarrow> i < di_node_count G g"
  unfolding keyed_def using di_weight_iff by fastforce

lemma edges_in_mono:
  "edges_in g ix m \<Longrightarrow> ix \<subseteq>\<^sub>m ix' \<Longrightarrow> di_rel G g \<subseteq> di_rel G g' \<Longrightarrow> edges_in g' ix' m"
  unfolding edges_in_def map_le_def dom_def by (metis (mono_tags, lifting) mem_Collect_eq option.distinct(1) subsetD)

lemma keys_in_mono: "keys_in ix m \<Longrightarrow> ix \<subseteq>\<^sub>m ix' \<Longrightarrow> keys_in ix' m"
  unfolding keys_in_def using map_le_implies_dom_le by blast

lemma binv_stack [simp]: "binv (b\<lparr> b_stack := s \<rparr>) = binv b" "binv (b\<lparr> b_seen := u \<rparr>) = binv b"
  by (simp_all add: binv_def)

lemma keyed_add:
  assumes k: "keyed g ix" and new: "ix (task_key t) = None" and a: "di_add_node G g t = (g', j)"
  shows "keyed g' (ix(task_key t \<mapsto> j)) \<and> di_weight G g j = None
    \<and> di_weight G g' = (di_weight G g)(j \<mapsto> t) \<and> di_rel G g' = di_rel G g"
proof -
  have law: "valid g'" "j = di_node_count G g" "di_weight G g' = (di_weight G g)(j \<mapsto> t)"
    "di_rel G g' = di_rel G g"
    using di_add [OF _ a] k by (auto simp: keyed_def)
  have none: "di_weight G g j = None"
    using k law(2) di_weight_iff [of g j] by (auto simp: keyed_def)
  have "(ix(task_key t \<mapsto> j)) x = Some i \<longleftrightarrow> (\<exists>u. di_weight G g' i = Some u \<and> task_key u = x)" for x i
  proof (cases "i = j")
    case True
    have "ix x \<noteq> Some j" using k none unfolding keyed_def by (metis option.distinct(1))
    with True law(3) show ?thesis by auto
  next
    case False
    have "ix x = Some i \<longleftrightarrow> (\<exists>u. di_weight G g i = Some u \<and> task_key u = x)"
      using k unfolding keyed_def by blast
    with False law(3) new show ?thesis by auto
  qed
  with law none show ?thesis unfolding keyed_def by blast
qed

lemma add_idx_ok:
  assumes "binv b" and "add_idx G t b = (b', i)"
  shows "binv b' \<and> b_indexes b' (task_key t) = Some i \<and> b_indexes b \<subseteq>\<^sub>m b_indexes b'
    \<and> (\<exists>g ix. b' = b\<lparr> b_graph := g, b_indexes := ix \<rparr>)
    \<and> (b' = b \<or> di_weight G (b_graph b) i = None
         \<and> di_weight G (b_graph b') = (di_weight G (b_graph b))(i \<mapsto> t))"
proof (cases "b_indexes b (task_key t)")
  case None
  obtain g j where a: "di_add_node G (b_graph b) t = (g, j)" by fastforce
  have b': "b' = b\<lparr> b_graph := g, b_indexes := (b_indexes b)(task_key t \<mapsto> j) \<rparr>" "i = j"
    using assms(2) None a by (auto simp: add_idx_def)
  have k: "keyed (b_graph b) (b_indexes b)" using assms(1) by (simp add: binv_def)
  have le: "b_indexes b \<subseteq>\<^sub>m (b_indexes b)(task_key t \<mapsto> j)"
    using None by (auto simp: map_le_def)
  show ?thesis
    using assms(1) b' edges_in_mono [OF _ le] keys_in_mono [OF _ le] map_le_implies_dom_le [OF le]
      keyed_add [OF k None a] le
    by (auto simp: binv_def)
next
  case (Some j)
  have "b' = b \<and> i = j" using assms(2) Some by (simp add: add_idx_def)
  then show ?thesis using assms(1) Some by (auto intro!: exI [of _ "b_graph b"] exI [of _ "b_indexes b"])
qed

lemma binv_edge:
  assumes "binv b" and "b_indexes b k = Some i" and "b_indexes b x = Some j"
  shows "binv (b\<lparr> b_graph := di_update_edge G (b_graph b) i j,
      b_dep_edges := mset_insert k x (b_dep_edges b) \<rparr>)"
proof -
  have k: "keyed (b_graph b) (b_indexes b)" using assms(1) by (simp add: binv_def)
  have law: "valid (di_update_edge G (b_graph b) i j)"
    "di_weight G (di_update_edge G (b_graph b) i j) = di_weight G (b_graph b)"
    "di_rel G (di_update_edge G (b_graph b) i j) = insert (i, j) (di_rel G (b_graph b))"
    using di_upd keyed_range [OF k assms(2)] keyed_range [OF k assms(3)] k by (auto simp: keyed_def)
  have "keyed (di_update_edge G (b_graph b) i j) (b_indexes b)"
    using k law unfolding keyed_def by simp
  moreover have "edges_in (di_update_edge G (b_graph b) i j) (b_indexes b) (mset_insert k x (b_dep_edges b))"
    using assms law(3) unfolding binv_def edges_in_def by (simp only: mset_mem_insert) blast
  ultimately show ?thesis using assms(1) by (simp add: binv_def)
qed

lemma binv_set_weight:
  assumes "binv b" and "b_indexes b (task_key a) = Some i"
  shows "binv (b\<lparr> b_graph := di_set_weight G (b_graph b) i a \<rparr>)"
proof -
  have k: "keyed (b_graph b) (b_indexes b)" using assms(1) by (simp add: binv_def)
  have law: "valid (di_set_weight G (b_graph b) i a)"
    "di_weight G (di_set_weight G (b_graph b) i a) = (di_weight G (b_graph b))(i \<mapsto> a)"
    "di_rel G (di_set_weight G (b_graph b) i a) = di_rel G (b_graph b)"
    using di_set keyed_range [OF k assms(2)] k by (auto simp: keyed_def)
  have "keyed (di_set_weight G (b_graph b) i a) (b_indexes b)"
    unfolding keyed_def
  proof (intro conjI allI)
    fix x j
    show "b_indexes b x = Some j \<longleftrightarrow>
        (\<exists>t. di_weight G (di_set_weight G (b_graph b) i a) j = Some t \<and> task_key t = x)"
    proof (cases "j = i")
      case True
      have "b_indexes b x = Some i \<longleftrightarrow> x = task_key a"
        using k assms(2) unfolding keyed_def by (metis option.inject)
      with True law(2) show ?thesis by auto
    next
      case False
      with k law(2) show ?thesis unfolding keyed_def by simp
    qed
  qed (rule law(1))
  with assms(1) law(3) show ?thesis by (simp add: binv_def edges_in_def)
qed

text \<open>
  What the construction adds while it works on one task: nothing is taken away, and a new
  node's task is on the stack.
\<close>

definition ext :: "task_key_t set \<Rightarrow> 'g build \<Rightarrow> 'g build \<Rightarrow> bool" where
  "ext K b b' \<longleftrightarrow> binv b' \<and> b_seen b' = b_seen b \<and> b_indexes b \<subseteq>\<^sub>m b_indexes b'
     \<and> set (b_stack b) \<subseteq> set (b_stack b') \<and> task_key ` set (b_stack b') \<subseteq> task_key ` set (b_stack b) \<union> K
     \<and> (\<forall>k x. mset_mem (b_dep_edges b) k x \<longrightarrow> mset_mem (b_dep_edges b') k x)
     \<and> (\<forall>k x. mset_mem (b_direct_post_parents b) k x \<longrightarrow> mset_mem (b_direct_post_parents b') k x)
     \<and> set (b_wait_edges b) \<subseteq> set (b_wait_edges b')
     \<and> di_weight G (b_graph b) \<subseteq>\<^sub>m di_weight G (b_graph b')
     \<and> (\<forall>i t. di_weight G (b_graph b') i = Some t \<longrightarrow>
          di_weight G (b_graph b) i = Some t
          \<or> di_weight G (b_graph b) i = None \<and> task_key t \<in> task_key ` set (b_stack b'))"

lemma extD:
  assumes "ext K b b'"
  shows "binv b'" and "b_seen b' = b_seen b" and "b_indexes b \<subseteq>\<^sub>m b_indexes b'"
    and "set (b_stack b) \<subseteq> set (b_stack b')"
    and "task_key ` set (b_stack b') \<subseteq> task_key ` set (b_stack b) \<union> K"
    and "mset_mem (b_dep_edges b) k x \<Longrightarrow> mset_mem (b_dep_edges b') k x"
    and "mset_mem (b_direct_post_parents b) k x \<Longrightarrow> mset_mem (b_direct_post_parents b') k x"
    and "set (b_wait_edges b) \<subseteq> set (b_wait_edges b')"
    and "di_weight G (b_graph b) \<subseteq>\<^sub>m di_weight G (b_graph b')"
    and "di_weight G (b_graph b') i = Some t \<Longrightarrow> di_weight G (b_graph b) i = Some t
      \<or> di_weight G (b_graph b) i = None \<and> task_key t \<in> task_key ` set (b_stack b')"
  using assms unfolding ext_def by simp_all

lemma ext_refl: "binv b \<Longrightarrow> ext K b b"
  by (simp add: ext_def)

lemma ext_trans:
  assumes 1: "ext K b b'" and 2: "ext K b' b''"
  shows "ext K b b''"
  unfolding ext_def
proof (intro conjI allI impI)
  fix i t
  assume w: "di_weight G (b_graph b'') i = Some t"
  show "di_weight G (b_graph b) i = Some t
      \<or> di_weight G (b_graph b) i = None \<and> task_key t \<in> task_key ` set (b_stack b'')"
  proof (cases "di_weight G (b_graph b') i")
    case None
    with extD(10) [OF 2 w] have "task_key t \<in> task_key ` set (b_stack b'')" by simp
    moreover have "di_weight G (b_graph b) i = None"
      using extD(9) [OF 1] None unfolding map_le_def by (metis domIff)
    ultimately show ?thesis by blast
  next
    case (Some u)
    with extD(10) [OF 2 w] have "di_weight G (b_graph b') i = Some t" by simp
    from extD(10) [OF 1 this] show ?thesis using extD(4) [OF 2] by blast
  qed
next
  show "task_key ` set (b_stack b'') \<subseteq> task_key ` set (b_stack b) \<union> K"
    using extD(5) [OF 1] extD(5) [OF 2] by blast
qed (simp_all add: extD(1,2) [OF 2] extD(2) [OF 1] extD(6,7) [OF 2]
      extD(6,7) [OF 1] map_le_trans [OF extD(3) [OF 1] extD(3) [OF 2]]
      map_le_trans [OF extD(9) [OF 1] extD(9) [OF 2]] subset_trans [OF extD(4) [OF 1] extD(4) [OF 2]]
      subset_trans [OF extD(8) [OF 1] extD(8) [OF 2]])

lemma ext_fields:
  assumes "ext K b b'" and "binv b''"
    and "b_seen b'' = b_seen b'" and "b_indexes b'' = b_indexes b'" and "b_stack b'' = b_stack b'"
    and "di_weight G (b_graph b'') = di_weight G (b_graph b')"
    and "\<And>k x. mset_mem (b_dep_edges b') k x \<Longrightarrow> mset_mem (b_dep_edges b'') k x"
    and "\<And>k x. mset_mem (b_direct_post_parents b') k x \<Longrightarrow> mset_mem (b_direct_post_parents b'') k x"
    and "set (b_wait_edges b') \<subseteq> set (b_wait_edges b'')"
  shows "ext K b b''"
  unfolding ext_def assms(3-6)
  by (intro conjI allI impI)
    (use assms(2) extD(2-5,9,10) [OF assms(1)] assms(7) [OF extD(6) [OF assms(1)]]
       assms(8) [OF extD(7) [OF assms(1)]] extD(8) [OF assms(1)] assms(9) in \<open>assumption | simp | blast\<close>)+

lemma ext_add:
  assumes "binv b" and "add_idx G t b = (b', i)" and "task_key t \<in> K"
  shows "ext K b (b'\<lparr> b_stack := t # b_stack b' \<rparr>)"
proof -
  note ok = add_idx_ok [OF assms(1,2)]
  then obtain g ix where b': "b' = b\<lparr> b_graph := g, b_indexes := ix \<rparr>" by blast
  have same: "b_stack b' = b_stack b" "b_seen b' = b_seen b" "b_dep_edges b' = b_dep_edges b"
    "b_direct_post_parents b' = b_direct_post_parents b" "b_wait_edges b' = b_wait_edges b"
    by (simp_all add: b')
  have "di_weight G (b_graph b) \<subseteq>\<^sub>m di_weight G (b_graph b')"
    using ok by (auto simp: map_le_def)
  moreover have "di_weight G (b_graph b) j = Some u
      \<or> di_weight G (b_graph b) j = None \<and> task_key u \<in> task_key ` set (t # b_stack b')"
    if "di_weight G (b_graph b') j = Some u" for j u
    using ok that by (cases "j = i") auto
  ultimately show ?thesis using ok assms(3) unfolding ext_def by (simp add: same) blast
qed

text \<open>The loops over the dependencies of one task, and their effect on the graph.\<close>

lemma build_depends_ext:
  assumes "binv b" and "b_indexes b (task_key a) = Some i" and "build_depends G E a i ts b = Inr b'"
    and "\<And>t t'. t \<in> set ts \<Longrightarrow> fetched E (t_run_phase a) t t' \<Longrightarrow> task_key t' \<in> K"
  shows "ext K b b' \<and> (\<forall>t\<in>set ts. \<exists>t'. fetched E (t_run_phase a) t t'
    \<and> mset_mem (b_dep_edges b') (task_key a) (task_key t'))"
  using assms
proof (induction ts arbitrary: b)
  case Nil
  then show ?case by (simp add: ext_refl)
next
  case (Cons t ts)
  obtain t' where f: "fetched E (t_run_phase a) t t'"
    using Cons.prems(3) by (auto simp: fetched_def split: sum.splits)
  obtain b1 j where a1: "add_idx G t' b = (b1, j)" by fastforce
  define b2 where "b2 = b1\<lparr> b_graph := di_update_edge G (b_graph b1) i j,
      b_dep_edges := mset_insert (task_key a) (task_key t') (b_dep_edges b1), b_stack := t' # b_stack b1 \<rparr>"
  have rest: "build_depends G E a i ts b2 = Inr b'"
    using Cons.prems(3) f a1 by (simp add: fetched_def b2_def)
  note ok = add_idx_ok [OF Cons.prems(1) a1]
  have i1: "b_indexes b1 (task_key a) = Some i"
    using ok Cons.prems(2) by (metis domI map_le_def)
  have k1: "keyed (b_graph b1) (b_indexes b1)" using ok by (simp add: binv_def)
  have j1: "b_indexes b1 (task_key t') = Some j" using ok by blast
  have w: "di_weight G (di_update_edge G (b_graph b1) i j) = di_weight G (b_graph b1)"
    using di_upd keyed_range [OF k1 i1] keyed_range [OF k1 j1] k1 by (simp add: keyed_def)
  have "binv (b1\<lparr> b_graph := di_update_edge G (b_graph b1) i j,
      b_dep_edges := mset_insert (task_key a) (task_key t') (b_dep_edges b1) \<rparr>)"
    using binv_edge [OF _ i1 j1] ok by blast
  then have inv2: "binv b2" unfolding b2_def binv_def by simp
  have e2: "ext K b b2"
    by (rule ext_fields [OF ext_add [OF Cons.prems(1) a1 Cons.prems(4) [OF _ f]] inv2])
      (simp_all add: b2_def w)
  have "b_indexes b2 (task_key a) = Some i" using i1 by (simp add: b2_def)
  from Cons.IH [OF inv2 this rest] Cons.prems(4)
  have IH: "ext K b2 b'" "\<forall>t\<in>set ts. \<exists>t'. fetched E (t_run_phase a) t t'
      \<and> mset_mem (b_dep_edges b') (task_key a) (task_key t')" by auto
  have "mset_mem (b_dep_edges b2) (task_key a) (task_key t')" by (simp add: b2_def)
  from extD(6) [OF IH(1) this] f IH(2) ext_trans [OF e2 IH(1)] show ?case by auto
qed

lemma binv_parent:
  assumes "binv b" and "k \<in> dom (b_indexes b)" and "x \<in> dom (b_indexes b)"
  shows "binv (b\<lparr> b_direct_post_parents := mset_insert k x (b_direct_post_parents b) \<rparr>)"
  using assms mset_insert_distinct unfolding binv_def keys_in_def
  by (simp del: domIff)

lemma build_post_ext:
  assumes "binv b" and "task_key a \<in> dom (b_indexes b)" and "build_post G E a ts b = Inr b'"
    and "\<And>t t'. t \<in> set ts \<Longrightarrow> fetched E PostPhase t t' \<Longrightarrow> task_key t' \<in> K"
  shows "ext K b b' \<and> (\<forall>t\<in>set ts. \<exists>t'. fetched E PostPhase t t'
    \<and> mset_mem (b_direct_post_parents b') (task_key t') (task_key a))"
  using assms
proof (induction ts arbitrary: b)
  case Nil
  then show ?case by (simp add: ext_refl)
next
  case (Cons t ts)
  obtain t' where f: "fetched E PostPhase t t'"
    using Cons.prems(3) by (auto simp: fetched_def split: sum.splits)
  obtain b1 j where a1: "add_idx G t' b = (b1, j)" by fastforce
  define b2 where "b2 = b1\<lparr>
      b_direct_post_parents := mset_insert (task_key t') (task_key a) (b_direct_post_parents b1),
      b_stack := t' # b_stack b1 \<rparr>"
  have rest: "build_post G E a ts b2 = Inr b'"
    using Cons.prems(3) f a1 by (simp add: fetched_def b2_def)
  note ok = add_idx_ok [OF Cons.prems(1) a1]
  have d1: "task_key a \<in> dom (b_indexes b1)" "task_key t' \<in> dom (b_indexes b1)"
    using ok Cons.prems(2) map_le_implies_dom_le by blast+
  have "binv (b1\<lparr> b_direct_post_parents :=
      mset_insert (task_key t') (task_key a) (b_direct_post_parents b1) \<rparr>)"
    using binv_parent [OF _ d1(2,1)] ok by blast
  then have inv2: "binv b2" unfolding b2_def binv_def by simp
  have e2: "ext K b b2"
    by (rule ext_fields [OF ext_add [OF Cons.prems(1) a1 Cons.prems(4) [OF _ f]] inv2])
      (simp_all add: b2_def)
  have "task_key a \<in> dom (b_indexes b2)" using d1 by (simp add: b2_def)
  from Cons.IH [OF inv2 this rest] Cons.prems(4)
  have IH: "ext K b2 b'" "\<forall>t\<in>set ts. \<exists>t'. fetched E PostPhase t t'
      \<and> mset_mem (b_direct_post_parents b') (task_key t') (task_key a)" by auto
  have "mset_mem (b_direct_post_parents b2) (task_key t') (task_key a)" by (simp add: b2_def)
  from extD(7) [OF IH(1) this] f IH(2) ext_trans [OF e2 IH(1)] show ?case by auto
qed

definition dinv :: "'e task_env \<Rightarrow> task list \<Rightarrow> task_key_t set \<Rightarrow> 'g build \<Rightarrow> bool" where
  "dinv E all_tasks skip b \<longleftrightarrow> b_seen b - skip \<subseteq> dom (b_indexes b)
     \<and> (\<forall>i u. di_weight G (b_graph b) i = Some u \<longrightarrow> task_key u \<notin> skip \<longrightarrow>
          (if task_key u \<in> b_seen b then recorded E all_tasks b u
           else task_key u \<in> task_key ` set (b_stack b)))"

lemma recorded_ext: "recorded E all_tasks b a \<Longrightarrow> ext K b b' \<Longrightarrow> recorded E all_tasks b' a"
  unfolding recorded_def using extD(6,7,8) by (smt (verit) subsetD)

lemma rec_fields:
  "recorded E all_tasks (b\<lparr> b_stack := st \<rparr>) u = recorded E all_tasks b u"
  "recorded E all_tasks (b\<lparr> b_seen := sn \<rparr>) u = recorded E all_tasks b u"
  by (simp_all add: recorded_def)

lemma dinv_ext:
  assumes d: "dinv E all_tasks skip b" and e: "ext K b b'" and k: "binv b"
  shows "dinv E all_tasks skip b'"
  unfolding dinv_def
proof (intro conjI allI impI)
  show "b_seen b' - skip \<subseteq> dom (b_indexes b')"
    unfolding extD(2) [OF e]
    using conjunct1 [OF d [unfolded dinv_def]] map_le_implies_dom_le [OF extD(3) [OF e]] by (rule subset_trans)
  fix i u
  assume w: "di_weight G (b_graph b') i = Some u" and s: "task_key u \<notin> skip"
  from extD(10) [OF e w] consider (old) "di_weight G (b_graph b) i = Some u"
    | (new) "di_weight G (b_graph b) i = None" "task_key u \<in> task_key ` set (b_stack b')" by metis
  then show "if task_key u \<in> b_seen b' then recorded E all_tasks b' u
      else task_key u \<in> task_key ` set (b_stack b')"
  proof cases
    case old
    with d s have "if task_key u \<in> b_seen b then recorded E all_tasks b u
      else task_key u \<in> task_key ` set (b_stack b)" by (simp add: dinv_def)
    then show ?thesis using recorded_ext [OF _ e] extD(2,4) [OF e] by (auto split: if_splits)
  next
    case new
    have "task_key u \<notin> b_seen b"
    proof
      assume "task_key u \<in> b_seen b"
      then obtain j where j: "b_indexes b (task_key u) = Some j" using d s unfolding dinv_def by blast
      have "keyed (b_graph b) (b_indexes b)" "keyed (b_graph b') (b_indexes b')"
        using k extD(1) [OF e] by (simp_all add: binv_def)
      with w have "b_indexes b' (task_key u) = Some i" "di_weight G (b_graph b) j \<noteq> None"
        using j unfolding keyed_def by (blast, metis option.distinct(1))
      moreover have "b_indexes b' (task_key u) = Some j"
        using extD(3) [OF e] j by (metis domI map_le_def)
      ultimately show False using new(1) by simp
    qed
    with new(2) show ?thesis using extD(2) [OF e] by simp
  qed
qed

text \<open>The body of the worklist loop.\<close>

lemma build_task_ok:
  assumes inv: "binv b" and d: "dinv E all_tasks {task_key a} b" and run: "build_task G E all_tasks a b = Inr b'"
    and rk: "render_keeps_key E" and K: "resolves_into E K" and seen: "task_key a \<in> b_seen b"
  shows "binv b' \<and> dinv E all_tasks {} b' \<and> b_seen b' = b_seen b
    \<and> task_key ` set (b_stack b') \<subseteq> task_key ` set (b_stack b) \<union> K"
proof -
  obtain a' where a': "te_render E a = Inr a'" using run by (auto simp: build_task_def split: sum.splits)
  then have key: "task_key a' = task_key a" using rk by (auto simp: render_keeps_key_def)
  obtain b1 i where a1: "add_idx G a' b = (b1, i)" by fastforce
  define b2 where "b2 = b1\<lparr> b_graph := di_set_weight G (b_graph b1) i a' \<rparr>"
  obtain r where r: "te_resolve E all_tasks a' = Inr r"
    using run a' a1 by (auto simp: build_task_def split: sum.splits)
  obtain b3 where b3: "build_depends G E a' i (rd_depends r) b2 = Inr b3"
    using run a' a1 r by (auto simp: build_task_def b2_def split: sum.splits)
  define b4 where "b4 = b3\<lparr> b_wait_edges := b_wait_edges b3 @ map (\<lambda>t. (task_key a', t)) (rd_wait_for r) \<rparr>"
  have b5: "build_post G E a' (rd_depends_post r) b4 = Inr b'"
    using run a' a1 r b3 by (simp add: build_task_def b2_def b4_def)
  note ok = add_idx_ok [OF inv a1]
  have i1: "b_indexes b1 (task_key a') = Some i" using ok by blast
  have inv2: "binv b2" unfolding b2_def using binv_set_weight [OF _ i1] ok by blast
  have i2: "b_indexes b2 (task_key a') = Some i" using i1 by (simp add: b2_def)
  have in_K: "task_key t' \<in> K" if "t \<in> set (rd_depends r @ rd_depends_post r)" "fetched E p t t'" for t t' p
    using K r that unfolding resolves_into_def by blast
  have e3: "ext K b2 b3" and dep3: "\<forall>t\<in>set (rd_depends r). \<exists>t'. fetched E (t_run_phase a') t t'
      \<and> mset_mem (b_dep_edges b3) (task_key a') (task_key t')"
    using build_depends_ext [OF inv2 i2 b3, of K] in_K by auto
  have i3: "task_key a' \<in> dom (b_indexes b3)"
    using map_le_implies_dom_le [OF extD(3) [OF e3]] i2 by blast
  have inv4: "binv b4" using extD(1) [OF e3] i3 unfolding binv_def b4_def by (auto simp del: domIff)
  have e4: "ext K b2 b4" by (rule ext_fields [OF e3 inv4]) (simp_all add: b4_def)
  have i4: "task_key a' \<in> dom (b_indexes b4)" using i3 by (simp add: b4_def)
  have e5: "ext K b4 b'" and post5: "\<forall>t\<in>set (rd_depends_post r). \<exists>t'. fetched E PostPhase t t'
      \<and> mset_mem (b_direct_post_parents b') (task_key t') (task_key a')"
    using build_post_ext [OF inv4 i4 b5, of K] in_K by auto
  have e: "ext K b2 b'" using ext_trans [OF e4 e5] .
  have "set (b_wait_edges b4) \<subseteq> set (b_wait_edges b')" by (rule extD(8) [OF e5])
  then have "(task_key a', t) \<in> set (b_wait_edges b')" if "t \<in> set (rd_wait_for r)" for t
    using that by (auto simp: b4_def)
  moreover have "mset_mem (b_dep_edges b') k x" if "mset_mem (b_dep_edges b3) k x" for k x
    using extD(6) [OF e5] that by (simp add: b4_def)
  ultimately have rec: "recorded E all_tasks b' a'"
    unfolding recorded_def using r dep3 post5 by blast
  have k2: "dinv E all_tasks {task_key a} b2"
  proof -
    have same: "b_seen b2 = b_seen b" "b_stack b2 = b_stack b"
      "recorded E all_tasks b2 u = recorded E all_tasks b u" for u
      using ok by (auto simp: b2_def recorded_def)
    have dm: "dom (b_indexes b) \<subseteq> dom (b_indexes b2)"
      using ok map_le_implies_dom_le unfolding b2_def by fastforce
    have wt: "di_weight G (b_graph b) j = Some u"
      if "di_weight G (b_graph b2) j = Some u" "task_key u \<notin> {task_key a}" for j u
    proof -
      have "keyed (b_graph b1) (b_indexes b1)" using ok by (simp add: binv_def)
      from di_set [OF _ keyed_range [OF this i1]] this
      have "di_weight G (b_graph b2) = (di_weight G (b_graph b1))(i \<mapsto> a')" by (simp add: b2_def keyed_def)
      moreover have "j \<noteq> i" using that key calculation by auto
      ultimately have "di_weight G (b_graph b1) j = Some u" using that(1) by simp
      moreover have "b1 = b \<or> di_weight G (b_graph b1) = (di_weight G (b_graph b))(i \<mapsto> a')"
        using ok by blast
      ultimately show ?thesis using \<open>j \<noteq> i\<close> by auto
    qed
    show ?thesis
      unfolding dinv_def same
    proof (intro conjI allI impI)
      show "b_seen b - {task_key a} \<subseteq> dom (b_indexes b2)"
        using conjunct1 [OF d [unfolded dinv_def]] dm by (rule subset_trans)
    qed (use wt conjunct2 [OF d [unfolded dinv_def]] in blast)
  qed
  have d': "dinv E all_tasks {task_key a} b'" by (rule dinv_ext [OF k2 e inv2])
  have k': "keyed (b_graph b') (b_indexes b')" using extD(1) [OF e] by (simp add: binv_def)
  have w2: "di_weight G (b_graph b2) i = Some a'"
  proof -
    have "keyed (b_graph b1) (b_indexes b1)" using ok by (simp add: binv_def)
    from di_set [OF _ keyed_range [OF this i1]] this show ?thesis by (simp add: b2_def keyed_def)
  qed
  then have w: "di_weight G (b_graph b') i = Some a'"
    using extD(9) [OF e] by (metis domI map_le_def)
  have i': "b_indexes b' (task_key a) = Some i" using k' w key unfolding keyed_def by blast
  have same2: "b_seen b2 = b_seen b" "b_stack b2 = b_stack b" using ok by (auto simp: b2_def)
  have "dinv E all_tasks {} b'"
    unfolding dinv_def
  proof (intro conjI allI impI)
    show "b_seen b' - {} \<subseteq> dom (b_indexes b')"
      using conjunct1 [OF d' [unfolded dinv_def]] i' by blast
    fix j u
    assume u: "di_weight G (b_graph b') j = Some u"
    show "if task_key u \<in> b_seen b' then recorded E all_tasks b' u
        else task_key u \<in> task_key ` set (b_stack b')"
    proof (cases "task_key u = task_key a")
      case True
      then have "b_indexes b' (task_key a) = Some j" using k' u unfolding keyed_def by metis
      with i' w u have "u = a'" by simp
      moreover have "task_key a' \<in> b_seen b'" using seen key extD(2) [OF e] same2(1) by simp
      ultimately show ?thesis using rec by simp
    next
      case False
      with d' u show ?thesis unfolding dinv_def by blast
    qed
  qed
  then show ?thesis using extD(1,2,5) [OF e] same2 by simp
qed

text \<open>The worklist ends, since every task that is worked on has a new key.\<close>

lemma build_loop_ok:
  assumes "finite K" and "render_keeps_key E" and "resolves_into E K"
    and "binv b" and "dinv E all_tasks {} b" and "task_key ` set (b_stack b) \<subseteq> K"
  shows "\<exists>r. build_loop G E all_tasks b = Some r
    \<and> (\<forall>b'. r = Inr b' \<longrightarrow> binv b' \<and> dinv E all_tasks {} b' \<and> b_stack b' = [])"
  using assms(4-6)
proof (induction "(card (K - b_seen b), length (b_stack b))" arbitrary: b
    rule: wf_induct_rule [OF wf_lex_prod [OF wf_less_than wf_less_than]])
  case 1
  show ?case
  proof (cases "b_stack b")
    case Nil
    then show ?thesis using "1.prems" by (subst build_loop.simps) simp
  next
    case (Cons a stack)
    let ?b = "b\<lparr> b_stack := stack \<rparr>"
    have rest: "task_key u \<in> task_key ` set stack"
      if "di_weight G (b_graph b) i = Some u" "task_key u \<notin> b_seen b" "task_key u \<noteq> task_key a" for i u
    proof -
      have "task_key u \<in> task_key ` set (b_stack b)"
        using "1.prems"(2) that(1,2) unfolding dinv_def by fastforce
      with Cons that(3) show ?thesis by auto
    qed
    have sub: "task_key ` set stack \<subseteq> K" using "1.prems"(3) Cons by auto
    have dom: "b_seen b \<subseteq> dom (b_indexes b)"
      using conjunct1 [OF "1.prems"(2) [unfolded dinv_def]] by blast
    have old: "recorded E all_tasks b u" if "di_weight G (b_graph b) i = Some u" "task_key u \<in> b_seen b" for i u
      using "1.prems"(2) that unfolding dinv_def by fastforce
    show ?thesis
    proof (cases "task_key a \<in> b_seen b")
      case True
      have new: "task_key u \<in> task_key ` set stack"
        if "di_weight G (b_graph b) i = Some u" "task_key u \<notin> b_seen b" for i u
        using rest [OF that] that(2) True by metis
      have "dinv E all_tasks {} ?b"
        unfolding dinv_def using new old dom by (auto simp: rec_fields)
      moreover have "build_loop G E all_tasks b = build_loop G E all_tasks ?b"
        using Cons True by (subst build_loop.simps) simp
      ultimately show ?thesis using "1.hyps" [of ?b] "1.prems"(1) sub Cons by simp
    next
      case False
      let ?b1 = "?b\<lparr> b_seen := insert (task_key a) (b_seen b) \<rparr>"
      have d1: "dinv E all_tasks {task_key a} ?b1"
        unfolding dinv_def using rest old dom by (auto simp: rec_fields)
      have step: "build_loop G E all_tasks b = (case build_task G E all_tasks a ?b1 of
          Inl e \<Rightarrow> Some (Inl e) | Inr b \<Rightarrow> build_loop G E all_tasks b)"
        using Cons False by (subst build_loop.simps) simp
      show ?thesis
      proof (cases "build_task G E all_tasks a ?b1")
        case (Inl e)
        then show ?thesis using step by simp
      next
        case (Inr b2)
        have ok: "binv b2" "dinv E all_tasks {} b2" "b_seen b2 = insert (task_key a) (b_seen b)"
          "task_key ` set (b_stack b2) \<subseteq> K"
          using build_task_ok [OF _ d1 Inr assms(2,3)] "1.prems"(1) sub by (auto, blast)
        have "card (K - b_seen b2) < card (K - b_seen b)"
          using "1.prems"(3) Cons False assms(1) by (intro psubset_card_mono) (auto simp: ok(3))
        with "1.hyps" [of b2] ok(1,2,4) step Inr show ?thesis by simp
      qed
    qed
  qed
qed

lemma add_idx_stack:
  "add_idx G t (b\<lparr> b_stack := s \<rparr>) = (case add_idx G t b of (b', i) \<Rightarrow> (b'\<lparr> b_stack := s \<rparr>, i))"
  by (simp add: add_idx_def split: option.splits prod.splits)

lemma build_roots_ok:
  assumes "binv b" and "dinv E all_tasks {} b" and "build_roots G E ts b = Inr b'"
  shows "binv b' \<and> dinv E all_tasks {} b'"
  using assms
proof (induction ts arbitrary: b)
  case Nil
  then show ?case by simp
next
  case (Cons t ts)
  obtain t' where f: "fetch_remote_task E (with_run_phase NormalPhase t) = Inr t'"
    using Cons.prems(3) by (auto split: sum.splits)
  obtain b1 i where a1: "add_idx G t' b = (b1, i)" by fastforce
  let ?b = "b1\<lparr> b_stack := t' # b_stack b1 \<rparr>"
  have e: "ext UNIV b ?b" by (rule ext_add [OF Cons.prems(1) a1]) simp
  have "b_stack b1 = b_stack b" using add_idx_ok [OF Cons.prems(1) a1] by auto
  then have "build_roots G E ts ?b = Inr b'" using Cons.prems(3) f a1 by (simp add: add_idx_stack)
  then show ?case using Cons.IH [OF extD(1) [OF e] dinv_ext [OF Cons.prems(2) e Cons.prems(1)]] by blast
qed

lemma build_init_ok: "binv (build_init G) \<and> dinv E all_tasks {} (build_init G)"
proof -
  have "di_weight G (di_new G) i = None" for i
    using di_weight_iff [OF di_new_valid, of i] di_new_count by simp
  then show ?thesis
    by (simp add: build_init_def binv_def dinv_def keyed_def edges_in_def keys_in_def di_new_valid)
qed

text \<open>The edges added after the worklist; no lookup of an index fails.\<close>

lemma keyed_upd:
  assumes "keyed g ix" and "ix k = Some i" and "ix x = Some j"
  shows "keyed (di_update_edge G g i j) ix \<and> di_weight G (di_update_edge G g i j) = di_weight G g
    \<and> di_node_count G (di_update_edge G g i j) = di_node_count G g
    \<and> di_rel G (di_update_edge G g i j) = insert (i, j) (di_rel G g)"
  using assms di_upd [OF _ keyed_range [OF assms(1,2)] keyed_range [OF assms(1,3)]]
  unfolding keyed_def by simp

lemma add_barriers_ok:
  assumes "keyed g ix" and "\<forall>(k, p)\<in>set es. k \<in> dom ix \<and> p \<in> dom ix"
  shows "\<exists>g'. add_barriers G ix es g = Some g' \<and> keyed g' ix \<and> di_weight G g' = di_weight G g
    \<and> di_node_count G g' = di_node_count G g \<and> di_rel G g \<subseteq> di_rel G g'
    \<and> (\<forall>k p. (k, p) \<in> set es \<longrightarrow> (\<exists>i j. ix k = Some i \<and> ix p = Some j \<and> (i, j) \<in> di_rel G g'))"
  using assms
proof (induction es arbitrary: g)
  case Nil
  then show ?case by simp
next
  case (Cons e es)
  obtain k p where e: "e = (k, p)" by (meson surj_pair)
  obtain i j where ij: "ix k = Some i" "ix p = Some j" using Cons.prems(2) e by auto
  let ?g = "di_update_edge G g i j"
  note u = keyed_upd [OF Cons.prems(1) ij]
  obtain g' where g': "add_barriers G ix es ?g = Some g'" "keyed g' ix" "di_weight G g' = di_weight G ?g"
    "di_node_count G g' = di_node_count G ?g" "di_rel G ?g \<subseteq> di_rel G g'"
    "\<forall>k p. (k, p) \<in> set es \<longrightarrow> (\<exists>i j. ix k = Some i \<and> ix p = Some j \<and> (i, j) \<in> di_rel G g')"
    using Cons.IH [of ?g] u Cons.prems(2) by auto
  have "(i, j) \<in> di_rel G g'" "di_rel G g \<subseteq> di_rel G g'" using u g'(5) by blast+
  with g' u ij e show ?case by (intro exI [of _ g']) auto
qed

lemma wait_target_some:
  assumes "keyed g ix" and "di_weight G g j = Some u" and "same_task_without_phase u target"
  shows "\<exists>i v. wait_target G g phase target = Some i \<and> di_weight G g i = Some v
    \<and> same_task_without_phase v target"
proof -
  let ?P = "\<lambda>i. case di_weight G g i of Some t \<Rightarrow> same_task_without_phase t target | None \<Rightarrow> False"
  let ?M = "filter ?P [0..<di_node_count G g]"
  have "j < di_node_count G g" using assms(1,2) di_weight_iff unfolding keyed_def by fastforce
  with assms(2,3) have "j \<in> set ?M" by simp
  then have "\<exists>i. wait_target G g phase target = Some i \<and> i \<in> set ?M"
    unfolding wait_target_def Let_def
    by (cases ?M) (auto split: option.splits simp: find_Some_iff intro: nth_mem)
  then show ?thesis by (auto split: option.splits)
qed

lemma wait_target_range:
  assumes "wait_target G g phase target = Some i"
  shows "i < di_node_count G g"
proof -
  have "i \<in> set M" if "(case find Q M of Some i \<Rightarrow> Some i
      | None \<Rightarrow> (case M of [] \<Rightarrow> None | i # _ \<Rightarrow> Some i)) = Some i" for Q and M :: "nat list"
    using that by (cases M) (auto split: option.splits if_splits simp: find_Some_iff)
  from this [OF assms [unfolded wait_target_def Let_def]] show ?thesis by simp
qed

lemma wait_target_cong:
  "di_weight G g' = di_weight G g \<Longrightarrow> di_node_count G g' = di_node_count G g \<Longrightarrow>
     wait_target G g' phase target = wait_target G g phase target"
  by (simp add: wait_target_def)

lemma add_waits_ok:
  assumes "keyed g ix" and "\<forall>w\<in>set es. fst w \<in> dom ix"
  shows "\<exists>g'. add_waits G ix es g = Some g' \<and> keyed g' ix \<and> di_weight G g' = di_weight G g
    \<and> di_node_count G g' = di_node_count G g \<and> di_rel G g \<subseteq> di_rel G g'
    \<and> (\<forall>k t. (k, t) \<in> set es \<longrightarrow> (\<forall>j. wait_target G g (snd (snd (snd k))) t = Some j \<longrightarrow>
          (\<exists>i. ix k = Some i \<and> (i, j) \<in> di_rel G g')))"
  using assms
proof (induction es arbitrary: g)
  case Nil
  then show ?case by simp
next
  case (Cons e es)
  obtain k t where e: "e = (k, t)" by (meson surj_pair)
  obtain i where i: "ix k = Some i" using Cons.prems(2) e by auto
  let ?phase = "snd (snd (snd k))"
  have rest: "\<forall>w\<in>set es. fst w \<in> dom ix" using Cons.prems(2) by simp
  show ?case
  proof (cases "wait_target G g ?phase t")
    case None
    obtain g' where "add_waits G ix es g = Some g'" "keyed g' ix" "di_weight G g' = di_weight G g"
      "di_node_count G g' = di_node_count G g" "di_rel G g \<subseteq> di_rel G g'"
      "\<forall>k t. (k, t) \<in> set es \<longrightarrow> (\<forall>j. wait_target G g (snd (snd (snd k))) t = Some j \<longrightarrow>
          (\<exists>i. ix k = Some i \<and> (i, j) \<in> di_rel G g'))"
      using Cons.IH [OF Cons.prems(1) rest] by blast
    with None e i show ?thesis by (intro exI [of _ g']) auto
  next
    case (Some j)
    let ?g = "di_update_edge G g i j"
    obtain x where x: "ix x = Some j"
      using wait_target_range [OF Some] Cons.prems(1) di_weight_iff unfolding keyed_def by fastforce
    note u = keyed_upd [OF Cons.prems(1) i x]
    obtain g' where g': "add_waits G ix es ?g = Some g'" "keyed g' ix" "di_weight G g' = di_weight G ?g"
      "di_node_count G g' = di_node_count G ?g" "di_rel G ?g \<subseteq> di_rel G g'"
      "\<forall>k t. (k, t) \<in> set es \<longrightarrow> (\<forall>j. wait_target G ?g (snd (snd (snd k))) t = Some j \<longrightarrow>
          (\<exists>i. ix k = Some i \<and> (i, j) \<in> di_rel G g'))"
      using Cons.IH [of ?g] u rest by blast
    have "(i, j) \<in> di_rel G g'" "di_rel G g \<subseteq> di_rel G g'" using u g'(5) by blast+
    moreover have "wait_target G ?g p t = wait_target G g p t" for p t
      using u by (intro wait_target_cong) blast+
    ultimately show ?thesis using g' u i e Some by (intro exI [of _ g']) auto
  qed
qed

lemma keyed_edge:
  "keyed g ix \<Longrightarrow> ix k = Some i \<Longrightarrow> ix x = Some j \<Longrightarrow> (i, j) \<in> di_rel G g \<Longrightarrow> edge_keys G g k x"
  unfolding keyed_def edge_keys_def by metis

lemma keys_at_mem: "x \<in> set (keys_at (map_of m) k) \<longleftrightarrow> mset_mem m k x"
  by (cases "map_of m k") (simp_all add: keys_at_def mset_mem_def)

lemma keyed_inj:
  assumes "keyed g ix"
  shows "inj_on (\<lambda>i. map_option task_key (di_weight G g i)) {..<di_node_count G g}"
proof (rule inj_onI)
  fix i j
  assume "i \<in> {..<di_node_count G g}" "j \<in> {..<di_node_count G g}"
    and eq: "map_option task_key (di_weight G g i) = map_option task_key (di_weight G g j)"
  then obtain t u where "di_weight G g i = Some t" "di_weight G g j = Some u"
    using di_weight_iff [of g] assms unfolding keyed_def by fastforce
  with eq assms show "i = j" unfolding keyed_def by (metis option.inject option.map(2))
qed

text \<open>The graph after the barriers and the waits.\<close>

lemma finish_graph:
  assumes "binv b" and "dinv E all_tasks {} b" and "b_stack b = []"
    and pp: "distinct (map fst pp)" "\<And>k p. mset_mem (b_direct_post_parents b) k p \<Longrightarrow> mset_mem pp k p"
      "\<And>k p. mset_mem pp k p \<Longrightarrow> k \<in> dom (b_indexes b) \<and> p \<in> dom (b_indexes b)"
  shows "\<exists>g1 g2. add_barriers G (b_indexes b) (concat (map (\<lambda>(k, ps). map (\<lambda>p. (k, p)) ps) pp)) (b_graph b) = Some g1
    \<and> add_waits G (b_indexes b) (b_wait_edges b) g1 = Some g2
    \<and> keyed g2 (b_indexes b)
    \<and> (\<forall>k x. mset_mem (b_dep_edges b) k x \<longrightarrow> edge_keys G g2 k x)
    \<and> (\<forall>k p. mset_mem pp k p \<longrightarrow> edge_keys G g2 k p)
    \<and> (\<forall>i a. di_weight G g2 i = Some a \<longrightarrow> honours G E all_tasks g2 a)"
proof -
  let ?ix = "b_indexes b" and ?es = "concat (map (\<lambda>(k, ps). map (\<lambda>p. (k, p)) ps) pp)"
  have k: "keyed (b_graph b) ?ix" and de: "edges_in (b_graph b) ?ix (b_dep_edges b)"
    and wd: "\<forall>w\<in>set (b_wait_edges b). fst w \<in> dom ?ix"
    using assms(1) unfolding binv_def by blast+
  have es: "(k, p) \<in> set ?es \<longleftrightarrow> mset_mem pp k p" for k p
    using mset_pairs [OF pp(1)] by blast
  have "\<forall>(k, p)\<in>set ?es. k \<in> dom ?ix \<and> p \<in> dom ?ix" using pp(3) es by blast
  then obtain g1 where g1: "add_barriers G ?ix ?es (b_graph b) = Some g1" "keyed g1 ?ix"
    "di_weight G g1 = di_weight G (b_graph b)" "di_rel G (b_graph b) \<subseteq> di_rel G g1"
    "\<forall>k p. (k, p) \<in> set ?es \<longrightarrow> (\<exists>i j. ?ix k = Some i \<and> ?ix p = Some j \<and> (i, j) \<in> di_rel G g1)"
    using add_barriers_ok [OF k, of ?es] by blast
  obtain g2 where g2: "add_waits G ?ix (b_wait_edges b) g1 = Some g2" "keyed g2 ?ix"
    "di_weight G g2 = di_weight G g1" "di_rel G g1 \<subseteq> di_rel G g2"
    "\<forall>k t. (k, t) \<in> set (b_wait_edges b) \<longrightarrow> (\<forall>j. wait_target G g1 (snd (snd (snd k))) t = Some j \<longrightarrow>
          (\<exists>i. ?ix k = Some i \<and> (i, j) \<in> di_rel G g2))"
    using add_waits_ok [OF g1(2) wd] by blast
  have dep: "edge_keys G g2 k x" if m: "mset_mem (b_dep_edges b) k x" for k x
  proof -
    obtain i j where "?ix k = Some i" "?ix x = Some j" "(i, j) \<in> di_rel G (b_graph b)"
      using de m unfolding edges_in_def by blast
    then show ?thesis using keyed_edge [OF g2(2)] g1(4) g2(4) by blast
  qed
  have post: "edge_keys G g2 k p" if "mset_mem pp k p" for k p
    using g1(5) es that keyed_edge [OF g2(2)] g2(4) by blast
  have wait: "\<exists>u. same_task_without_phase u t \<and> edge_keys G g2 k (task_key u)"
    if w: "(k, t) \<in> set (b_wait_edges b)" and u: "di_weight G g2 i = Some u" "same_task_without_phase u t"
    for k t i u
  proof -
    have "di_weight G g1 i = Some u" using u(1) g2(3) by simp
    from wait_target_some [OF g1(2) this u(2)]
    obtain j v where j: "wait_target G g1 (snd (snd (snd k))) t = Some j" "di_weight G g1 j = Some v"
      "same_task_without_phase v t" by blast
    moreover obtain i' where "?ix k = Some i'" "(i', j) \<in> di_rel G g2" using g2(5) w j(1) by blast
    moreover have "?ix (task_key v) = Some j" using g1(2) j(2) unfolding keyed_def by blast
    ultimately show ?thesis using keyed_edge [OF g2(2)] by blast
  qed
  have "honours G E all_tasks g2 a" if a: "di_weight G g2 i = Some a" for i a
  proof -
    have "recorded E all_tasks b a"
      using assms(2,3) a g1(3) g2(3) unfolding dinv_def by (fastforce split: if_splits)
    then obtain r where r: "te_resolve E all_tasks a = Inr r"
      "\<And>t. t \<in> set (rd_depends r) \<Longrightarrow> \<exists>t'. fetched E (t_run_phase a) t t'
         \<and> mset_mem (b_dep_edges b) (task_key a) (task_key t')"
      "\<And>t. t \<in> set (rd_depends_post r) \<Longrightarrow> \<exists>t'. fetched E PostPhase t t'
         \<and> mset_mem (b_direct_post_parents b) (task_key t') (task_key a)"
      "\<And>t. t \<in> set (rd_wait_for r) \<Longrightarrow> (task_key a, t) \<in> set (b_wait_edges b)"
      unfolding recorded_def by blast
    show ?thesis
      unfolding honours_def
    proof (intro exI [of _ r] conjI ballI impI)
      show "te_resolve E all_tasks a = Inr r" by (rule r(1))
    next
      fix t
      assume "t \<in> set (rd_depends r)"
      from r(2) [OF this] dep
      show "\<exists>t'. fetched E (t_run_phase a) t t' \<and> edge_keys G g2 (task_key a) (task_key t')" by metis
    next
      fix t
      assume "t \<in> set (rd_depends_post r)"
      from r(3) [OF this] post pp(2)
      show "\<exists>t'. fetched E PostPhase t t' \<and> edge_keys G g2 (task_key t') (task_key a)" by metis
    next
      fix t
      assume "t \<in> set (rd_wait_for r)" "\<exists>i u. di_weight G g2 i = Some u \<and> same_task_without_phase u t"
      then show "\<exists>u. same_task_without_phase u t \<and> edge_keys G g2 (task_key a) (task_key u)"
        using wait [OF r(4)] by metis
    qed
  qed
  with g1(1) g2(1,2) dep post show ?thesis by blast
qed

lemma cycles_found:
  assumes "valid g" and "limit \<noteq> Some 0"
  shows "\<exists>cs. find_cycles (di_outgoing G g) (\<lambda>a c. c \<in> set (di_outgoing G g a)) (di_scc G g) limit = Some cs
    \<and> (cs = [] \<longleftrightarrow> acyclic (di_rel G g))"
proof -
  have e: "c \<in> set (di_outgoing G g a) \<longleftrightarrow> (a, c) \<in> di_rel G g" for a c by (simp add: succ_rel_def)
  note r = find_cycles_result [OF di_scc_partition [OF assms(1)] di_rel_range [OF assms(1)] e]
  show ?thesis
  proof (cases limit)
    case None
    with r [of 1] show ?thesis by auto
  next
    case (Some l)
    with assms(2) r [of l] show ?thesis by auto
  qed
qed

lemma finish_build_ok:
  assumes inv: "binv b" "dinv E all_tasks {} b" "b_stack b = []" and "limit \<noteq> Some 0"
  shows "\<exists>r. finish_build G limit b = Some r \<and> r \<noteq> Panicked
    \<and> (\<forall>d. r = Done d \<longrightarrow> fresh_deps G valid d \<and> well_built G E all_tasks d)"
proof -
  let ?de = "b_dep_edges b" and ?direct = "b_direct_post_parents b" and ?ix = "b_indexes b"
  let ?pending = "concat (map (\<lambda>(k, ps). map (\<lambda>p. (k, p)) ps) ?direct)"
  have k: "keyed (b_graph b) ?ix" and dd: "distinct (map fst ?direct)"
    and dk: "\<And>k x. mset_mem ?direct k x \<Longrightarrow> k \<in> dom ?ix \<and> x \<in> dom ?ix"
    using inv(1) unfolding binv_def keys_in_def by blast+
  have ek: "\<forall>k x. mset_mem ?de k x \<longrightarrow> x \<in> dom ?ix"
    using inv(1) unfolding binv_def edges_in_def by blast
  have fin: "finite (dom ?ix)"
  proof (rule finite_subset)
    show "dom ?ix \<subseteq> (\<lambda>i. task_key (the (di_weight G (b_graph b) i))) ` {..<di_node_count G (b_graph b)}"
    proof
      fix x
      assume "x \<in> dom ?ix"
      then obtain i t where "?ix x = Some i" "di_weight G (b_graph b) i = Some t" "task_key t = x"
        using k unfolding keyed_def by blast
      with keyed_range [OF k] show
        "x \<in> (\<lambda>i. task_key (the (di_weight G (b_graph b) i))) ` {..<di_node_count G (b_graph b)}"
        by (intro image_eqI [of _ _ i]) auto
    qed
  qed simp
  have pend: "set ?pending = {(k, p). mset_mem ?direct k p}" by (rule mset_pairs [OF dd])
  have p1: "snd ` set ?pending \<subseteq> dom ?ix" 
    unfolding pend using dk by (metis (mono_tags, lifting) image_subsetI case_prodE mem_Collect_eq snd_conv)
  have p2: "\<forall>(k, p)\<in>set ?pending. mset_mem ?direct k p" unfolding pend by simp
  have p3: "\<forall>k p dep. mset_mem ?direct k p \<and> mset_mem ?de k dep \<and> snd (snd (snd dep)) = PostPhase \<and> dep \<noteq> p
        \<longrightarrow> mset_mem ?direct dep p \<or> (k, p) \<in> set ?pending" unfolding pend by simp
  from post_loop_result [OF fin fin ek p1 p2 p3 dd]
  obtain pp where pp: "post_loop ?de ?direct ?pending = Some pp" "post_closed ?de pp"
    "distinct (map fst pp)" "\<forall>k p. mset_mem ?direct k p \<longrightarrow> mset_mem pp k p"
    "\<forall>k p. mset_mem pp k p \<longrightarrow> mset_mem ?direct k p \<or> (k \<in> dom ?ix \<and> p \<in> dom ?ix)"
    by blast
  obtain g1 g2 where g: "add_barriers G ?ix (concat (map (\<lambda>(k, ps). map (\<lambda>p. (k, p)) ps) pp)) (b_graph b) = Some g1"
    "add_waits G ?ix (b_wait_edges b) g1 = Some g2" "keyed g2 ?ix"
    "\<forall>k x. mset_mem ?de k x \<longrightarrow> edge_keys G g2 k x" "\<forall>k p. mset_mem pp k p \<longrightarrow> edge_keys G g2 k p"
    "\<forall>i a. di_weight G g2 i = Some a \<longrightarrow> honours G E all_tasks g2 a"
    using finish_graph [OF inv pp(3)] pp(4,5) dk by blast
  have v: "valid g2" using g(3) by (simp add: keyed_def)
  obtain cs where cs: "find_cycles (di_outgoing G g2) (\<lambda>a c. c \<in> set (di_outgoing G g2 a)) (di_scc G g2) limit = Some cs"
    "cs = [] \<longleftrightarrow> acyclic (di_rel G g2)"
    using cycles_found [OF v assms(4)] by blast
  let ?d = "tk_empty g2 ?de pp (map task_key (tk_weights G g2))"
  have d: "tk_graph ?d = g2" "tk_dep_edges ?d = map_of ?de" "tk_post_dep_parents ?d = map_of pp" "tk_tx ?d = []"
    by (simp_all add: tk_empty_def)
  have "post_barrier G ?d"
    unfolding post_barrier_def d Ball_def keys_at_mem using pp(2) g(5) unfolding post_closed_def by blast
  then have wb: "well_built G E all_tasks ?d"
    unfolding well_built_def d Ball_def keys_at_mem using keyed_inj [OF g(3)] g(4,6) by blast
  show ?thesis
    using cs v wb d(1,4) pp(1) g(1,2) by (simp add: finish_build_def post_seed_def fresh_deps_def)
qed

end

lemma new_with_cycle_limit_result:
  assumes "digraph G valid" and "render_keeps_key E" and "finite K" and "resolves_into E K"
    and "te_resolve_all E tasks = Inr all_tasks" and "limit \<noteq> Some 0"
  shows "\<exists>r. new_with_cycle_limit G E tasks limit = Some r \<and> r \<noteq> Panicked
    \<and> (\<forall>d. r = Done d \<longrightarrow> fresh_deps G valid d \<and> well_built G E all_tasks d)"
proof (cases "build_roots G E tasks (build_init G)")
  case (Inl e)
  then show ?thesis by (simp add: new_with_cycle_limit_def)
next
  case (Inr b)
  have tg: "task_graph G valid" using assms(1) by (rule task_graph.intro)
  have ok: "task_graph.binv G valid b" "task_graph.dinv G E all_tasks {} b"
    using task_graph.build_roots_ok [OF tg _ _ Inr] task_graph.build_init_ok [OF tg, of E all_tasks] by blast+
  let ?K = "K \<union> task_key ` set (b_stack b)"
  have "resolves_into E ?K" using assms(4) unfolding resolves_into_def by blast
  then obtain r where r: "build_loop G E all_tasks b = Some r"
    "\<forall>b'. r = Inr b' \<longrightarrow> task_graph.binv G valid b' \<and> task_graph.dinv G E all_tasks {} b' \<and> b_stack b' = []"
    using task_graph.build_loop_ok [OF tg _ assms(2) _ ok, of ?K] assms(3) by auto
  show ?thesis
  proof (cases r)
    case (Inl e)
    then show ?thesis using Inr r(1) assms(5) by (simp add: new_with_cycle_limit_def)
  next
    case (Inr b')
    with r(2) have "\<exists>r. finish_build G limit b' = Some r \<and> r \<noteq> Panicked
        \<and> (\<forall>d. r = Done d \<longrightarrow> fresh_deps G valid d \<and> well_built G E all_tasks d)"
      using task_graph.finish_build_ok [OF tg _ _ _ assms(6)] by blast
    then show ?thesis
      using \<open>build_roots G E tasks (build_init G) = Inr b\<close> r(1) Inr assms(5)
      by (simp add: new_with_cycle_limit_def)
  qed
qed


section \<open>A concrete construction\<close>

text \<open>Task \<^verbatim>\<open>b\<close> depends on \<^verbatim>\<open>a\<close>, which also runs after it.\<close>

definition build_env :: "unit task_env" where
  "build_env = \<lparr> te_is_remote = (\<lambda>t. False), te_fetch = Inr, te_render = Inr, te_resolve_all = Inr,
     te_resolve = (\<lambda>ts t. if t_name t = lit ''b''
       then Inr \<lparr> rd_depends = [demo_task (lit ''a'') []], rd_wait_for = [], rd_depends_post = [demo_task (lit ''a'') []] \<rparr>
       else Inr \<lparr> rd_depends = [], rd_wait_for = [], rd_depends_post = [] \<rparr>) \<rparr>"

definition build_keys :: "task_key_t set" where
  "build_keys = {task_key (with_run_phase NormalPhase (demo_task (lit ''a'') [])),
     task_key (with_run_phase PostPhase (demo_task (lit ''a'') []))}"

lemma build_env_ok: "render_keeps_key build_env" "finite build_keys" "resolves_into build_env build_keys"
proof -
  show "render_keeps_key build_env" by (simp add: render_keeps_key_def build_env_def)
  show "finite build_keys" by (simp add: build_keys_def)
  have "task_key (with_run_phase p (demo_task (lit ''a'') [])) \<in> build_keys" for p
    by (cases p) (simp_all add: build_keys_def)
  then show "resolves_into build_env build_keys"
    unfolding resolves_into_def fetched_def
    by (auto simp: build_env_def fetch_remote_task_def split: if_splits)
qed


end
