(* ===== verification/Task_Prune.thy ===== *)
theory Task_Prune
  imports Task_Build
begin

text \<open>
  The graph of a nested run: the tasks that the caller has completed are taken out, from the
  highest index down, and tasks with the same display name are marked.  Both steps keep the
  graph acyclic, and exactly the completed tasks are gone.
\<close>

context task_graph
begin

lemma prune_step:
  assumes "valid g" and "k < di_node_count G g" and "acyclic (di_rel G g)"
  shows "valid (di_remove_node G g k)" and "acyclic (di_rel G (di_remove_node G g k))"
    and "di_node_count G g = Suc (di_node_count G (di_remove_node G g k))"
    and "j < k \<Longrightarrow> di_weight G (di_remove_node G g k) j = di_weight G g j"
    and "k \<le> j \<Longrightarrow> j < di_node_count G (di_remove_node G g k) \<Longrightarrow>
       di_weight G (di_remove_node G g k) j = di_weight G g (if j = k then di_node_count G (di_remove_node G g k) else j)"
proof -
  obtain m where m: "di_node_count G g = Suc m" "k \<le> m" using assms(2) by (cases "di_node_count G g") auto
  note law = di_rem [OF assms(1) m]
  show "valid (di_remove_node G g k)" using law by blast
  show "acyclic (di_rel G (di_remove_node G g k))" using di_rem_acyclic [OF assms] .
  show "di_node_count G g = Suc (di_node_count G (di_remove_node G g k))" using law m(1) by simp
  show "di_weight G (di_remove_node G g k) j = di_weight G g j" if "j < k"
    using law that m(2) by (auto simp: di_moved_def)
  show "di_weight G (di_remove_node G g k) j = di_weight G g (if j = k then di_node_count G (di_remove_node G g k) else j)"
    if "k \<le> j" "j < di_node_count G (di_remove_node G g k)"
    using law that by (auto simp: di_moved_def)
qed

text \<open>\<open>C\<close> tells which tasks are completed; the nodes from \<open>k\<close> on have been dealt with.\<close>

lemma prune_loop:
  assumes "valid g" and "acyclic (di_rel G g)" and "k \<le> di_node_count G g"
    and "\<And>j t. k \<le> j \<Longrightarrow> di_weight G g j = Some t \<Longrightarrow> \<not> C t"
    and "\<And>j t. j < k \<Longrightarrow> di_weight G g j = Some t \<Longrightarrow> P j \<longleftrightarrow> C t"
  shows "valid (foldl (di_remove_node G) g (rev (filter P [0..<k])))
    \<and> acyclic (di_rel G (foldl (di_remove_node G) g (rev (filter P [0..<k]))))
    \<and> ran (di_weight G (foldl (di_remove_node G) g (rev (filter P [0..<k])))) = {t \<in> ran (di_weight G g). \<not> C t}"
  using assms
proof (induction k arbitrary: g)
  case 0
  then have "{t \<in> ran (di_weight G g). \<not> C t} = ran (di_weight G g)" by (auto simp: ran_def)
  with 0 show ?case by simp
next
  case (Suc k)
  have k: "k < di_node_count G g" using Suc.prems(3) by simp
  then obtain t where t: "di_weight G g k = Some t" using di_weight_iff [OF Suc.prems(1)] by blast
  show ?case
  proof (cases "P k")
    case False
    then have "\<not> C t" using Suc.prems(5) t by blast
    then have high: "\<not> C u" if "k \<le> j" "di_weight G g j = Some u" for j u
      using Suc.prems(4) [of j u] that t by (cases "j = k") auto
    have low: "P j \<longleftrightarrow> C u" if "j < k" "di_weight G g j = Some u" for j u
      using Suc.prems(5) [of j u] that by simp
    from Suc.IH [OF Suc.prems(1,2) less_imp_le [OF k] high low] False show ?thesis by simp
  next
    case True
    then have C: "C t" using Suc.prems(5) t by blast
    let ?g = "di_remove_node G g k"
    note v = prune_step [OF Suc.prems(1) k Suc.prems(2)]
    have high: "\<not> C u" if kj: "k \<le> j" and u: "di_weight G ?g j = Some u" for j u
    proof -
      have "j < di_node_count G ?g" using u di_weight_iff [OF v(1)] by blast
      with v(5) [OF kj] kj u Suc.prems(4) [of "di_node_count G ?g" u] Suc.prems(4) [of j u]
      show ?thesis by (cases "j = k") auto
    qed
    have low: "P j \<longleftrightarrow> C u" if "j < k" "di_weight G ?g j = Some u" for j u
      using Suc.prems(5) [of j u] v(4) that by simp
    have ran: "{u \<in> ran (di_weight G ?g). \<not> C u} = {u \<in> ran (di_weight G g). \<not> C u}"
    proof (intro set_eqI iffI)
      fix u
      assume "u \<in> {u \<in> ran (di_weight G ?g). \<not> C u}"
      then obtain j where j: "di_weight G ?g j = Some u" "\<not> C u" by (auto simp: ran_def)
      then have "j < di_node_count G ?g" using di_weight_iff [OF v(1)] by blast
      with j v(4,5) [of j] have "u \<in> ran (di_weight G g)" by (cases "j < k") (auto simp: ran_def)
      with j(2) show "u \<in> {u \<in> ran (di_weight G g). \<not> C u}" by simp
    next
      fix u
      assume "u \<in> {u \<in> ran (di_weight G g). \<not> C u}"
      then obtain j where j: "di_weight G g j = Some u" "\<not> C u" by (auto simp: ran_def)
      then have "j < Suc (di_node_count G ?g)" "j \<noteq> k"
        using di_weight_iff [OF Suc.prems(1), of j] v(3) t C by auto
      then consider "j < k" | "k < j" "j < di_node_count G ?g" | "j = di_node_count G ?g" "k < j" by linarith
      then have "u \<in> ran (di_weight G ?g)"
        using j(1) v(4) [of j] v(5) [of j] v(5) [of k] by cases (auto simp: ran_def)
      with j(2) show "u \<in> {u \<in> ran (di_weight G ?g). \<not> C u}" by simp
    qed
    have "k \<le> di_node_count G ?g" using k v(3) by simp
    from Suc.IH [OF v(1,2) this high low] True ran show ?thesis by simp
  qed
qed

lemma prune_completed_ok:
  assumes "valid g" and "acyclic (di_rel G g)"
  shows "valid (prune_completed G completed g) \<and> acyclic (di_rel G (prune_completed G completed g))
    \<and> ran (di_weight G (prune_completed G completed g)) =
        {t \<in> ran (di_weight G g). task_key t \<notin> cs_completed completed}"
  unfolding prune_completed_def
proof (rule prune_loop [OF assms le_refl])
  show "\<not> task_key t \<in> cs_completed completed" if "di_node_count G g \<le> j" "di_weight G g j = Some t" for j t
    using that di_weight_iff [OF assms(1), of j] by simp
qed simp

text \<open>Marking the prefixes changes neither keys nor edges.\<close>

lemma mark_loop:
  assumes "valid g"
  shows "valid (foldl (\<lambda>g i. case di_weight G g i of
        Some t \<Rightarrow> if Q t then di_set_weight G g i (t\<lparr> t_show_args_in_prefix := True \<rparr>) else g
      | None \<Rightarrow> g) g is) \<and> di_rel G (foldl (\<lambda>g i. case di_weight G g i of
        Some t \<Rightarrow> if Q t then di_set_weight G g i (t\<lparr> t_show_args_in_prefix := True \<rparr>) else g
      | None \<Rightarrow> g) g is) = di_rel G g
    \<and> task_key ` ran (di_weight G (foldl (\<lambda>g i. case di_weight G g i of
        Some t \<Rightarrow> if Q t then di_set_weight G g i (t\<lparr> t_show_args_in_prefix := True \<rparr>) else g
      | None \<Rightarrow> g) g is)) = task_key ` ran (di_weight G g)"
  using assms
proof (induction "is" arbitrary: g)
  case Nil
  then show ?case by simp
next
  case (Cons i "is")
  let ?f = "\<lambda>g i. case di_weight G g i of
        Some t \<Rightarrow> if Q t then di_set_weight G g i (t\<lparr> t_show_args_in_prefix := True \<rparr>) else g
      | None \<Rightarrow> g"
  have step: "valid (?f g i) \<and> di_rel G (?f g i) = di_rel G g
      \<and> task_key ` ran (di_weight G (?f g i)) = task_key ` ran (di_weight G g)"
  proof (cases "di_weight G g i")
    case None
    then show ?thesis using Cons.prems by simp
  next
    case (Some t)
    then have i: "i < di_node_count G g" using di_weight_iff [OF Cons.prems] by blast
    have key: "task_key (t\<lparr> t_show_args_in_prefix := True \<rparr>) = task_key t"
      by (simp add: task_key_def env_key_def)
    have "task_key ` ran ((di_weight G g)(i \<mapsto> t\<lparr> t_show_args_in_prefix := True \<rparr>)) = task_key ` ran (di_weight G g)"
    proof (intro set_eqI iffI)
      fix k
      assume "k \<in> task_key ` ran ((di_weight G g)(i \<mapsto> t\<lparr> t_show_args_in_prefix := True \<rparr>))"
      then obtain j u where "((di_weight G g)(i \<mapsto> t\<lparr> t_show_args_in_prefix := True \<rparr>)) j = Some u" "k = task_key u"
        by (auto simp: ran_def)
      then have "\<exists>v. di_weight G g j = Some v \<and> k = task_key v" using Some key by (cases "j = i") auto
      then show "k \<in> task_key ` ran (di_weight G g)" by (auto simp: ran_def)
    next
      fix k
      assume "k \<in> task_key ` ran (di_weight G g)"
      then obtain j u where "di_weight G g j = Some u" "k = task_key u" by (auto simp: ran_def)
      then have "\<exists>v. ((di_weight G g)(i \<mapsto> t\<lparr> t_show_args_in_prefix := True \<rparr>)) j = Some v \<and> k = task_key v"
        using Some key by (cases "j = i") auto
      then show "k \<in> task_key ` ran ((di_weight G g)(i \<mapsto> t\<lparr> t_show_args_in_prefix := True \<rparr>))"
        unfolding ran_def by blast
    qed
    with di_set [OF Cons.prems i] Some Cons.prems show ?thesis by simp
  qed
  with Cons.IH [of "?f g i"] show ?case by simp
qed

lemma mark_ambiguous_ok:
  assumes "valid (tk_graph d)"
  shows "valid (tk_graph (mark_ambiguous_prefixes G d))
    \<and> di_rel G (tk_graph (mark_ambiguous_prefixes G d)) = di_rel G (tk_graph d)
    \<and> task_key ` ran (di_weight G (tk_graph (mark_ambiguous_prefixes G d))) =
        task_key ` ran (di_weight G (tk_graph d)) \<and> tk_tx (mark_ambiguous_prefixes G d) = tk_tx d"
  using mark_loop [OF assms] by (simp add: mark_ambiguous_prefixes_def Let_def)

text \<open>The nested graph.\<close>

lemma new_pruned_result:
  assumes "render_keeps_key E" and "finite K" and "resolves_into E K" and "te_resolve_all E tasks = Inr all_tasks"
  shows "\<exists>r. new_pruned G E tasks completed = Some r \<and> r \<noteq> Panicked
    \<and> (\<forall>d. r = Done d \<longrightarrow> fresh_deps G valid d
        \<and> (\<exists>d0. tk_new G E tasks = Some (Done d0) \<and> well_built G E all_tasks d0
             \<and> task_key ` ran (di_weight G (tk_graph d)) =
                 task_key ` ran (di_weight G (tk_graph d0)) - cs_completed completed))"
proof -
  obtain r where r: "tk_new G E tasks = Some r" "r \<noteq> Panicked"
    "\<forall>d. r = Done d \<longrightarrow> fresh_deps G valid d \<and> well_built G E all_tasks d"
    using new_with_cycle_limit_result [OF digraph_axioms assms, of "Some 1"] by (auto simp: tk_new_def)
  show ?thesis
  proof (cases r)
    case (Done d0)
    let ?d = "d0\<lparr> tk_did_work := tk_did_work d0 \<union> cs_did_work completed,
                 tk_cache_keys := tk_cache_keys d0 ++ cs_cache_keys completed,
                 tk_graph := prune_completed G completed (tk_graph d0) \<rparr>"
    have f: "valid (tk_graph d0)" "acyclic (di_rel G (tk_graph d0))" "tk_tx d0 = []"
      using r(3) Done by (auto simp: fresh_deps_def)
    note p = prune_completed_ok [OF f(1,2), of completed]
    have m: "valid (tk_graph (mark_ambiguous_prefixes G ?d))"
      "di_rel G (tk_graph (mark_ambiguous_prefixes G ?d)) = di_rel G (prune_completed G completed (tk_graph d0))"
      "task_key ` ran (di_weight G (tk_graph (mark_ambiguous_prefixes G ?d))) =
        task_key ` ran (di_weight G (prune_completed G completed (tk_graph d0)))"
      "tk_tx (mark_ambiguous_prefixes G ?d) = tk_tx d0"
      using mark_ambiguous_ok [of ?d] p by simp_all
    have "fresh_deps G valid (mark_ambiguous_prefixes G ?d)"
      using m p f(3) by (simp add: fresh_deps_def)
    moreover have "task_key ` {t \<in> ran (di_weight G (tk_graph d0)). task_key t \<notin> cs_completed completed}
        = task_key ` ran (di_weight G (tk_graph d0)) - cs_completed completed" by blast
    ultimately show ?thesis using r(1,3) Done m(3) p by (simp add: new_pruned_def)
  qed (use r in \<open>simp_all add: new_pruned_def\<close>)
qed

end

end
