(* ===== verification/Redactions.thy ===== *)
theory Redactions
  imports Env_Pristine "HOL-Library.Product_Lexorder"
begin

text \<open>
  Hiding secrets in output, \<^verbatim>\<open>crates/mise-util/src/redactions.rs\<close>: the patterns of a secret, the
  redactor that replaces every occurrence of every pattern, and the rewriting of the
  credentials in URLs.  The Aho-Corasick automaton, the JSON writer and the \<^verbatim>\<open>Debug\<close> writer of
  strings are parameters.  \<^const>\<open>None\<close> as the result of an operation is a panic.
\<close>

section \<open>String primitives\<close>

text \<open>\<^verbatim>\<open>str::find\<close> of a string and of a predicate, \<^verbatim>\<open>str::rfind\<close>, and slicing.\<close>

fun find_sub :: "ustr \<Rightarrow> ustr \<Rightarrow> nat option" where
  "find_sub p [] = (if p = [] then Some 0 else None)"
| "find_sub p (c # s) = (if starts_with p (c # s) then Some 0 else map_option Suc (find_sub p s))"

definition rfind :: "(uchar \<Rightarrow> bool) \<Rightarrow> ustr \<Rightarrow> nat option" where
  "rfind P s = (if \<exists>c\<in>set s. P c then Some (length s - 1 - length (takeWhile (\<lambda>c. \<not> P c) (rev s))) else None)"

definition slice :: "nat \<Rightarrow> nat \<Rightarrow> ustr \<Rightarrow> ustr option" where
  "slice a b s = (if a \<le> b \<and> b \<le> length s then Some (drop a (take b s)) else None)"

definition strip_suffix :: "ustr \<Rightarrow> ustr \<Rightarrow> ustr option" where
  "strip_suffix p s = map_option rev (strip_prefix (rev p) (rev s))"

definition ends_with :: "ustr \<Rightarrow> ustr \<Rightarrow> bool" where
  "ends_with p s \<longleftrightarrow> strip_suffix p s \<noteq> None"

definition REDACTED :: ustr where "REDACTED = lit ''[redacted]''"

definition SCHEME_SEP :: ustr where "SCHEME_SEP = [COLON, SLASH, SLASH]"

section \<open>The patterns of a secret\<close>

definition push_pattern :: "ustr \<Rightarrow> ustr list \<Rightarrow> ustr list" where
  "push_pattern p out = (if p \<noteq> [] \<and> p \<notin> set out then out @ [p] else out)"

text \<open>\<open>json\<close> and \<open>debug\<close> are the two writers of strings.\<close>

definition unquoted :: "ustr \<Rightarrow> ustr option" where
  "unquoted s = (case strip_prefix [DQ] s of None \<Rightarrow> None | Some r \<Rightarrow> strip_suffix [DQ] r)"

definition secret_patterns :: "(ustr \<Rightarrow> ustr option) \<Rightarrow> (ustr \<Rightarrow> ustr) \<Rightarrow> ustr \<Rightarrow> ustr list" where
  "secret_patterns json debug value =
     (let out = push_pattern value [];
          out = (if NL \<in> set value
                 then foldl (\<lambda>out line.
                        if byte_len line \<ge> 4 \<and> (\<exists>c\<in>set line. is_ascii_alphanumeric c)
                        then push_pattern line out else out) out (map str_trim (lines_of value))
                 else out);
          out = (case Option.bind (json value) unquoted of
                   Some inner \<Rightarrow> if inner \<noteq> value then push_pattern inner out else out
                 | None \<Rightarrow> out)
      in case unquoted (debug value) of Some inner \<Rightarrow> push_pattern inner out | None \<Rightarrow> out)"

text \<open>The keys iterate in their order.\<close>

definition inherited_secret_patterns ::
    "(ustr \<Rightarrow> ustr option) \<Rightarrow> (ustr \<Rightarrow> ustr) \<Rightarrow> ustr list \<Rightarrow> (ustr \<Rightarrow> ustr option) \<Rightarrow> ustr list" where
  "inherited_secret_patterns json debug keys get =
     concat (map (secret_patterns json debug) (List.map_filter get keys))"

section \<open>The redactor\<close>

text \<open>
  The automaton is what \<^verbatim>\<open>AhoCorasick::new\<close> builds: for a text the spans of all matches, overlapping
  ones included.
\<close>

type_synonym span = "nat \<times> nat"
type_synonym automaton = "ustr \<Rightarrow> span list"

record redactor =
  rd_patterns :: "ustr list"
  rd_automaton :: "automaton option"

definition iset_insert :: "'a \<Rightarrow> 'a list \<Rightarrow> 'a list" where
  "iset_insert x s = (if x \<in> set s then s else s @ [x])"

definition redactor_new :: "(ustr list \<Rightarrow> automaton option) \<Rightarrow> ustr list \<Rightarrow> redactor" where
  "redactor_new build patterns =
     (let ps = foldl (\<lambda>s p. iset_insert p s) [] (filter (\<lambda>p. p \<noteq> []) patterns)
      in \<lparr> rd_patterns = ps, rd_automaton = (if ps = [] then None else build ps) \<rparr>)"

definition with_additional :: "(ustr list \<Rightarrow> automaton option) \<Rightarrow> redactor \<Rightarrow> ustr list \<Rightarrow> redactor" where
  "with_additional build r additional =
     redactor_new build (foldl (\<lambda>s p. if p \<noteq> [] then iset_insert p s else s) (rd_patterns r) additional)"

function naive_loop :: "ustr \<Rightarrow> ustr \<Rightarrow> nat \<Rightarrow> span list option" where
  "naive_loop input p pos =
     (if pos > length input then None
      else case find_sub p (drop pos input) of
             None \<Rightarrow> Some []
           | Some i \<Rightarrow>
               map_option (\<lambda>spans. (pos + i, pos + i + length p) # spans) (naive_loop input p (pos + i + 1)))"
  by pat_completeness auto
termination
  by (relation "measure (\<lambda>(input, p, pos). Suc (length input) - pos)") auto

declare naive_loop.simps [simp del]

fun naive_spans :: "ustr \<Rightarrow> ustr list \<Rightarrow> span list option" where
  "naive_spans input [] = Some []"
| "naive_spans input (p # ps) =
     (case naive_loop input p 0 of
        None \<Rightarrow> None
      | Some spans \<Rightarrow> map_option (\<lambda>rest. spans @ rest) (naive_spans input ps))"

fun span_loop :: "ustr \<Rightarrow> ustr \<Rightarrow> nat \<Rightarrow> nat \<Rightarrow> nat \<Rightarrow> span list \<Rightarrow> ustr option" where
  "span_loop input out pos cur_start cur_end [] =
     (case slice pos cur_start input of
        None \<Rightarrow> None
      | Some a \<Rightarrow> map_option (\<lambda>b. out @ a @ REDACTED @ b) (slice cur_end (length input) input))"
| "span_loop input out pos cur_start cur_end ((start, end') # spans) =
     (if start < cur_end then span_loop input out pos cur_start (max cur_end end') spans
      else case slice pos cur_start input of
             None \<Rightarrow> None
           | Some a \<Rightarrow> span_loop input (out @ a @ REDACTED) cur_end start end' spans)"

definition replace_spans :: "ustr \<Rightarrow> span list \<Rightarrow> ustr option" where
  "replace_spans input spans =
     (case sort spans of
        [] \<Rightarrow> Some input
      | (cur_start, cur_end) # rest \<Rightarrow> span_loop input [] 0 cur_start cur_end rest)"

definition redact :: "redactor \<Rightarrow> ustr \<Rightarrow> ustr option" where
  "redact r input =
     (if rd_patterns r = [] then Some input
      else case (case rd_automaton r of
                   Some ac \<Rightarrow> Some (ac input) | None \<Rightarrow> naive_spans input (rd_patterns r)) of
             None \<Rightarrow> None
           | Some spans \<Rightarrow> replace_spans input spans)"

section \<open>Credentials in URLs\<close>

datatype userinfo = Redact | Strip

datatype cow = Borrowed ustr | Owned ustr

definition cow_str :: "cow \<Rightarrow> ustr" where
  "cow_str c = (case c of Borrowed s \<Rightarrow> s | Owned s \<Rightarrow> s)"

text \<open>
  \<^verbatim>\<open>trailing_scheme\<close> slices one byte after the start of a character, which panics when that
  character takes more than one byte.
\<close>

definition scheme_char :: "uchar \<Rightarrow> bool" where
  "scheme_char c \<longleftrightarrow> is_ascii_alphanumeric c \<or> c = PLUS \<or> c = MINUS \<or> c = DOT"

definition trailing_scheme :: "ustr \<Rightarrow> ustr option" where
  "trailing_scheme head =
     (let head = (case strip_suffix SCHEME_SEP head of Some h \<Rightarrow> h | None \<Rightarrow> head)
      in case rfind (\<lambda>c. \<not> scheme_char c) head of
           None \<Rightarrow> Some head
         | Some i \<Rightarrow> if len_utf8 (head ! i) = 1 then Some (drop (i + 1) head) else None)"

definition ends_authority :: "bool \<Rightarrow> uchar \<Rightarrow> bool" where
  "ends_authority whitespace_ends_url c \<longleftrightarrow>
     c = SLASH \<or> c = QUESTION \<or> c = HASH \<or> (whitespace_ends_url \<and> is_whitespace c)"

text \<open>The text before the last \<^verbatim>\<open>@\<close> of the authority, if it is not empty, and what follows that \<^verbatim>\<open>@\<close>.\<close>

definition find_userinfo :: "bool \<Rightarrow> ustr \<Rightarrow> nat option" where
  "find_userinfo w tail =
     (case rfind (\<lambda>c. c = AT) (takeWhile (\<lambda>c. \<not> ends_authority w c) tail) of
        Some at \<Rightarrow> if at > 0 then Some at else None
      | None \<Rightarrow> None)"

text \<open>One rewriting: what to write, what is left of the text, and whether something was hidden.\<close>

definition rewrite_tail :: "bool \<Rightarrow> userinfo \<Rightarrow> ustr \<Rightarrow> ustr \<Rightarrow> (ustr \<times> ustr \<times> bool) option" where
  "rewrite_tail w mode head tail =
     (case find_userinfo w tail of
        None \<Rightarrow> Some ([], tail, False)
      | Some at \<Rightarrow>
          (case mode of
             Redact \<Rightarrow> Some (REDACTED, drop at tail, True)
           | Strip \<Rightarrow>
               (case trailing_scheme head of
                  None \<Rightarrow> None
                | Some scheme \<Rightarrow>
                    if ends_with (lit ''ssh'') (to_ascii_lowercase scheme)
                    then (case split_once COLON (take at tail) of
                            Some (user, password) \<Rightarrow> Some (user, drop at tail, True)
                          | None \<Rightarrow> Some ([], tail, False))
                    else Some ([], drop (at + 1) tail, True))))"

lemma rewrite_tail_shorter:
  "rewrite_tail w mode head tail = Some (written, rest, hidden) \<Longrightarrow> length rest \<le> length tail"
  by (auto simp: rewrite_tail_def split: option.splits userinfo.splits if_splits prod.splits)

lemma find_sub_Some:
  "find_sub p s = Some i \<Longrightarrow> starts_with p (drop i s) \<and> (\<forall>j<i. \<not> starts_with p (drop j s))"
proof (induction p s arbitrary: i rule: find_sub.induct)
  case (1 p)
  then show ?case by (auto simp: starts_with_iff split: if_splits)
next
  case (2 p c s)
  show ?case
  proof (cases "starts_with p (c # s)")
    case False
    then obtain k where k: "find_sub p s = Some k" "i = Suc k" using "2.prems" by auto
    from "2.IH" [OF False k(1)] False show ?thesis
      unfolding k(2) by (auto simp: less_Suc_eq_0_disj)
  qed (use "2.prems" in simp)
qed

lemma find_sub_None: "find_sub p s = None \<Longrightarrow> \<not> starts_with p (drop j s)"
proof (induction p s arbitrary: j rule: find_sub.induct)
  case (1 p)
  then show ?case by (auto simp: starts_with_iff split: if_splits)
next
  case (2 p c s)
  then show ?case by (cases j) (auto split: if_splits)
qed

lemma find_sub_split: "find_sub p s = Some i \<Longrightarrow> s = take i s @ p @ drop (i + length p) s"
proof -
  assume "find_sub p s = Some i"
  then obtain r where r: "drop i s = p @ r" using find_sub_Some by (metis starts_with_iff)
  then have "drop (i + length p) s = r" by (metis add.commute append_eq_conv_conj drop_drop)
  with r show ?thesis by (metis append_take_drop_id)
qed

lemma starts_with_length: "starts_with p s \<Longrightarrow> length p \<le> length s"
  by (auto simp: starts_with_iff)

lemma find_sub_range: "find_sub p s = Some i \<Longrightarrow> i + length p \<le> length s"
proof (induction p s arbitrary: i rule: find_sub.induct)
  case (1 p)
  then show ?case by (auto split: if_splits)
next
  case (2 p c s)
  then show ?case using starts_with_length [of p "c # s"] by (cases "starts_with p (c # s)") auto
qed

function rewrite_loop :: "bool \<Rightarrow> userinfo \<Rightarrow> ustr \<Rightarrow> ustr \<Rightarrow> bool \<Rightarrow> (ustr \<times> ustr \<times> bool) option" where
  "rewrite_loop w mode out rest redacted =
     (case find_sub SCHEME_SEP rest of
        None \<Rightarrow> Some (out, rest, redacted)
      | Some i \<Rightarrow>
          (case rewrite_tail w mode (take (i + 3) rest) (drop (i + 3) rest) of
             None \<Rightarrow> None
           | Some (written, rest', hidden) \<Rightarrow>
               rewrite_loop w mode (out @ take (i + 3) rest @ written) rest' (redacted \<or> hidden)))"
  by pat_completeness auto
termination
proof (relation "measure (\<lambda>(w, mode, out, rest, redacted). length rest)", goal_cases)
  case 1
  then show ?case by simp
next
  case (2 w mode out rest redacted i t written r rest' hidden)
  then show ?case
    using find_sub_range [OF 2(1)] by (auto simp: SCHEME_SEP_def dest!: rewrite_tail_shorter)
qed

declare rewrite_loop.simps [simp del]

definition rewrite_userinfo :: "bool \<Rightarrow> userinfo \<Rightarrow> ustr \<Rightarrow> cow option" where
  "rewrite_userinfo w mode text =
     (if find_sub SCHEME_SEP text = None then Some (Borrowed text)
      else case rewrite_loop w mode [] text False of
             None \<Rightarrow> None
           | Some (out, rest, redacted) \<Rightarrow>
               Some (if redacted then Owned (out @ rest) else Borrowed text))"

definition redact_userinfo :: "bool \<Rightarrow> ustr \<Rightarrow> cow option" where
  "redact_userinfo w text = rewrite_userinfo w Redact text"

definition redact_url_userinfo :: "ustr \<Rightarrow> cow option" where
  "redact_url_userinfo text = redact_userinfo True text"

definition redact_url_userinfo_in_arg :: "ustr \<Rightarrow> cow option" where
  "redact_url_userinfo_in_arg arg = redact_userinfo False arg"

definition strip_url_credentials :: "ustr \<Rightarrow> cow option" where
  "strip_url_credentials text = rewrite_userinfo True Strip text"

definition strip_url_credentials_in_arg :: "ustr \<Rightarrow> cow option" where
  "strip_url_credentials_in_arg arg = rewrite_userinfo False Strip arg"

definition strip_url_credentials_in_value :: "ustr \<Rightarrow> cow option" where
  "strip_url_credentials_in_value value =
     (let scheme = (case find_sub SCHEME_SEP value of Some i \<Rightarrow> take i value | None \<Rightarrow> []);
          is_url = (case scheme of [] \<Rightarrow> False | c # _ \<Rightarrow> is_ascii_alphabetic c)
            \<and> (\<forall>c\<in>set scheme. scheme_char c)
      in if is_url then strip_url_credentials_in_arg value else strip_url_credentials value)"

section \<open>Output\<close>

definition credential_names :: "ustr list" where
  "credential_names = map lit [''token'', ''access_token'', ''private_token'', ''auth'', ''api_key'',
     ''apikey'', ''key'', ''sig'', ''signature'', ''password'', ''passwd'', ''pwd'', ''secret'',
     ''credential'', ''credentials'', ''x-amz-credential'', ''x-goog-credential'']"

definition credential_suffixes :: "ustr list" where
  "credential_suffixes = map lit [''token'', ''key'', ''secret'', ''password'', ''signature'']"

definition is_credential_query_param :: "ustr \<Rightarrow> bool" where
  "is_credential_query_param param =
     (let param = to_ascii_lowercase param
      in param \<in> set credential_names
         \<or> (\<exists>suffix\<in>set credential_suffixes.
              case strip_suffix suffix param of
                Some rest \<Rightarrow> ends_with [UNDERSCORE] rest \<or> ends_with [MINUS] rest
              | None \<Rightarrow> False))"

definition redact_output :: "redactor \<Rightarrow> ustr \<Rightarrow> ustr option" where
  "redact_output global text =
     (case redact global text of
        None \<Rightarrow> None
      | Some text \<Rightarrow>
          (case redact_url_userinfo text of
             None \<Rightarrow> None
           | Some (Borrowed _) \<Rightarrow> Some text
           | Some (Owned redacted) \<Rightarrow> Some redacted))"

text \<open>JSON values; an object keeps the order of its keys and the last value of a key.\<close>

datatype json = JNull | JBool bool | JNumber ustr | JString ustr | JArray "json list" | JObject "(ustr \<times> json) list"

fun redact_json_with :: "(ustr \<Rightarrow> ustr) \<Rightarrow> json \<Rightarrow> json" where
  "redact_json_with f (JString s) = JString (f s)"
| "redact_json_with f (JArray values) = JArray (map (redact_json_with f) values)"
| "redact_json_with f (JObject kvs) =
     JObject (foldl (\<lambda>m kv. imap_insert (fst kv) (snd kv) m) []
       (map (\<lambda>(k, v). (f k, redact_json_with f v)) kvs))"
| "redact_json_with f other = other"

end
