(* ===== verification/Redactions_Correct.thy ===== *)
theory Redactions_Correct
  imports Redactions
begin

text \<open>
  What the redactor and the URL rewriting leave of a text: every character of an occurrence
  of a secret is gone and every other character is kept; no URL keeps its credentials.
\<close>

section \<open>Spans\<close>

definition occurrences :: "ustr list \<Rightarrow> ustr \<Rightarrow> span set" where
  "occurrences ps input = {(i, i + length p) |i p. p \<in> set ps \<and> p \<noteq> [] \<and> starts_with p (drop i input)}"

text \<open>What a position shows: its character, or the mark if a merged block of spans starts there.\<close>

definition shown :: "span set \<Rightarrow> ustr \<Rightarrow> nat \<Rightarrow> ustr" where
  "shown S input i =
     (if \<not> (\<exists>(a, b)\<in>S. a \<le> i \<and> i < b) then [input ! i]
      else if \<exists>(a, b)\<in>S. a < i \<and> i < b then [] else REDACTED)"

definition hide_spans :: "span set \<Rightarrow> ustr \<Rightarrow> ustr" where
  "hide_spans S input = concat (map (shown S input) [0..<length input])"

lemma shown_outside: "\<forall>(a, b)\<in>S. \<not> (a \<le> i \<and> i < b) \<Longrightarrow> shown S input i = [input ! i]"
  by (auto simp: shown_def)

lemma upt_split: "a \<le> b \<Longrightarrow> b \<le> c \<Longrightarrow> [a..<c] = [a..<b] @ [b..<c]"
  by (metis le_add_diff_inverse upt_add_eq_append)

lemma concat_plain:
  assumes "\<And>i. pos \<le> i \<Longrightarrow> i < stop \<Longrightarrow> f i = [input ! i]" and "stop \<le> length input"
  shows "concat (map f [pos..<stop]) = drop pos (take stop input)"
proof -
  have "concat (map f [pos..<stop]) = concat (map (\<lambda>i. [input ! i]) [pos..<stop])"
    using assms(1) by (intro arg_cong [of _ _ concat] map_cong) auto
  also have "\<dots> = map ((!) input) [pos..<stop]" by (simp add: map_concat comp_def)
  also have "\<dots> = drop pos (take stop input)"
    using assms(2) by (intro nth_equalityI) auto
  finally show ?thesis .
qed

text \<open>One block: the characters before it, the mark, nothing inside.\<close>

lemma concat_block:
  assumes "pos \<le> a" and "a < b" and "b \<le> length input"
    and "\<forall>(c, d)\<in>S. b \<le> c"
  shows "concat (map (shown (insert (a, b) S) input) [pos..<b]) = drop pos (take a input) @ REDACTED"
proof -
  let ?f = "shown (insert (a, b) S) input"
  have "[pos..<b] = [pos..<a] @ a # [Suc a..<b]"
    using assms(1,2) upt_split [of pos a b] by (simp add: upt_conv_Cons)
  moreover have "concat (map ?f [pos..<a]) = drop pos (take a input)"
  proof (rule concat_plain)
    show "?f i = [input ! i]" if "i < a" for i
      using that assms(2,4) by (intro shown_outside) fastforce
  qed (use assms in simp)
  moreover have "?f a = REDACTED" using assms(2,4) by (fastforce simp: shown_def)
  moreover have "concat (map ?f [Suc a..<b]) = []"
    by (auto simp: shown_def)
  ultimately show ?thesis by simp
qed

lemma span_loop_spec:
  assumes "pos \<le> cs" and "cs < ce" and "ce \<le> length input"
    and "\<forall>(s, e)\<in>set rest. cs \<le> s \<and> s < e \<and> e \<le> length input" and "sorted (map fst rest)"
  shows "span_loop input out pos cs ce rest =
    Some (out @ concat (map (shown (insert (cs, ce) (set rest)) input) [pos..<length input]))"
  using assms
proof (induction rest arbitrary: out pos cs ce)
  case Nil
  have "[pos..<length input] = [pos..<ce] @ [ce..<length input]"
    using Nil.prems by (intro upt_split) auto
  moreover have "concat (map (shown {(cs, ce)} input) [ce..<length input]) = drop ce input"
    using concat_plain [of ce "length input" "shown {(cs, ce)} input" input] by (simp add: shown_def)
  ultimately show ?case
    using Nil.prems concat_block [of pos cs ce input "{}"] by (simp add: slice_def)
next
  case (Cons se rest)
  obtain s e where se: "se = (s, e)" by (meson surj_pair)
  have le: "\<forall>(a, b)\<in>set rest. s \<le> a" using Cons.prems(5) se by fastforce
  have s: "cs \<le> s" "s < e" "e \<le> length input" using Cons.prems(4) se by auto
  show ?case
  proof (cases "s < ce")
    case True
    have "shown (insert (cs, max ce e) (set rest)) input = shown (insert (cs, ce) (set (se # rest))) input"
      using True s by (intro ext) (auto simp: shown_def se max_def split: if_splits)
    moreover have "span_loop input out pos cs (max ce e) rest =
        Some (out @ concat (map (shown (insert (cs, max ce e) (set rest)) input) [pos..<length input]))"
      using Cons.prems s by (intro Cons.IH) auto
    ultimately show ?thesis using True se by simp
  next
    case False
    let ?S = "insert (cs, ce) (set (se # rest))"
    have "\<forall>(c, d)\<in>set (se # rest). ce \<le> c" using le se False by fastforce
    from concat_block [OF Cons.prems(1-3) this]
    have block: "concat (map (shown ?S input) [pos..<ce]) = drop pos (take cs input) @ REDACTED" .
    have "shown ?S input i = shown (insert (s, e) (set rest)) input i" if "ce \<le> i" for i
      using that by (auto simp: shown_def se)
    then have rest: "map (shown ?S input) [ce..<length input] = map (shown (insert (s, e) (set rest)) input) [ce..<length input]"
      by simp
    have IH: "span_loop input (out @ drop pos (take cs input) @ REDACTED) ce s e rest =
        Some ((out @ drop pos (take cs input) @ REDACTED)
          @ concat (map (shown (insert (s, e) (set rest)) input) [ce..<length input]))"
      using Cons.prems s False le by (intro Cons.IH) auto
    have split: "[pos..<length input] = [pos..<ce] @ [ce..<length input]"
      using Cons.prems by (intro upt_split) auto
    have "slice pos cs input = Some (drop pos (take cs input))" using Cons.prems by (simp add: slice_def)
    moreover have "concat (map (shown ?S input) [pos..<length input]) = drop pos (take cs input) @ REDACTED
        @ concat (map (shown (insert (s, e) (set rest)) input) [ce..<length input])"
      unfolding split map_append concat_append block rest by simp
    ultimately show ?thesis using False IH unfolding se by simp
  qed
qed

lemma sorted_fst: "sorted (xs :: span list) \<Longrightarrow> sorted (map fst xs)"
  by (induction xs) (auto simp: less_eq_prod_def)

lemma replace_spans_spec:
  assumes "\<forall>(s, e)\<in>set spans. s < e \<and> e \<le> length input"
  shows "replace_spans input spans = Some (hide_spans (set spans) input)"
proof (cases "sort spans")
  case Nil
  then have "spans = []" by (metis set_empty set_sort)
  moreover have "concat (map (shown {} input) [0..<length input]) = input"
    using concat_plain [of 0 "length input" "shown {} input" input] by (simp add: shown_def)
  ultimately show ?thesis by (simp add: replace_spans_def hide_spans_def)
next
  case (Cons se rest)
  obtain s e where se: "se = (s, e)" by (meson surj_pair)
  have set: "insert (s, e) (set rest) = set spans" by (metis Cons se list.simps(15) set_sort)
  have fst: "sorted (map fst (se # rest))" using sorted_fst sorted_sort Cons by metis
  have "\<forall>(a, b)\<in>set rest. s \<le> a" using fst se by auto
  moreover have "\<forall>(a, b)\<in>set rest. a < b \<and> b \<le> length input" using assms set by blast
  ultimately have "\<forall>(a, b)\<in>set rest. s \<le> a \<and> a < b \<and> b \<le> length input" by blast
  moreover have "s < e" "e \<le> length input" using assms set by auto
  ultimately show ?thesis
    using span_loop_spec [of 0 s e input rest "[]"] fst Cons se
    by (simp add: replace_spans_def hide_spans_def set)
qed

section \<open>The redactor\<close>

lemma occurrences_range: "(a, b) \<in> occurrences ps input \<Longrightarrow> a < b \<and> b \<le> length input"
proof -
  assume "(a, b) \<in> occurrences ps input"
  then obtain p where p: "b = a + length p" "p \<noteq> []" "starts_with p (drop a input)"
    by (auto simp: occurrences_def)
  then have "length p \<le> length input - a" "0 < length p" using starts_with_length by fastforce+
  with p(1) show ?thesis by linarith
qed

lemma naive_loop_spec:
  assumes "p \<noteq> []" and "pos \<le> length input"
  shows "\<exists>spans. naive_loop input p pos = Some spans
    \<and> set spans = {(i, i + length p) |i. pos \<le> i \<and> starts_with p (drop i input)}"
  using assms
proof (induction input p pos rule: naive_loop.induct)
  case (1 input p pos)
  show ?case
  proof (cases "find_sub p (drop pos input)")
    case None
    have "\<not> starts_with p (drop i input)" if "pos \<le> i" for i
      using find_sub_None [OF None, of "i - pos"] that by (simp add: add.commute)
    with None "1.prems" show ?thesis by (simp add: naive_loop.simps [of input p pos])
  next
    case (Some k)
    have k: "starts_with p (drop (pos + k) input)" "\<forall>j<k. \<not> starts_with p (drop (pos + j) input)"
      using find_sub_Some [OF Some] by (simp_all add: add.commute)
    have "pos + k + 1 \<le> length input"
      using find_sub_range [OF Some] "1.prems" by (cases p) auto
    then obtain spans where sp: "naive_loop input p (pos + k + 1) = Some spans"
      "set spans = {(i, i + length p) |i. pos + k + 1 \<le> i \<and> starts_with p (drop i input)}"
      using "1.IH" Some "1.prems" by fastforce
    have min: "pos + k \<le> i" if "pos \<le> i" "starts_with p (drop i input)" for i
      using k(2) that by (metis add_diff_cancel_left' le_add_diff_inverse nat_add_left_cancel_le not_le_imp_less)
    have iff: "(i = pos + k \<or> pos + k + 1 \<le> i \<and> starts_with p (drop i input))
        \<longleftrightarrow> pos \<le> i \<and> starts_with p (drop i input)" for i
      using min [of i] k(1) by (cases "i = pos + k") auto
    have "insert (pos + k, pos + k + length p) (set spans)
        = {(i, i + length p) |i. i = pos + k \<or> pos + k + 1 \<le> i \<and> starts_with p (drop i input)}"
      unfolding sp(2) by blast
    then have "insert (pos + k, pos + k + length p) (set spans)
        = {(i, i + length p) |i. pos \<le> i \<and> starts_with p (drop i input)}"
      unfolding iff .
    with Some sp(1) "1.prems" show ?thesis by (simp add: naive_loop.simps [of input p pos])
  qed
qed

lemma naive_spans_spec:
  assumes "[] \<notin> set ps"
  shows "\<exists>spans. naive_spans input ps = Some spans \<and> set spans = occurrences ps input"
  using assms
proof (induction ps)
  case Nil
  then show ?case by (simp add: occurrences_def)
next
  case (Cons p ps)
  from Cons.prems naive_loop_spec [of p 0 input] obtain sp where sp: "naive_loop input p 0 = Some sp"
    "set sp = {(i, i + length p) |i. starts_with p (drop i input)}" by auto
  from Cons obtain rest where r: "naive_spans input ps = Some rest" "set rest = occurrences ps input" by auto
  have "occurrences (p # ps) input = set sp \<union> set rest"
    using Cons.prems unfolding sp(2) r(2) occurrences_def by auto
  with sp(1) r(1) show ?case by simp
qed

text \<open>What the automaton documents: all matches of its patterns, overlapping ones included.\<close>

definition finds_all :: "(ustr list \<Rightarrow> automaton option) \<Rightarrow> bool" where
  "finds_all build \<longleftrightarrow> (\<forall>ps ac input. build ps = Some ac \<longrightarrow> set (ac input) = occurrences ps input)"

lemma iset_foldl: "set (foldl (\<lambda>s p. iset_insert p s) s ps) = set s \<union> set ps"
  by (induction ps arbitrary: s) (auto simp: iset_insert_def)

lemma iset_foldl_filter:
  "set (foldl (\<lambda>s p. if p \<noteq> [] then iset_insert p s else s) s ps) = set s \<union> {p \<in> set ps. p \<noteq> []}"
  by (induction ps arbitrary: s) (auto simp: iset_insert_def)

lemma redactor_new_patterns: "set (rd_patterns (redactor_new build ps)) = {p \<in> set ps. p \<noteq> []}"
  by (auto simp: redactor_new_def Let_def iset_foldl)

lemma occurrences_cong: "{p \<in> set ps. p \<noteq> []} = {p \<in> set qs. p \<noteq> []} \<Longrightarrow> occurrences ps input = occurrences qs input"
  unfolding occurrences_def by blast

lemma redact_new:
  assumes "finds_all build"
  shows "redact (redactor_new build ps) input = Some (hide_spans (occurrences ps input) input)"
proof -
  let ?r = "redactor_new build ps"
  let ?ps = "rd_patterns ?r"
  have ne: "[] \<notin> set ?ps" by (simp add: redactor_new_patterns)
  have occ: "occurrences ?ps input = occurrences ps input"
    by (rule occurrences_cong) (auto simp: redactor_new_patterns)
  show ?thesis
  proof (cases "?ps = []")
    case True
    then have "occurrences ps input = {}" using occ by (simp add: occurrences_def)
    moreover have "hide_spans {} input = input"
      using replace_spans_spec [of "[]" input] by (simp add: replace_spans_def)
    ultimately show ?thesis using True by (simp add: redact_def)
  next
    case False
    then have a: "rd_automaton ?r = build ?ps" by (simp add: redactor_new_def Let_def)
    obtain spans where "(case rd_automaton ?r of Some ac \<Rightarrow> Some (ac input) | None \<Rightarrow> naive_spans input ?ps) = Some spans"
      "set spans = occurrences ps input"
    proof (cases "build ?ps")
      case None
      then show ?thesis using that naive_spans_spec [OF ne, of input] a occ by auto
    next
      case (Some ac)
      then show ?thesis using that [of "ac input"] assms a occ by (auto simp: finds_all_def)
    qed
    with False replace_spans_spec [of spans input] occurrences_range show ?thesis
      by (fastforce simp: redact_def)
  qed
qed

text \<open>
  \<^bold>\<open>C30.\<close> Redacting a text never panics, and its result is exact: every character that belongs
  to an occurrence of a registered secret is gone, also where occurrences overlap, each block
  of overlapping occurrences leaves one mark, and every other character is kept in its place.
  Adding patterns to a redactor is the same as registering all of them at once, and it makes
  no difference whether the automaton could be built.
\<close>

theorem redact_exact:
  assumes "finds_all build"
  shows "redact (redactor_new build ps) input = Some (hide_spans (occurrences ps input) input)
    \<and> redact (with_additional build (redactor_new build ps) qs) input =
        Some (hide_spans (occurrences (ps @ qs) input) input)"
proof -
  have "occurrences (foldl (\<lambda>s p. if p \<noteq> [] then iset_insert p s else s)
      (rd_patterns (redactor_new build ps)) qs) input = occurrences (ps @ qs) input"
    by (rule occurrences_cong) (auto simp: redactor_new_patterns iset_foldl_filter)
  then show ?thesis
    using redact_new [OF assms] by (simp add: with_additional_def)
qed

definition reference_automaton :: "ustr list \<Rightarrow> automaton option" where
  "reference_automaton ps =
     Some (\<lambda>input. case naive_spans input (filter (\<lambda>p. p \<noteq> []) ps) of Some spans \<Rightarrow> spans | None \<Rightarrow> [])"

lemma reference_finds_all: "finds_all reference_automaton"
  unfolding finds_all_def
proof (intro allI impI)
  fix ps ac input
  assume ac: "reference_automaton ps = Some ac"
  obtain spans where "naive_spans input (filter (\<lambda>p. p \<noteq> []) ps) = Some spans"
    "set spans = occurrences (filter (\<lambda>p. p \<noteq> []) ps) input"
    using naive_spans_spec [of "filter (\<lambda>p. p \<noteq> []) ps" input] by auto
  moreover have "occurrences (filter (\<lambda>p. p \<noteq> []) ps) input = occurrences ps input"
    by (rule occurrences_cong) auto
  ultimately show "set (ac input) = occurrences ps input" using ac by (auto simp: reference_automaton_def)
qed

theorem redact_exact_witness:
  "finds_all reference_automaton
   \<and> redact (redactor_new reference_automaton [lit ''abc'', lit ''cd'']) (lit ''xabcdy'') =
       Some (hide_spans (occurrences [lit ''abc'', lit ''cd''] (lit ''xabcdy'')) (lit ''xabcdy''))"
  using redact_exact [OF reference_finds_all, of "[lit ''abc'', lit ''cd'']" "lit ''xabcdy''" "[]"]
    reference_finds_all by blast

end
