(* ===== verification/Redactions_Url.thy ===== *)
theory Redactions_Url
  imports Redactions
begin

text \<open>
  What the rewriting of URLs leaves behind: no URL in the text keeps its credentials, and
  rewriting a second time changes nothing.
\<close>

section \<open>Authorities\<close>

definition authority :: "bool \<Rightarrow> ustr \<Rightarrow> ustr" where
  "authority w t = takeWhile (\<lambda>c. \<not> ends_authority w c) t"

text \<open>The user information of the URL whose \<^verbatim>\<open>://\<close> the text follows: what stands before the last \<^verbatim>\<open>@\<close> of the authority.\<close>

definition has_userinfo :: "bool \<Rightarrow> ustr \<Rightarrow> ustr \<Rightarrow> bool" where
  "has_userinfo w t u \<longleftrightarrow> u \<noteq> [] \<and> (\<exists>r. authority w t = u @ AT # r \<and> AT \<notin> set r)"

lemma rfind_Some:
  assumes "rfind P s = Some i"
  shows "i < length s \<and> P (s ! i) \<and> (\<forall>c\<in>set (drop (Suc i) s). \<not> P c)"
proof -
  have ex: "\<exists>c\<in>set s. P c" and i: "i = length s - 1 - length (takeWhile (\<lambda>c. \<not> P c) (rev s))"
    using assms by (auto simp: rfind_def split: if_splits)
  let ?n = "length (takeWhile (\<lambda>c. \<not> P c) (rev s))"
  have n: "?n < length (rev s)" 
    using ex takeWhile_all_length [of "\<lambda>c. \<not> P c" "rev s"] length_takeWhile_le [of "\<lambda>c. \<not> P c" "rev s"]
    by (auto simp: le_less)
  have "P (rev s ! ?n)" using nth_length_takeWhile [OF n] by simp
  moreover have "rev s ! ?n = s ! i" using n i by (simp add: rev_nth)
  moreover have "drop (Suc i) s = rev (takeWhile (\<lambda>c. \<not> P c) (rev s))"
  proof -
    have "Suc i = length s - ?n" using n i by simp
    moreover have "takeWhile (\<lambda>c. \<not> P c) (rev s) = rev (drop (length s - ?n) s)"
      by (metis takeWhile_eq_take take_rev)
    ultimately show ?thesis by (metis rev_rev_ident)
  qed
  ultimately show ?thesis using n i by (auto dest: set_takeWhileD)
qed

lemma rfind_None: "rfind P s = None \<longleftrightarrow> (\<forall>c\<in>set s. \<not> P c)"
  by (auto simp: rfind_def)

lemma rfind_last:
  assumes "P c" and "\<forall>x\<in>set r. \<not> P x"
  shows "rfind P (u @ c # r) = Some (length u)"
proof -
  have "takeWhile (\<lambda>c. \<not> P c) (rev r @ c # rev u) = rev r @ takeWhile (\<lambda>c. \<not> P c) (c # rev u)"
    using assms(2) by (intro takeWhile_append2) simp
  then have "takeWhile (\<lambda>c. \<not> P c) (rev (u @ c # r)) = rev r" using assms(1) by simp
  with assms(1) show ?thesis by (simp add: rfind_def)
qed

lemma authority_take: "authority w t = take (length (authority w t)) t"
  by (simp add: authority_def takeWhile_eq_take [symmetric])

lemma find_userinfo_Some:
  assumes "find_userinfo w t = Some at"
  shows "has_userinfo w t (take at t)" and "0 < at"
    and "\<exists>r. drop at t = AT # drop (at + 1) t \<and> authority w t = take at t @ AT # r \<and> AT \<notin> set r"
proof -
  have at: "rfind (\<lambda>c. c = AT) (authority w t) = Some at" "0 < at"
    using assms by (auto simp: find_userinfo_def authority_def split: option.splits if_splits)
  note r = rfind_Some [OF at(1)]
  have l: "at < length t" using r authority_take [of w t]
    by (metis length_takeWhile_le authority_def order_less_le_trans)
  have tk: "take at (authority w t) = take at t"
    using r authority_take [of w t] by (metis less_imp_le min.absorb1 take_take)
  have "authority w t = take at (authority w t) @ authority w t ! at # drop (Suc at) (authority w t)"
    using r by (intro id_take_nth_drop) blast
  then have a: "authority w t = take at t @ AT # drop (Suc at) (authority w t)" using r tk by simp
  have n: "AT \<notin> set (drop (Suc at) (authority w t))" using r by blast
  have "t ! at = AT" using r authority_take [of w t] by (metis nth_take)
  then have "drop at t = AT # drop (at + 1) t" using l by (simp add: Cons_nth_drop_Suc [symmetric])
  with a n show "\<exists>r. drop at t = AT # drop (at + 1) t \<and> authority w t = take at t @ AT # r \<and> AT \<notin> set r" by blast
  show "0 < at" by (rule at(2))
  show "has_userinfo w t (take at t)" using a n at(2) l unfolding has_userinfo_def by auto
qed

lemma find_userinfo_iff:
  assumes "has_userinfo w t u"
  shows "find_userinfo w t = Some (length u)"
proof -
  obtain r where r: "authority w t = u @ AT # r" "AT \<notin> set r" "u \<noteq> []"
    using assms by (auto simp: has_userinfo_def)
  have "rfind (\<lambda>c. c = AT) (authority w t) = Some (length u)"
    unfolding r(1) using r(2) by (intro rfind_last) auto
  with r(3) show ?thesis by (simp add: find_userinfo_def authority_def)
qed

lemma has_userinfo_unique: "has_userinfo w t u \<Longrightarrow> has_userinfo w t v \<Longrightarrow> u = v"
  by (metis append_eq_append_conv find_userinfo_iff has_userinfo_def option.inject)

section \<open>The rewritten text\<close>

definition rewritten :: "bool \<Rightarrow> userinfo \<Rightarrow> ustr \<Rightarrow> ustr option" where
  "rewritten w mode rest = map_option (\<lambda>(out, rest, hidden). out @ rest) (rewrite_loop w mode [] rest False)"

lemma rewrite_loop_acc:
  "rewrite_loop w mode out rest redacted =
     map_option (\<lambda>(o', r, h). (out @ o', r, redacted \<or> h)) (rewrite_loop w mode [] rest False)"
proof (induction "length rest" arbitrary: out rest redacted rule: less_induct)
  case less
  show ?case
  proof (cases "find_sub SCHEME_SEP rest")
    case None
    then show ?thesis by (simp add: rewrite_loop.simps [of w mode _ rest])
  next
    case (Some i)
    show ?thesis
    proof (cases "rewrite_tail w mode (take (i + 3) rest) (drop (i + 3) rest)")
      case None
      with Some show ?thesis by (simp add: rewrite_loop.simps [of w mode _ rest])
    next
      case t: (Some wrh)
      obtain written r h where wrh: "wrh = (written, r, h)" by (metis prod_cases3)
      have "length r < length rest"
        using rewrite_tail_shorter t wrh find_sub_range [OF Some] by (fastforce simp: SCHEME_SEP_def)
      note IH = less.hyps [OF this]
      show ?thesis
        using Some t wrh IH [of "out @ take (i + 3) rest @ written" "redacted \<or> h"]
          IH [of "take (i + 3) rest @ written" h]
        by (simp add: rewrite_loop.simps [of w mode _ rest] option.map_comp comp_def split_def ac_simps)
    qed
  qed
qed

lemma rewritten_simps:
  "rewritten w mode rest =
     (case find_sub SCHEME_SEP rest of
        None \<Rightarrow> Some rest
      | Some i \<Rightarrow>
          (case rewrite_tail w mode (take (i + 3) rest) (drop (i + 3) rest) of
             None \<Rightarrow> None
           | Some (written, rest', hidden) \<Rightarrow>
               map_option (\<lambda>s. take (i + 3) rest @ written @ s) (rewritten w mode rest')))"
  unfolding rewritten_def
  by (subst rewrite_loop.simps)
    (auto split: option.splits simp: option.map_comp comp_def split_def
      rewrite_loop_acc [of w mode "take i rest @ x" for i x] rewrite_loop_acc [of w mode "take n xs @ x" for n xs x])

lemma rewrite_loop_unchanged:
  "rewrite_loop w mode [] rest False = Some (out, r, False) \<Longrightarrow> out @ r = rest"
proof (induction "length rest" arbitrary: rest out r rule: less_induct)
  case less
  show ?case
  proof (cases "find_sub SCHEME_SEP rest")
    case None
    with less.prems show ?thesis by (simp add: rewrite_loop.simps [of w mode _ rest])
  next
    case (Some i)
    then obtain written r' h where t: "rewrite_tail w mode (take (i + 3) rest) (drop (i + 3) rest) = Some (written, r', h)"
      using less.prems by (auto simp: rewrite_loop.simps [of w mode _ rest] split: option.splits)
    then obtain o' where l: "rewrite_loop w mode [] r' False = Some (o', r, False)" "\<not> h"
      "out = take (i + 3) rest @ written @ o'"
      using less.prems Some rewrite_loop_acc [of w mode "take (i + 3) rest @ written" r' h]
      by (auto simp: rewrite_loop.simps [of w mode _ rest])
    have "written = [] \<and> r' = drop (i + 3) rest"
      using t l(2) by (auto simp: rewrite_tail_def split: option.splits userinfo.splits if_splits)
    moreover from this have "o' @ r = r'"
      using less.hyps [OF _ l(1)] find_sub_range [OF Some] by (simp add: SCHEME_SEP_def)
    ultimately show ?thesis using l(3) by simp
  qed
qed

lemma rewrite_userinfo_str: "map_option cow_str (rewrite_userinfo w mode input) = rewritten w mode input"
proof (cases "find_sub SCHEME_SEP input")
  case None
  then show ?thesis by (simp add: rewrite_userinfo_def cow_str_def rewritten_simps [of w mode input])
next
  case (Some i)
  show ?thesis
  proof (cases "rewrite_loop w mode [] input False")
    case None
    with Some show ?thesis by (simp add: rewrite_userinfo_def rewritten_def)
  next
    case l: (Some orh)
    obtain out r h where "orh = (out, r, h)" by (metis prod_cases3)
    with Some l rewrite_loop_unchanged [of w mode input out r] show ?thesis
      by (cases h) (simp_all add: rewrite_userinfo_def rewritten_def cow_str_def)
  qed
qed

lemma sep_split:
  assumes "find_sub SCHEME_SEP rest = Some i"
  obtains a tail where "rest = a @ SCHEME_SEP @ tail" "length a = i"
    "take (i + 3) rest = a @ SCHEME_SEP" "drop (i + 3) rest = tail"
proof -
  define a tail where "a = take i rest" and "tail = drop (i + 3) rest"
  have "length SCHEME_SEP = 3" by (simp add: SCHEME_SEP_def)
  with find_sub_split [OF assms] have split: "rest = a @ SCHEME_SEP @ tail"
    unfolding a_def tail_def by metis
  have len: "length a = i" using find_sub_range [OF assms] by (simp add: a_def)
  have "take (i + 3) rest = a @ SCHEME_SEP" unfolding split using len by (simp add: SCHEME_SEP_def)
  from that [OF split len this tail_def [symmetric]] show ?thesis .
qed

text \<open>One step of the rewriting, as a rule.\<close>

lemma rewritten_step:
  assumes "rewritten w mode rest = Some s" and "find_sub SCHEME_SEP rest = Some i"
  obtains a tail written rest' s' h where "rest = a @ SCHEME_SEP @ tail" "length a = i"
    "rewrite_tail w mode (a @ SCHEME_SEP) tail = Some (written, rest', h)"
    "rewritten w mode rest' = Some s'" "s = a @ SCHEME_SEP @ written @ s'" "length rest' < length rest"
proof -
  obtain a tail where split: "rest = a @ SCHEME_SEP @ tail" and len: "length a = i"
    and head: "take (i + 3) rest = a @ SCHEME_SEP" and tl: "drop (i + 3) rest = tail"
    by (rule sep_split [OF assms(2)])
  obtain written rest' h s' where t: "rewrite_tail w mode (a @ SCHEME_SEP) tail = Some (written, rest', h)"
    "rewritten w mode rest' = Some s'" "s = (a @ SCHEME_SEP) @ written @ s'"
    using assms(1) unfolding rewritten_simps [of w mode rest] assms(2) option.case head tl
    by (auto split: option.splits)
  have "length rest' < length rest"
    using rewrite_tail_shorter [OF t(1)] unfolding split by (simp add: SCHEME_SEP_def)
  with that [OF split len t(1,2)] t(3) show ?thesis by simp
qed

lemma takeWhile_stop: "\<not> P y \<Longrightarrow> takeWhile P (xs @ y # ys) = takeWhile P (xs @ y # zs)"
  by (induction xs) auto

lemma slash_ends: "ends_authority w SLASH" "\<not> ends_authority w AT" "\<not> ends_authority w COLON"
  by (auto simp: ends_authority_def is_whitespace_def)

lemma rewritten_authority: "rewritten w mode rest = Some s \<Longrightarrow> authority w s = authority w rest"
proof (cases "find_sub SCHEME_SEP rest")
  case None
  assume "rewritten w mode rest = Some s"
  with None show ?thesis by (simp add: rewritten_simps [of w mode rest])
next
  case (Some i)
  assume "rewritten w mode rest = Some s"
  from rewritten_step [OF this Some] obtain a tail written s' where
    s: "rest = a @ SCHEME_SEP @ tail" "s = a @ SCHEME_SEP @ written @ s'" by metis
  show ?thesis
    using takeWhile_stop [of "\<lambda>c. \<not> ends_authority w c" SLASH "a @ [COLON]" "SLASH # written @ s'" "SLASH # tail"]
      slash_ends by (simp add: s authority_def SCHEME_SEP_def)
qed

section \<open>What is kept\<close>

definition ssh_url :: "ustr \<Rightarrow> bool" where
  "ssh_url h \<longleftrightarrow> (\<exists>scheme. trailing_scheme (h @ SCHEME_SEP) = Some scheme
     \<and> ends_with (lit ''ssh'') (to_ascii_lowercase scheme))"

definition kept :: "userinfo \<Rightarrow> ustr \<Rightarrow> ustr \<Rightarrow> bool" where
  "kept mode h u = (case mode of Redact \<Rightarrow> u = REDACTED | Strip \<Rightarrow> ssh_url h \<and> COLON \<notin> set u)"

lemma last_at_unique: "u @ AT # r = v @ AT # q \<Longrightarrow> AT \<notin> set r \<Longrightarrow> AT \<notin> set q \<Longrightarrow> u = v"
  by (auto simp: append_eq_append_conv2 Cons_eq_append_conv append_eq_Cons_conv)

lemma authority_append: "\<forall>c\<in>set v. \<not> ends_authority w c \<Longrightarrow> authority w (v @ t) = v @ authority w t"
  unfolding authority_def by (rule takeWhile_append2) blast

lemma authority_chars: "c \<in> set (authority w t) \<Longrightarrow> \<not> ends_authority w c"
  unfolding authority_def by (auto dest: set_takeWhileD)

lemma redacted_chars: "c \<in> set REDACTED \<Longrightarrow> \<not> ends_authority w c"
  by (auto simp: REDACTED_def lit_def ends_authority_def is_whitespace_def)

text \<open>The text after the user information.\<close>

lemma after_userinfo:
  assumes "find_userinfo w t = Some at"
  obtains r where "authority w (drop at t) = AT # r" "authority w (drop (at + 1) t) = r" "AT \<notin> set r"
    "drop at t = AT # drop (at + 1) t" "\<forall>c\<in>set (take at t). \<not> ends_authority w c"
proof -
  obtain r where r: "drop at t = AT # drop (at + 1) t" "authority w t = take at t @ AT # r" "AT \<notin> set r"
    using find_userinfo_Some(3) [OF assms] by blast
  have c: "\<forall>c\<in>set (take at t). \<not> ends_authority w c" 
  proof
    fix c
    assume "c \<in> set (take at t)"
    then have "c \<in> set (authority w t)" unfolding r(2) by simp
    then show "\<not> ends_authority w c" by (rule authority_chars)
  qed
  have "authority w t = take at t @ authority w (drop at t)"
    using authority_append [OF c, of "drop at t"] by simp
  with r(2) have a: "authority w (drop at t) = AT # r" by simp
  then have "authority w (drop (at + 1) t) = r" unfolding r(1) by (simp add: authority_def slash_ends)
  with that a r(3,1) c show ?thesis by blast
qed

lemma written_userinfo:
  assumes "find_userinfo w t = Some at" and "authority w s = authority w (drop at t)"
    and "\<forall>c\<in>set v. \<not> ends_authority w c" and "has_userinfo w (v @ s) u"
  shows "u = v"
proof -
  obtain r where r: "authority w (drop at t) = AT # r" "AT \<notin> set r" by (rule after_userinfo [OF assms(1)])
  have "authority w (v @ s) = v @ AT # r" using authority_append [OF assms(3)] assms(2) r(1) by simp
  with assms(4) r(2) show ?thesis unfolding has_userinfo_def using last_at_unique by metis
qed

lemma rewrite_tail_kept:
  assumes t: "rewrite_tail w mode (a @ SCHEME_SEP) tail = Some (written, rest', hid)"
    and auth: "authority w s = authority w rest'" and u: "has_userinfo w (written @ s) u"
  shows "kept mode a u"
proof (cases "find_userinfo w tail")
  case None
  then have "written = []" "rest' = tail" using t by (auto simp: rewrite_tail_def)
  with auth u have "has_userinfo w tail u" by (simp add: has_userinfo_def)
  with None find_userinfo_iff show ?thesis by fastforce
next
  case (Some at)
  obtain r where r: "authority w (drop at tail) = AT # r" "authority w (drop (at + 1) tail) = r" "AT \<notin> set r"
    "drop at tail = AT # drop (at + 1) tail" "\<forall>c\<in>set (take at tail). \<not> ends_authority w c"
    by (rule after_userinfo [OF Some])
  show ?thesis
  proof (cases mode)
    case Redact
    then have "written = REDACTED" "rest' = drop at tail" using t Some by (auto simp: rewrite_tail_def)
    with written_userinfo [OF Some _ _ u] auth redacted_chars Redact show ?thesis by (auto simp: kept_def)
  next
    case Strip
    then obtain scheme where sch: "trailing_scheme (a @ SCHEME_SEP) = Some scheme"
      using t Some by (auto simp: rewrite_tail_def split: option.splits)
    show ?thesis
    proof (cases "ends_with (lit ''ssh'') (to_ascii_lowercase scheme)")
      case True
      then have ssh: "ssh_url a" using sch by (auto simp: ssh_url_def)
      show ?thesis
      proof (cases "split_once COLON (take at tail)")
        case None
        then have w: "written = []" "rest' = tail" using t Some Strip sch True by (auto simp: rewrite_tail_def)
        with auth u have "has_userinfo w tail u" by (simp add: has_userinfo_def)
        then have "u = take at tail" using has_userinfo_unique find_userinfo_Some(1) [OF Some] by blast
        with None ssh Strip show ?thesis by (simp add: kept_def split_once_None)
      next
        case sp: (Some up)
        obtain user pw where up: "up = (user, pw)" by fastforce
        then have w: "written = user" "rest' = drop at tail"
          using t Some Strip sch True sp by (auto simp: rewrite_tail_def)
        have us: "take at tail = user @ COLON # pw" "COLON \<notin> set user"
          using sp [unfolded up split_once_Some] by (rule conjunct1, rule conjunct2)
        have "\<forall>c\<in>set user. \<not> ends_authority w c" using r(5) unfolding us(1) by simp
        with written_userinfo [OF Some _ _ u] auth w have "u = user" by simp
        with us(2) ssh Strip show ?thesis by (simp add: kept_def)
      qed
    next
      case False
      then have w: "written = []" "rest' = drop (at + 1) tail"
        using t Some Strip sch by (auto simp: rewrite_tail_def)
      with auth u r(2,3) show ?thesis by (auto simp: has_userinfo_def)
    qed
  qed
qed

lemma rewrite_tail_shape:
  assumes t: "rewrite_tail w mode head tail = Some (written, rest', hid)"
  shows "SLASH \<notin> set written \<and> (written = [] \<or> (\<exists>y. rest' = AT # y))"
proof (cases "find_userinfo w tail")
  case None
  then show ?thesis using t by (auto simp: rewrite_tail_def)
next
  case (Some at)
  obtain r where r: "authority w (drop at tail) = AT # r" "authority w (drop (at + 1) tail) = r" "AT \<notin> set r"
    "drop at tail = AT # drop (at + 1) tail" "\<forall>c\<in>set (take at tail). \<not> ends_authority w c"
    by (rule after_userinfo [OF Some])
  have "SLASH \<notin> set REDACTED" using redacted_chars slash_ends by blast
  moreover have "SLASH \<notin> set user" if "split_once COLON (take at tail) = Some (user, pw)" for user pw
  proof -
    have "take at tail = user @ COLON # pw" using that [unfolded split_once_Some] by (rule conjunct1)
    with r(5) show ?thesis using slash_ends by auto
  qed
  ultimately have "SLASH \<notin> set written \<and> (written = [] \<or> rest' = drop at tail)"
    using t Some by (auto simp: rewrite_tail_def split: userinfo.splits option.splits if_splits)
  with r(4) show ?thesis by blast
qed

text \<open>Where an occurrence of \<^verbatim>\<open>://\<close> in a composed text can lie.\<close>

lemma sep_after:
  assumes eq: "a @ SCHEME_SEP @ x = h @ SCHEME_SEP @ t"
    and first: "\<forall>j<length a. \<not> starts_with SCHEME_SEP (drop j (a @ SCHEME_SEP @ tail))"
  shows "h = a \<and> t = x \<or> (\<exists>h'. h = a @ SCHEME_SEP @ h' \<and> x = h' @ SCHEME_SEP @ t)"
proof -
  from append_eq_append_conv2 [THEN iffD1, OF eq] obtain us where "a = h @ us \<and> us @ SCHEME_SEP @ x = SCHEME_SEP @ t
      \<or> h = a @ us \<and> SCHEME_SEP @ x = us @ SCHEME_SEP @ t"
    by blast
  then show ?thesis
  proof
    assume us: "a = h @ us \<and> us @ SCHEME_SEP @ x = SCHEME_SEP @ t"
    have "us = [] \<or> (\<exists>us'. us = SCHEME_SEP @ us')"
      using us by (auto simp: SCHEME_SEP_def Cons_eq_append_conv append_eq_Cons_conv)
    then show ?thesis
    proof
      assume "\<exists>us'. us = SCHEME_SEP @ us'"
      then have "starts_with SCHEME_SEP (drop (length h) (a @ SCHEME_SEP @ tail))" "length h < length a"
        using us by (auto simp: starts_with_iff SCHEME_SEP_def)
      with first show ?thesis by blast
    qed (use us in simp)
  next
    assume us: "h = a @ us \<and> SCHEME_SEP @ x = us @ SCHEME_SEP @ t"
    then show ?thesis by (auto simp: SCHEME_SEP_def Cons_eq_append_conv)
  qed
qed

lemma sep_inside:
  assumes "v @ s = h @ SCHEME_SEP @ t" and "SLASH \<notin> set v" and "v = [] \<or> (\<exists>y. s = AT # y)"
  shows "\<exists>h'. h = v @ h' \<and> s = h' @ SCHEME_SEP @ t"
  using assms by (auto simp: append_eq_append_conv2 SCHEME_SEP_def Cons_eq_append_conv append_eq_Cons_conv)

lemma rewritten_first:
  assumes "rewritten w mode (c # r) = Some s" and "c \<noteq> COLON"
  shows "\<exists>y. s = c # y"
proof (cases "find_sub SCHEME_SEP (c # r)")
  case None
  then have "rewritten w mode (c # r) = Some (c # r)" by (subst rewritten_simps) (simp only: option.case)
  with assms(1) show ?thesis by (metis option.inject)
next
  case (Some i)
  from rewritten_step [OF assms(1) Some] obtain a tail written s' where
    "c # r = a @ SCHEME_SEP @ tail" "s = a @ SCHEME_SEP @ written @ s'" by metis
  with assms(2) show ?thesis by (cases a) (auto simp: SCHEME_SEP_def)
qed

lemma trailing_scheme_sep:
  "trailing_scheme (h @ SCHEME_SEP) =
     (case rfind (\<lambda>c. \<not> scheme_char c) h of
        None \<Rightarrow> Some h | Some i \<Rightarrow> if len_utf8 (h ! i) = 1 then Some (drop (i + 1) h) else None)"
  by (simp add: trailing_scheme_def strip_suffix_def)

lemma trailing_scheme_drop:
  assumes "last x = SLASH \<and> x \<noteq> [] \<or> (\<exists>y. h = AT # y)"
  shows "trailing_scheme ((x @ h) @ SCHEME_SEP) = trailing_scheme (h @ SCHEME_SEP)"
proof (cases "rfind (\<lambda>c. \<not> scheme_char c) h")
  case None
  then have n: "\<forall>c\<in>set h. scheme_char c" by (simp add: rfind_None)
  have "\<not> scheme_char AT" "\<not> scheme_char SLASH" by (simp_all add: scheme_char_def uchar_simps)
  with n assms have "x = butlast x @ [SLASH]" by (metis append_butlast_last_id list.set_intros(1))
  then obtain y where y: "x = y @ [SLASH]" by blast
  have "rfind (\<lambda>c. \<not> scheme_char c) (y @ SLASH # h) = Some (length y)"
    using n \<open>\<not> scheme_char SLASH\<close> by (intro rfind_last) auto
  then show ?thesis unfolding trailing_scheme_sep y using None by (simp add: len_utf8_def)
next
  case (Some i)
  note i = rfind_Some [OF Some]
  then have "h = take i h @ h ! i # drop (Suc i) h" by (simp add: id_take_nth_drop [symmetric])
  then have "rfind (\<lambda>c. \<not> scheme_char c) ((x @ take i h) @ h ! i # drop (Suc i) h) = Some (length (x @ take i h))"
    using i by (intro rfind_last) auto
  then have "rfind (\<lambda>c. \<not> scheme_char c) (x @ h) = Some (length x + i)"
    using i \<open>h = take i h @ h ! i # drop (Suc i) h\<close> by (metis append.assoc length_append length_take min.absorb4)
  then show ?thesis unfolding trailing_scheme_sep using Some by (simp add: nth_append)
qed

text \<open>No URL of the rewritten text has user information that the mode does not keep.\<close>

lemma rewritten_kept:
  assumes "rewritten w mode rest = Some s" and "s = h @ SCHEME_SEP @ t" and "has_userinfo w t u"
  shows "kept mode h u"
  using assms
proof (induction "length rest" arbitrary: rest s h rule: less_induct)
  case less
  show ?case
  proof (cases "find_sub SCHEME_SEP rest")
    case None
    then have "starts_with SCHEME_SEP (drop (length h) rest)"
      using less.prems(1,2) by (auto simp: rewritten_simps [of w mode rest] starts_with_iff)
    with find_sub_None [OF None] show ?thesis by blast
  next
    case (Some i)
    from rewritten_step [OF less.prems(1) Some] obtain a tail written rest' s' hid where
      st: "rest = a @ SCHEME_SEP @ tail" "length a = i"
      "rewrite_tail w mode (a @ SCHEME_SEP) tail = Some (written, rest', hid)"
      "rewritten w mode rest' = Some s'" "s = a @ SCHEME_SEP @ written @ s'" "length rest' < length rest" .
    have first: "\<forall>j<length a. \<not> starts_with SCHEME_SEP (drop j (a @ SCHEME_SEP @ tail))"
      using find_sub_Some [OF Some] st(1,2) by blast
    note shape = rewrite_tail_shape [OF st(3)]
    have first': "written = [] \<or> (\<exists>y. s' = AT # y)"
      using shape rewritten_first [of w mode AT _ s'] st(4) by auto
    have "a @ SCHEME_SEP @ written @ s' = h @ SCHEME_SEP @ t" using st(5) less.prems(2) by simp
    from sep_after [OF this first] show ?thesis
    proof
      assume "h = a \<and> t = written @ s'"
      with rewrite_tail_kept [OF st(3) rewritten_authority [OF st(4)]] less.prems(3) show ?thesis by simp
    next
      assume "\<exists>h'. h = a @ SCHEME_SEP @ h' \<and> written @ s' = h' @ SCHEME_SEP @ t"
      then obtain h' where h': "h = a @ SCHEME_SEP @ h'" "written @ s' = h' @ SCHEME_SEP @ t" by blast
      from sep_inside [OF h'(2) _ first'] shape obtain h'' where h'': "h' = written @ h''" "s' = h'' @ SCHEME_SEP @ t"
        by blast
      have k: "kept mode h'' u" using less.hyps [OF st(6) st(4) h''(2) less.prems(3)] .
      have "last (a @ SCHEME_SEP @ written) = SLASH \<or> (\<exists>y. h'' = AT # y)"
        using first' h''(2) by (cases h'') (auto simp: SCHEME_SEP_def)
      then have "trailing_scheme (((a @ SCHEME_SEP @ written) @ h'') @ SCHEME_SEP) = trailing_scheme (h'' @ SCHEME_SEP)"
        by (intro trailing_scheme_drop) (auto simp: SCHEME_SEP_def)
      then have "ssh_url h = ssh_url h''" unfolding ssh_url_def h'(1) h''(1) by simp
      with k show ?thesis by (cases mode) (simp_all add: kept_def)
    qed
  qed
qed

section \<open>Rewriting twice\<close>

lemma rewritten_stable:
  assumes "\<And>h t u. s = h @ SCHEME_SEP @ t \<Longrightarrow> has_userinfo w t u \<Longrightarrow> u = REDACTED"
  shows "rewritten w Redact s = Some s"
  using assms
proof (induction "length s" arbitrary: s rule: less_induct)
  case less
  show ?case
  proof (cases "find_sub SCHEME_SEP s")
    case None
    then show ?thesis by (subst rewritten_simps) (simp only: option.case)
  next
    case (Some i)
    obtain a tail where split: "s = a @ SCHEME_SEP @ tail" and "length a = i"
      and head: "take (i + 3) s = a @ SCHEME_SEP" and tl: "drop (i + 3) s = tail"
      by (rule sep_split [OF Some])
    have suffix: "rewritten w Redact r = Some r" if r: "tail = v @ r" for v r
    proof (rule less.hyps)
      show "length r < length s" unfolding split r by (simp add: SCHEME_SEP_def)
      fix h t u
      assume "r = h @ SCHEME_SEP @ t" "has_userinfo w t u"
      then show "u = REDACTED" using less.prems [of "a @ SCHEME_SEP @ v @ h" t u] split r by simp
    qed
    show ?thesis
    proof (cases "find_userinfo w tail")
      case None
      then have "rewrite_tail w Redact (a @ SCHEME_SEP) tail = Some ([], tail, False)"
        by (simp add: rewrite_tail_def)
      then have "rewritten w Redact s = map_option (\<lambda>s. (a @ SCHEME_SEP) @ [] @ s) (rewritten w Redact tail)"
        by (subst rewritten_simps) (simp only: Some option.case head tl prod.case)
      with suffix [of "[]" tail] split show ?thesis by simp
    next
      case u: (Some at)
      have "take at tail = REDACTED" using less.prems [OF split find_userinfo_Some(1) [OF u]] .
      then have "tail = REDACTED @ drop at tail" by (metis append_take_drop_id)
      moreover have "rewrite_tail w Redact (a @ SCHEME_SEP) tail = Some (REDACTED, drop at tail, True)"
        using u by (simp add: rewrite_tail_def)
      then have "rewritten w Redact s =
          map_option (\<lambda>s. (a @ SCHEME_SEP) @ REDACTED @ s) (rewritten w Redact (drop at tail))"
        by (subst rewritten_simps) (simp only: Some option.case head tl prod.case)
      moreover have "rewritten w Redact (drop at tail) = Some (drop at tail)"
        using suffix [of REDACTED "drop at tail"] calculation(1) by blast
      ultimately show ?thesis using split by (metis append.assoc option.map(2))
    qed
  qed
qed

lemma rewritten_redact_total: "\<exists>s. rewritten w Redact rest = Some s"
proof (induction "length rest" arbitrary: rest rule: less_induct)
  case less
  show ?case
  proof (cases "find_sub SCHEME_SEP rest")
    case None
    then show ?thesis by (subst rewritten_simps) simp
  next
    case (Some i)
    obtain written rest' hid where
      t: "rewrite_tail w Redact (take (i + 3) rest) (drop (i + 3) rest) = Some (written, rest', hid)"
      by (cases "find_userinfo w (drop (i + 3) rest)") (auto simp: rewrite_tail_def)
    have "length rest' < length rest"
      using rewrite_tail_shorter [OF t] find_sub_range [OF Some] by (simp add: SCHEME_SEP_def)
    from less.hyps [OF this] Some t show ?thesis by (subst rewritten_simps) auto
  qed
qed

lemma trailing_scheme_ascii: "\<forall>c\<in>set h. c < 128 \<Longrightarrow> trailing_scheme (h @ SCHEME_SEP) \<noteq> None"
  unfolding trailing_scheme_sep using rfind_Some [of "\<lambda>c. \<not> scheme_char c" h]
  by (auto split: option.splits simp: len_utf8_def)

lemma rewritten_ascii_total: "\<forall>c\<in>set rest. c < 128 \<Longrightarrow> \<exists>s. rewritten w mode rest = Some s"
proof (induction "length rest" arbitrary: rest rule: less_induct)
  case less
  show ?case
  proof (cases "find_sub SCHEME_SEP rest")
    case None
    then show ?thesis by (subst rewritten_simps) simp
  next
    case (Some i)
    obtain a tail where split: "rest = a @ SCHEME_SEP @ tail" and "length a = i"
      and head: "take (i + 3) rest = a @ SCHEME_SEP" and tl: "drop (i + 3) rest = tail"
      by (rule sep_split [OF Some])
    have "trailing_scheme (take (i + 3) rest) \<noteq> None"
      unfolding head using less.prems unfolding split by (intro trailing_scheme_ascii) auto
    then obtain written rest' hid where
      t: "rewrite_tail w mode (take (i + 3) rest) (drop (i + 3) rest) = Some (written, rest', hid)"
      by (cases "rewrite_tail w mode (take (i + 3) rest) (drop (i + 3) rest)")
        (auto simp: rewrite_tail_def split: option.splits userinfo.splits if_splits)
    have "set rest' \<subseteq> set rest"
      using t by (auto simp: rewrite_tail_def split: option.splits userinfo.splits if_splits dest: in_set_dropD)
    moreover have "length rest' < length rest"
      using rewrite_tail_shorter [OF t] find_sub_range [OF Some] by (simp add: SCHEME_SEP_def)
    ultimately obtain s where "rewritten w mode rest' = Some s" using less by blast
    with Some t show ?thesis by (subst rewritten_simps) auto
  qed
qed

text \<open>
  Outside ASCII the stripping panics: a quotation mark directly before a URL with credentials
  takes three bytes, and the slice after its first byte is not at a character.
\<close>

lemma strip_panics_on_quote: "strip_url_credentials (8220 # lit ''https://u:p@h'') = None"
  by (simp add: strip_url_credentials_def rewrite_userinfo_def rewrite_loop.simps SCHEME_SEP_def lit_def
      starts_with_def rewrite_tail_def find_userinfo_def rfind_def ends_authority_def trailing_scheme_def
      strip_suffix_def scheme_char_def uchar_simps Let_def)

text \<open>
  Stripping the credentials of the URLs in a text, where it returns, leaves user
  information only in URLs whose scheme ends in \<^verbatim>\<open>ssh\<close>, and no password there; on ASCII text it
  always returns, but a typographic quotation mark directly before a URL with credentials
  makes it panic.
\<close>

lemma strip_credentials_safe:
  "(\<forall>c. rewrite_userinfo w Strip input = Some c \<longrightarrow>
      (\<forall>h t u. cow_str c = h @ SCHEME_SEP @ t \<and> has_userinfo w t u \<longrightarrow> ssh_url h \<and> COLON \<notin> set u))
   \<and> ((\<forall>c\<in>set input. c < 128) \<longrightarrow> (\<exists>c. rewrite_userinfo w Strip input = Some c))
   \<and> strip_url_credentials (8220 # lit ''https://u:p@h'') = None"
proof (intro conjI allI impI; (elim conjE)?)
  fix c h t u
  assume c: "rewrite_userinfo w Strip input = Some c" and h: "cow_str c = h @ SCHEME_SEP @ t"
    and u: "has_userinfo w t u"
  have "rewritten w Strip input = Some (cow_str c)" using rewrite_userinfo_str [of w Strip input] c by simp
  from rewritten_kept [OF this h u] show "ssh_url h" "COLON \<notin> set u" by (simp_all add: kept_def)
next
  assume "\<forall>c\<in>set input. c < 128"
  then show "\<exists>c. rewrite_userinfo w Strip input = Some c"
    using rewritten_ascii_total [of input w Strip] rewrite_userinfo_str [of w Strip input] by auto
qed (rule strip_panics_on_quote)


text \<open>
  \<^bold>\<open>C31.\<close> Redacting the URLs of a text, as free text or as one argument, never panics.  In the
  result the user information of every URL is the mark or empty, whatever the text was, and
  redacting the result again changes nothing.  Stripping credentials instead, where it returns,
  leaves user information only in URLs whose scheme ends in \<^verbatim>\<open>ssh\<close>, and no password there; on
  ASCII text it always returns, but a typographic quotation mark directly before a URL with
  credentials makes it panic.
\<close>

theorem redact_userinfo_safe:
  "(\<exists>c c'. redact_userinfo w input = Some c
    \<and> (\<forall>h t u. cow_str c = h @ SCHEME_SEP @ t \<and> has_userinfo w t u \<longrightarrow> u = REDACTED)
    \<and> redact_userinfo w (cow_str c) = Some c' \<and> cow_str c' = cow_str c)
   \<and> (\<forall>c. rewrite_userinfo w Strip input = Some c \<longrightarrow>
        (\<forall>h t u. cow_str c = h @ SCHEME_SEP @ t \<and> has_userinfo w t u \<longrightarrow> ssh_url h \<and> COLON \<notin> set u))
   \<and> ((\<forall>c\<in>set input. c < 128) \<longrightarrow> (\<exists>c. rewrite_userinfo w Strip input = Some c))
   \<and> strip_url_credentials (8220 # lit ''https://u:p@h'') = None"
proof (rule conjI)
  obtain s where s: "rewritten w Redact input = Some s" using rewritten_redact_total by blast
  have safe: "u = REDACTED" if "s = h @ SCHEME_SEP @ t" "has_userinfo w t u" for h t u
    using rewritten_kept [OF s that] by (simp add: kept_def)
  have "rewritten w Redact s = Some s" by (rule rewritten_stable) (rule safe)
  with s safe rewrite_userinfo_str [of w Redact input] rewrite_userinfo_str [of w Redact s]
  show "\<exists>c c'. redact_userinfo w input = Some c
    \<and> (\<forall>h t u. cow_str c = h @ SCHEME_SEP @ t \<and> has_userinfo w t u \<longrightarrow> u = REDACTED)
    \<and> redact_userinfo w (cow_str c) = Some c' \<and> cow_str c' = cow_str c"
    by (auto simp: redact_userinfo_def)
qed (rule strip_credentials_safe)

theorem redact_userinfo_safe_witness:
  "(\<exists>c c'. redact_userinfo False (lit ''ssh://git:p@h/x'') = Some c
      \<and> (\<forall>h t u. cow_str c = h @ SCHEME_SEP @ t \<and> has_userinfo False t u \<longrightarrow> u = REDACTED)
      \<and> redact_userinfo False (cow_str c) = Some c' \<and> cow_str c' = cow_str c)
   \<and> (\<exists>c. rewrite_userinfo False Strip (lit ''ssh://git:p@h/x'') = Some c
      \<and> (\<forall>h t u. cow_str c = h @ SCHEME_SEP @ t \<and> has_userinfo False t u \<longrightarrow> ssh_url h \<and> COLON \<notin> set u))"
proof -
  have "\<forall>c\<in>set (lit ''ssh://git:p@h/x''). c < 128" by (simp add: lit_def)
  with redact_userinfo_safe [of False "lit ''ssh://git:p@h/x''"] show ?thesis by blast
qed

end
