(* ===== verification/Blob_Pack.thy ===== *)
theory Blob_Pack
  imports Mise_Prelude "HOL-Library.Word"
begin

text \<open>
  Blob packs of the remote cache, \<^verbatim>\<open>crates/mise-cache-core/src\<close>: which digests one request asks
  for (\<^verbatim>\<open>blob_pack.rs\<close>), the decoding of the response and its metadata (\<^verbatim>\<open>protocol.rs\<close>).  Sizes are
  \<^verbatim>\<open>u64\<close> and kept at that width.  Hashing and hexadecimal encoding are parameters; a response is
  its bytes and the transport error that ends it, if any.
\<close>

type_synonym u64 = "64 word"
type_synonym byte = "8 word"

section \<open>Machine arithmetic\<close>

definition saturating_add :: "u64 \<Rightarrow> u64 \<Rightarrow> u64" where
  "saturating_add a b = (if unat a + unat b < 2 ^ 64 then a + b else - 1)"

definition checked_add :: "u64 \<Rightarrow> u64 \<Rightarrow> u64 option" where
  "checked_add a b = (if unat a + unat b < 2 ^ 64 then Some (a + b) else None)"

fun be_value :: "nat \<Rightarrow> byte list \<Rightarrow> nat" where
  "be_value n [] = n"
| "be_value n (b # bs) = be_value (n * 256 + unat b) bs"

definition from_be_bytes :: "byte list \<Rightarrow> u64" where
  "from_be_bytes bs = word_of_nat (be_value 0 bs)"

section \<open>Digests\<close>

record cache_digest =
  cd_algorithm :: ustr
  cd_hash :: ustr
  cd_size :: u64

datatype digest_error = UnsupportedAlgorithm | InvalidDigest

text \<open>
  The errors of the crate.  \<^term>\<open>Transport\<close> is an error of the HTTP library, or one whose chain
  holds such an error; \<^term>\<open>Other\<close> is one of another library or of the system.
\<close>

datatype 'e cache_error =
    InvalidMagic
  | InvalidAlgorithm
  | UnrequestedDigest
  | DuplicateDigest
  | PackTooLarge
  | PayloadTooLarge
  | BlobIncomplete
  | DigestMismatch
  | LargerThanDigest
  | ContentLengthMismatch u64 u64
  | BlobCountMismatch u64 u64
  | PayloadBytesMismatch u64 u64
  | UnexpectedEof
  | InvalidHeader ustr
  | InvalidContentType
  | HttpStatus nat
  | TimedOut
  | BadDigest digest_error
  | NotBlake3
  | ActionMismatch
  | CapabilitiesTooLarge
  | IncompatibleProtocol byte
  | NoItemLimit
  | NoByteLimit
  | NotHttps
  | InvalidToken
  | EmptyToken
  | OidcUnavailable
  | OidcFailed
  | MalformedJwt
  | NoExpiry
  | ExpiresTooSoon
  | Transport 'e
  | Other 'e

definition digest_validate :: "cache_digest \<Rightarrow> digest_error + unit" where
  "digest_validate d =
     (if cd_algorithm d \<noteq> lit ''blake3'' \<and> cd_algorithm d \<noteq> lit ''sha256'' then Inl UnsupportedAlgorithm
      else if byte_len (cd_hash d) \<noteq> 64
           \<or> \<not> (\<forall>c\<in>set (cd_hash d). is_ascii_digit c \<or> (97 \<le> c \<and> c \<le> 102))
      then Inl InvalidDigest
      else Inr ())"

definition matches_bytes :: "(ustr \<Rightarrow> byte list \<Rightarrow> ustr) \<Rightarrow> cache_digest \<Rightarrow> byte list \<Rightarrow> digest_error + bool" where
  "matches_bytes hash d bytes =
     (case digest_validate d of
        Inl e \<Rightarrow> Inl e
      | Inr _ \<Rightarrow>
          if cd_size d \<noteq> word_of_nat (length bytes) then Inr False
          else Inr (cd_hash d = hash (cd_algorithm d) bytes))"

section \<open>What one request asks for\<close>

record blob_pack_limits =
  max_items :: nat
  max_bytes :: u64

fun chunk_loop ::
    "blob_pack_limits \<Rightarrow> cache_digest set \<Rightarrow> cache_digest list \<Rightarrow> u64 \<Rightarrow> cache_digest list
     \<Rightarrow> digest_error + cache_digest list" where
  "chunk_loop limits seen chunk chunk_bytes [] = Inr chunk"
| "chunk_loop limits seen chunk chunk_bytes (d # ds) =
     (case digest_validate d of
        Inl e \<Rightarrow> Inl e
      | Inr _ \<Rightarrow>
          if d \<in> seen \<or> cd_size d > max_bytes limits
          then chunk_loop limits (insert d seen) chunk chunk_bytes ds
          else if length chunk = max_items limits
                  \<or> saturating_add chunk_bytes (cd_size d) > max_bytes limits
          then Inr chunk
          else chunk_loop limits (insert d seen) (chunk @ [d]) (saturating_add chunk_bytes (cd_size d)) ds)"

definition blob_pack_chunk :: "cache_digest list \<Rightarrow> blob_pack_limits \<Rightarrow> digest_error + cache_digest list" where
  "blob_pack_chunk digests limits = chunk_loop limits {} [] 0 digests"

text \<open>\<^verbatim>\<open>Duration\<close> in nanoseconds; its multiplication saturates.\<close>

definition DURATION_MAX :: nat where
  "DURATION_MAX = (2 ^ 64 - 1) * 1000000000 + 999999999"

definition MAX_STAGED_BLOB_PACK_BYTES :: nat where "MAX_STAGED_BLOB_PACK_BYTES = 256 * 1024 * 1024"
definition MAX_STAGED_BLOB_PACK_ITEMS :: nat where "MAX_STAGED_BLOB_PACK_ITEMS = 2 * 1024"

definition div_ceil :: "nat \<Rightarrow> nat \<Rightarrow> nat" where
  "div_ceil a b = (a + b - 1) div b"

definition blob_pack_download_timeout :: "nat \<Rightarrow> cache_digest list \<Rightarrow> nat" where
  "blob_pack_download_timeout base digests =
     (let bytes = foldl (\<lambda>total d. saturating_add total (cd_size d)) 0 digests;
          byte_units = div_ceil (unat bytes) (MAX_STAGED_BLOB_PACK_BYTES div 4);
          item_units = div_ceil (length digests) (MAX_STAGED_BLOB_PACK_ITEMS div 4);
          multiplier = max (max byte_units item_units) 1
      in min (base * min multiplier (2 ^ 32 - 1)) DURATION_MAX)"

text \<open>The limits from the capabilities the server announces.\<close>

record capabilities =
  cap_major :: byte
  cap_blob_packs :: bool
  cap_max_batch_items :: u64
  cap_max_pack_bytes :: u64

definition PROTOCOL_VERSION :: byte where "PROTOCOL_VERSION = 1"

definition pack_limits :: "capabilities \<Rightarrow> 'e cache_error + blob_pack_limits option" where
  "pack_limits c =
     (if cap_major c \<noteq> PROTOCOL_VERSION then Inl (IncompatibleProtocol (cap_major c))
      else if \<not> cap_blob_packs c then Inr None
      else if cap_max_batch_items c = 0 then Inl NoItemLimit
      else if cap_max_pack_bytes c = 0 then Inl NoByteLimit
      else Inr (Some \<lparr> max_items = min (unat (cap_max_batch_items c)) MAX_STAGED_BLOB_PACK_ITEMS,
                       max_bytes = min (cap_max_pack_bytes c) (word_of_nat MAX_STAGED_BLOB_PACK_BYTES) \<rparr>))"

section \<open>Decoding a response\<close>

record pack_stats =
  st_blob_count :: u64
  st_payload_bytes :: u64
  st_framed_bytes :: u64

record pack_metadata =
  md_content_length :: "u64 option"
  md_blob_count :: "u64 option"
  md_payload_bytes :: "u64 option"

definition metadata_validate :: "pack_metadata \<Rightarrow> pack_stats \<Rightarrow> 'e cache_error + pack_stats" where
  "metadata_validate md decoded =
     (if md_content_length md \<noteq> None \<and> the (md_content_length md) \<noteq> st_framed_bytes decoded
      then Inl (ContentLengthMismatch (the (md_content_length md)) (st_framed_bytes decoded))
      else if md_blob_count md \<noteq> None \<and> the (md_blob_count md) \<noteq> st_blob_count decoded
      then Inl (BlobCountMismatch (the (md_blob_count md)) (st_blob_count decoded))
      else if md_payload_bytes md \<noteq> None \<and> the (md_payload_bytes md) \<noteq> st_payload_bytes decoded
      then Inl (PayloadBytesMismatch (the (md_payload_bytes md)) (st_payload_bytes decoded))
      else Inr \<lparr> st_blob_count = (case md_blob_count md of Some n \<Rightarrow> n | None \<Rightarrow> st_blob_count decoded),
                 st_payload_bytes = (case md_payload_bytes md of Some n \<Rightarrow> n | None \<Rightarrow> st_payload_bytes decoded),
                 st_framed_bytes = (case md_content_length md of Some n \<Rightarrow> n | None \<Rightarrow> st_framed_bytes decoded) \<rparr>)"

text \<open>\<^verbatim>\<open>read_exact\<close>: a stream that ends early is an error.\<close>

definition read_exact :: "'e option \<Rightarrow> nat \<Rightarrow> byte list \<Rightarrow> 'e cache_error + byte list \<times> byte list" where
  "read_exact err n bytes =
     (if n \<le> length bytes then Inr (take n bytes, drop n bytes)
      else Inl (case err of Some e \<Rightarrow> Transport e | None \<Rightarrow> UnexpectedEof))"

text \<open>The loop that copies one blob to its file.\<close>

definition read_blob :: "'e option \<Rightarrow> u64 \<Rightarrow> byte list \<Rightarrow> 'e cache_error + byte list \<times> byte list" where
  "read_blob err n bytes =
     (if unat n \<le> length bytes then Inr (take (unat n) bytes, drop (unat n) bytes)
      else Inl (case err of Some e \<Rightarrow> Transport e | None \<Rightarrow> BlobIncomplete))"

definition pack_algorithm :: "byte \<Rightarrow> ustr option" where
  "pack_algorithm b = (if b = 1 then Some (lit ''blake3'') else if b = 2 then Some (lit ''sha256'') else None)"

definition BLOB_PACK_HEADER_BYTES :: u64 where "BLOB_PACK_HEADER_BYTES = 1 + 32 + 8"

definition BLOB_PACK_MAGIC :: "byte list" where
  "BLOB_PACK_MAGIC = map of_char ''MISEPK01''"

text \<open>The checks on one header, in the order of the code: the sums of the sizes with this blob.\<close>

definition account_blob ::
    "cache_digest set \<Rightarrow> cache_digest set \<Rightarrow> cache_digest \<Rightarrow> u64 \<Rightarrow> u64 \<Rightarrow> 'e cache_error + u64 \<times> u64" where
  "account_blob requested seen d payload framed =
     (if d \<notin> requested then Inl UnrequestedDigest
      else if d \<in> seen then Inl DuplicateDigest
      else case Option.bind (checked_add framed BLOB_PACK_HEADER_BYTES) (\<lambda>n. checked_add n (cd_size d)) of
             None \<Rightarrow> Inl PackTooLarge
           | Some framed \<Rightarrow>
               (case checked_add payload (cd_size d) of
                  None \<Rightarrow> Inl PayloadTooLarge
                | Some payload \<Rightarrow> Inr (payload, framed)))"

text \<open>One header: the digest it announces, and the rest of the stream.\<close>

definition read_header ::
    "(byte list \<Rightarrow> ustr) \<Rightarrow> 'e option \<Rightarrow> byte \<Rightarrow> byte list \<Rightarrow> 'e cache_error + cache_digest \<times> byte list" where
  "read_header hex err b bytes =
     (case pack_algorithm b of
        None \<Rightarrow> Inl InvalidAlgorithm
      | Some algorithm \<Rightarrow>
          (case read_exact err 32 bytes of
             Inl e \<Rightarrow> Inl e
           | Inr (hash, bytes) \<Rightarrow>
               (case read_exact err 8 bytes of
                  Inl e \<Rightarrow> Inl e
                | Inr (sz, bytes) \<Rightarrow>
                    Inr (\<lparr> cd_algorithm = algorithm, cd_hash = hex hash, cd_size = from_be_bytes sz \<rparr>, bytes))))"

lemma read_header_shorter: "read_header hex err b bytes = Inr (d, rest) \<Longrightarrow> length rest \<le> length bytes"
  by (auto simp: read_header_def read_exact_def split: option.splits sum.splits if_splits)

lemma read_blob_shorter: "read_blob err n bytes = Inr (content, rest) \<Longrightarrow> length rest \<le> length bytes"
  by (auto simp: read_blob_def split: if_splits)

function (sequential) decode_loop ::
    "(byte list \<Rightarrow> ustr) \<Rightarrow> (ustr \<Rightarrow> byte list \<Rightarrow> ustr) \<Rightarrow> cache_digest set \<Rightarrow> 'e option \<Rightarrow> byte list
     \<Rightarrow> cache_digest set \<Rightarrow> (cache_digest \<times> byte list) list \<Rightarrow> u64 \<Rightarrow> u64
     \<Rightarrow> 'e cache_error + (cache_digest \<times> byte list) list \<times> u64 \<times> u64" where
  "decode_loop hex hash requested err [] seen blobs payload framed =
     (case err of Some e \<Rightarrow> Inl (Transport e) | None \<Rightarrow> Inr (blobs, payload, framed))"
| "decode_loop hex hash requested err (b # bytes) seen blobs payload framed =
     (case read_header hex err b bytes of
        Inl e \<Rightarrow> Inl e
      | Inr (d, bytes') \<Rightarrow>
          (case account_blob requested seen d payload framed of
             Inl e \<Rightarrow> Inl e
           | Inr (payload', framed') \<Rightarrow>
               (case read_blob err (cd_size d) bytes' of
                  Inl e \<Rightarrow> Inl e
                | Inr (content, bytes'') \<Rightarrow>
                    if hash (cd_algorithm d) content \<noteq> cd_hash d then Inl DigestMismatch
                    else decode_loop hex hash requested err bytes'' (insert d seen)
                           (blobs @ [(d, content)]) payload' framed')))"
  by pat_completeness auto
termination
proof (relation "measure (\<lambda>(hex, hash, requested, err, bytes, seen, blobs, payload, framed). length bytes)", goal_cases)
  case 1
  then show ?case by simp
next
  case (2 hex hash requested err b bytes seen blobs payload framed s d bytes' t payload' framed' r content bytes'')
  then show ?case
    using read_header_shorter [of hex err b bytes] read_blob_shorter [of err] by fastforce
qed

definition decode_blob_pack ::
    "(byte list \<Rightarrow> ustr) \<Rightarrow> (ustr \<Rightarrow> byte list \<Rightarrow> ustr) \<Rightarrow> pack_metadata \<Rightarrow> byte list \<Rightarrow> 'e option
     \<Rightarrow> cache_digest list \<Rightarrow> 'e cache_error + (cache_digest \<times> byte list) list \<times> pack_stats" where
  "decode_blob_pack hex hash metadata bytes err requested =
     (case read_exact err 8 bytes of
        Inl e \<Rightarrow> Inl e
      | Inr (magic, bytes) \<Rightarrow>
          if magic \<noteq> BLOB_PACK_MAGIC then Inl InvalidMagic
          else (case decode_loop hex hash (set requested) err bytes {} [] 0 8 of
                  Inl e \<Rightarrow> Inl e
                | Inr (blobs, payload, framed) \<Rightarrow>
                    (case metadata_validate metadata
                            \<lparr> st_blob_count = (if length blobs < 2 ^ 64 then word_of_nat (length blobs) else - 1),
                              st_payload_bytes = payload, st_framed_bytes = framed \<rparr> of
                       Inl e \<Rightarrow> Inl e
                     | Inr stats \<Rightarrow> Inr (blobs, stats))))"

end
