(* ===== verification/Result_State.thy ===== *)
theory Result_State
  imports Mise_Prelude
begin

text \<open>
  Fallible operations on a state: the result or the error together with the state afterwards,
  since an operation that fails keeps the changes it made.  Sequencing is the \<^verbatim>\<open>?\<close> operator of
  Rust.  On top of it the retry loop of the HTTP operations and two small program logics, one
  for invariants of the state and one for the number of steps an operation logs.
\<close>

type_synonym ('s, 'e, 'a) rs = "'s \<Rightarrow> ('e + 'a) \<times> 's"

definition rs_return :: "'a \<Rightarrow> ('s, 'e, 'a) rs" where
  "rs_return v s = (Inr v, s)"

definition rs_fail :: "'e \<Rightarrow> ('s, 'e, 'a) rs" where
  "rs_fail e s = (Inl e, s)"

definition rs_lift :: "'e + 'a \<Rightarrow> ('s, 'e, 'a) rs" where
  "rs_lift r s = (r, s)"

definition rs_bind :: "('s, 'e, 'a) rs \<Rightarrow> ('a \<Rightarrow> ('s, 'e, 'b) rs) \<Rightarrow> ('s, 'e, 'b) rs" where
  "rs_bind m f s = (case m s of (Inl e, s') \<Rightarrow> (Inl e, s') | (Inr v, s') \<Rightarrow> f v s')"

definition rs_map_err :: "('e \<Rightarrow> 'f) \<Rightarrow> ('s, 'e, 'a) rs \<Rightarrow> ('s, 'f, 'a) rs" where
  "rs_map_err g m s = (case m s of (Inl e, s') \<Rightarrow> (Inl (g e), s') | (Inr v, s') \<Rightarrow> (Inr v, s'))"

definition map_err :: "('e \<Rightarrow> 'f) \<Rightarrow> 'e + 'a \<Rightarrow> 'f + 'a" where
  "map_err g r = (case r of Inl e \<Rightarrow> Inl (g e) | Inr v \<Rightarrow> Inr v)"

lemma map_err_Inr [simp]: "map_err g r = Inr v \<longleftrightarrow> r = Inr v"
  by (simp add: map_err_def split: sum.splits)

lemma rs_bind_cases:
  assumes "rs_bind m f s = (r, t)"
  obtains (fails) e where "m s = (Inl e, t)" "r = Inl e"
    | (runs) v u where "m s = (Inr v, u)" "f v u = (r, t)"
  using assms by (auto simp: rs_bind_def split: prod.splits sum.splits)

section \<open>Retries\<close>

text \<open>
  The loop of \<^verbatim>\<open>retry_async\<close> under a deadline: an attempt that ends too late ends the loop, and
  a transient error is tried again while delays are left.
\<close>

fun retry_loop ::
    "('s \<Rightarrow> bool) \<Rightarrow> 'e \<Rightarrow> ('e \<Rightarrow> bool) \<Rightarrow> ('s, 'e, 'a) rs \<Rightarrow> nat \<Rightarrow> ('s, 'e, 'a) rs" where
  "retry_loop late timeout transient attempt delays s =
     (case attempt s of (r, s') \<Rightarrow>
        if late s' then (Inl timeout, s')
        else (case r of
                Inr v \<Rightarrow> (Inr v, s')
              | Inl e \<Rightarrow>
                  if transient e
                  then (case delays of
                          0 \<Rightarrow> (Inl e, s')
                        | Suc n \<Rightarrow> retry_loop late timeout transient attempt n s')
                  else (Inl e, s')))"

declare retry_loop.simps [simp del]

section \<open>Invariants\<close>

text \<open>An operation keeps an invariant of the state, and its result satisfies a condition.\<close>

definition rs_keeps :: "('s \<Rightarrow> bool) \<Rightarrow> ('s, 'e, 'a) rs \<Rightarrow> ('a \<Rightarrow> bool) \<Rightarrow> bool" where
  "rs_keeps I m Q \<longleftrightarrow> (\<forall>s r t. I s \<longrightarrow> m s = (r, t) \<longrightarrow> I t \<and> (\<forall>v. r = Inr v \<longrightarrow> Q v))"

named_theorems rs_rules "rules for invariants of fallible operations"

lemma rs_keeps_return [rs_rules]: "Q v \<Longrightarrow> rs_keeps I (rs_return v) Q"
  by (simp add: rs_keeps_def rs_return_def)

lemma rs_keeps_fail [rs_rules]: "rs_keeps I (rs_fail e) Q"
  by (simp add: rs_keeps_def rs_fail_def)

lemma rs_keeps_lift: "(\<And>v. r = Inr v \<Longrightarrow> Q v) \<Longrightarrow> rs_keeps I (rs_lift r) Q"
  by (simp add: rs_keeps_def rs_lift_def)

lemma rs_keeps_bind:
  "rs_keeps I m P \<Longrightarrow> (\<And>v. P v \<Longrightarrow> rs_keeps I (f v) Q) \<Longrightarrow> rs_keeps I (rs_bind m f) Q"
  unfolding rs_keeps_def by (blast elim!: rs_bind_cases)

lemma rs_keeps_map_err [rs_rules]: "rs_keeps I m Q \<Longrightarrow> rs_keeps I (rs_map_err g m) Q"
  by (auto simp: rs_keeps_def rs_map_err_def split: prod.splits sum.splits)

lemma rs_keeps_weaken: "rs_keeps I m P \<Longrightarrow> (\<And>v. P v \<Longrightarrow> Q v) \<Longrightarrow> rs_keeps I m Q"
  by (auto simp: rs_keeps_def)

text \<open>An operation that looks at the state first: in each state it acts as one that keeps the invariant.\<close>

lemma rs_keeps_at: "(\<And>s. I s \<Longrightarrow> \<exists>n. rs_keeps I n Q \<and> m s = n s) \<Longrightarrow> rs_keeps I m Q"
  unfolding rs_keeps_def by metis

lemma rs_keeps_if [rs_rules]:
  "(b \<Longrightarrow> rs_keeps I m Q) \<Longrightarrow> (\<not> b \<Longrightarrow> rs_keeps I n Q) \<Longrightarrow> rs_keeps I (if b then m else n) Q"
  by simp

lemma rs_keeps_if_state:
  "rs_keeps I m Q \<Longrightarrow> rs_keeps I n Q \<Longrightarrow> rs_keeps I (\<lambda>s. (if b s then m else n) s) Q"
proof (rule rs_keeps_at)
  show "\<exists>k. rs_keeps I k Q \<and> (if b s then m else n) s = k s"
    if "rs_keeps I m Q" "rs_keeps I n Q" for s
    using that by (cases "b s") auto
qed

lemma rs_keeps_retry [rs_rules]:
  assumes "rs_keeps I m Q"
  shows "rs_keeps I (retry_loop late e transient m n) Q"
proof -
  have "retry_loop late e transient m n s = (r, t) \<Longrightarrow> I s \<Longrightarrow> I t \<and> (\<forall>v. r = Inr v \<longrightarrow> Q v)" for s r t
  proof (induction n arbitrary: s)
    case 0
    then show ?case using assms
      by (subst (asm) retry_loop.simps) (auto simp: rs_keeps_def split: prod.splits sum.splits if_splits)
  next
    case (Suc n)
    obtain r' s' where m: "m s = (r', s')" by fastforce
    then have k: "I s'" "\<And>v. r' = Inr v \<Longrightarrow> Q v" using assms Suc.prems(2) by (auto simp: rs_keeps_def)
    with Suc m show ?case
      by (subst (asm) (2) retry_loop.simps) (auto split: sum.splits if_splits)
  qed
  then show ?thesis by (simp add: rs_keeps_def)
qed

lemma rs_keepsD: "rs_keeps I m Q \<Longrightarrow> I s \<Longrightarrow> m s = (r, t) \<Longrightarrow> I t"
  by (auto simp: rs_keeps_def)

lemma rs_keeps_result: "rs_keeps I m Q \<Longrightarrow> I s \<Longrightarrow> m s = (Inr v, t) \<Longrightarrow> Q v"
  by (auto simp: rs_keeps_def)

section \<open>Counting\<close>

text \<open>An operation keeps an invariant and raises a measure of the state by at most a bound.\<close>

definition rs_adds :: "('s \<Rightarrow> bool) \<Rightarrow> ('s \<Rightarrow> nat) \<Rightarrow> nat \<Rightarrow> ('s, 'e, 'a) rs \<Rightarrow> bool" where
  "rs_adds I cost n m \<longleftrightarrow> (\<forall>s r t. I s \<longrightarrow> m s = (r, t) \<longrightarrow> I t \<and> cost t \<le> cost s + n)"

named_theorems rs_counts "rules for the number of steps of fallible operations"

lemma rs_adds_return [rs_counts]: "rs_adds I cost n (rs_return v)"
  by (simp add: rs_adds_def rs_return_def)

lemma rs_adds_fail [rs_counts]: "rs_adds I cost n (rs_fail v)"
  by (simp add: rs_adds_def rs_fail_def)

lemma rs_adds_lift [rs_counts]: "rs_adds I cost n (rs_lift v)"
  by (simp add: rs_adds_def rs_lift_def)

lemma rs_adds_map_err [rs_counts]: "rs_adds I cost n m \<Longrightarrow> rs_adds I cost n (rs_map_err g m)"
  unfolding rs_adds_def rs_map_err_def by (auto split: prod.splits sum.splits)

lemma rs_adds_bind:
  assumes "rs_adds I cost a m" and "\<And>v. rs_adds I cost b (f v)"
  shows "rs_adds I cost (a + b) (rs_bind m f)"
  unfolding rs_adds_def
proof (intro allI impI)
  fix s r t
  assume s: "I s" and "rs_bind m f s = (r, t)"
  from this(2) show "I t \<and> cost t \<le> cost s + (a + b)"
  proof (cases rule: rs_bind_cases)
    case (fails e)
    with s assms(1) show ?thesis by (fastforce simp: rs_adds_def)
  next
    case (runs v u)
    have "I u \<and> cost u \<le> cost s + a" using assms(1) s runs(1) unfolding rs_adds_def by blast
    moreover from this have "I t \<and> cost t \<le> cost u + b" using assms(2) runs(2) unfolding rs_adds_def by blast
    ultimately show ?thesis by simp
  qed
qed

lemma rs_addsD: "rs_adds I cost n m \<Longrightarrow> I s \<Longrightarrow> I (snd (m s)) \<and> cost (snd (m s)) \<le> cost s + n"
  unfolding rs_adds_def by (metis surjective_pairing)

lemma rs_adds_free_bind [rs_counts]:
  "rs_adds I cost 0 m \<Longrightarrow> (\<And>v. rs_adds I cost b (f v)) \<Longrightarrow> rs_adds I cost b (rs_bind m f)"
  using rs_adds_bind [of I cost 0 m b f] by simp

lemma rs_adds_mono: "rs_adds I cost a m \<Longrightarrow> a \<le> b \<Longrightarrow> rs_adds I cost b m"
  unfolding rs_adds_def by (meson add_left_mono order.trans)

lemma rs_adds_if [rs_counts]:
  "rs_adds I cost a m \<Longrightarrow> rs_adds I cost a n \<Longrightarrow> rs_adds I cost a (if b then m else n)"
  by simp

lemma rs_adds_retry:
  assumes "rs_adds I cost a m"
  shows "rs_adds I cost (Suc n * a) (retry_loop late e transient m n)"
proof -
  have "retry_loop late e transient m n s = (r, t) \<Longrightarrow> I s \<Longrightarrow> I t \<and> cost t \<le> cost s + Suc n * a" for s r t
  proof (induction n arbitrary: s)
    case 0
    then show ?case using assms
      by (subst (asm) retry_loop.simps) (auto simp: rs_adds_def split: prod.splits sum.splits if_splits)
  next
    case (Suc n)
    obtain r' s' where m: "m s = (r', s')" by fastforce
    then have k: "I s'" "cost s' \<le> cost s + a" using assms Suc.prems(2) unfolding rs_adds_def by blast+
    from Suc.prems(1) m show ?case
      by (subst (asm) retry_loop.simps) (use Suc.IH [of s'] k in \<open>auto split: sum.splits if_splits\<close>)
  qed
  then show ?thesis unfolding rs_adds_def by blast
qed

end
