(* ===== verification/Cache_Client.thy ===== *)
theory Cache_Client
  imports Blob_Pack Path_Buf Result_State
begin

text \<open>
  The client of the remote cache, \<^verbatim>\<open>crates/mise-cache-core/src\<close>: the credentials and the checks on
  URLs (\<^verbatim>\<open>credentials.rs\<close>), which errors are retried (\<^verbatim>\<open>retry.rs\<close>), and the operations of
  \<^verbatim>\<open>RemoteCacheClient\<close> (\<^verbatim>\<open>client.rs\<close>).  The state is the client with the log of the requests it sent.
  The server answers each request by a function of the log, the clock and the files are read
  through a counter, so that a later reading may differ; the JSON, base64 and URL libraries are
  parameters.  Files in the staging directory are their content, and writing them does not fail.
\<close>

section \<open>URLs, requests and responses\<close>

datatype host = Domain ustr | Ipv4 "32 word" | Ipv6 "128 word"

record url =
  url_scheme :: ustr
  url_host :: "host option"
  url_path :: ustr
  url_query :: "(ustr \<times> ustr) list"

datatype http_method = GET | POST | PUT

record http_request =
  rq_method :: http_method
  rq_url :: url
  rq_protocol :: "byte option"
  rq_namespace :: "ustr option"
  rq_accept :: "ustr option"
  rq_authorization :: "ustr option"
  rq_content_type :: "ustr option"
  rq_content_length :: "u64 option"
  rq_if_none_match :: bool
  rq_body :: "byte list"

record 'e response =
  rs_status :: nat
  rs_headers :: "ustr \<Rightarrow> byte list option"
  rs_content_length :: "u64 option"
  rs_chunks :: "byte list list"
  rs_error :: "'e option"

record remote_action_result =
  ar_action :: cache_digest
  ar_metadata :: "cache_digest option"
  ar_output_root :: "cache_digest option"
  ar_version :: byte

text \<open>What lies outside the program.\<close>

record 'e world =
  w_net :: "http_request list \<Rightarrow> http_request \<Rightarrow> 'e + 'e response"
  w_late :: "nat \<Rightarrow> http_request list \<Rightarrow> http_request list \<Rightarrow> bool"
  w_clock :: "nat \<Rightarrow> 'e + u64"
  w_read_to_string :: "nat \<Rightarrow> ustr \<Rightarrow> 'e + ustr"
  w_read_bytes :: "nat \<Rightarrow> ustr \<Rightarrow> 'e + byte list"
  w_env :: "ustr \<Rightarrow> ustr option"
  w_tls :: "'e option"
  w_retryable :: "'e \<Rightarrow> bool"
  w_dns_error :: "'e \<Rightarrow> bool"
  w_join :: "url \<Rightarrow> ustr \<Rightarrow> 'e + url"
  w_parse_url :: "ustr \<Rightarrow> 'e + url"
  w_header_value :: "ustr \<Rightarrow> bool"
  w_header_str :: "byte list \<Rightarrow> ustr option"
  w_base64 :: "ustr \<Rightarrow> byte list option"
  w_jwt_exp :: "byte list \<Rightarrow> u64 option"
  w_oidc_value :: "byte list \<Rightarrow> 'e + ustr"
  w_capabilities :: "byte list \<Rightarrow> 'e + capabilities"
  w_action_result :: "byte list \<Rightarrow> 'e + remote_action_result"
  w_action_json :: "remote_action_result \<Rightarrow> 'e + byte list"
  w_digests_json :: "cache_digest list \<Rightarrow> 'e + byte list"
  w_hash :: "ustr \<Rightarrow> byte list \<Rightarrow> ustr"
  w_hex :: "byte list \<Rightarrow> ustr"

record oidc_credential =
  oc_audience :: ustr
  oc_request_url :: url
  oc_request_token :: ustr

datatype credential = NoCredential | StaticToken ustr | TokenFile ustr | GithubActions oidc_credential

record cached_oidc_token =
  ct_authorization :: ustr
  ct_expires_at :: u64

record remote_cache_config =
  cf_base_url :: url
  cf_namespace :: ustr
  cf_token :: "ustr option"
  cf_token_file :: "ustr option"
  cf_oidc_audience :: "ustr option"
  cf_download_timeout :: nat
  cf_retries :: int

record client =
  cl_base_url :: url
  cl_namespace :: ustr
  cl_credential :: credential
  cl_download_timeout :: nat
  cl_retries :: int
  cl_capabilities :: "blob_pack_limits option option"
  cl_disabled :: bool
  cl_oidc :: "cached_oidc_token option"
  cl_ticks :: nat
  cl_sent :: "http_request list"

section \<open>Errors and retries\<close>

fun is_transient :: "'e world \<Rightarrow> 'e cache_error \<Rightarrow> bool" where
  "is_transient W (Transport e) \<longleftrightarrow> \<not> w_dns_error W e \<and> w_retryable W e"
| "is_transient W (HttpStatus status) \<longleftrightarrow> status = 408 \<or> status = 429 \<or> (500 \<le> status \<and> status < 600)"
| "is_transient W _ \<longleftrightarrow> False"

text \<open>\<^verbatim>\<open>retry_async\<close>, and the same under \<^verbatim>\<open>tokio::time::timeout\<close>.\<close>

definition retry_async ::
    "'e world \<Rightarrow> int \<Rightarrow> (client, 'e cache_error, 'a) rs \<Rightarrow> (client, 'e cache_error, 'a) rs" where
  "retry_async W retries attempt = retry_loop (\<lambda>_. False) TimedOut (is_transient W) attempt (nat (max retries 0))"

definition retry_within ::
    "'e world \<Rightarrow> nat \<Rightarrow> int \<Rightarrow> (client, 'e cache_error, 'a) rs \<Rightarrow> (client, 'e cache_error, 'a) rs" where
  "retry_within W timeout retries attempt s =
     retry_loop (\<lambda>t. w_late W timeout (cl_sent s) (cl_sent t)) TimedOut (is_transient W) attempt
       (nat (max retries 0)) s"

definition send :: "'e world \<Rightarrow> http_request \<Rightarrow> (client, 'e cache_error, 'e response) rs" where
  "send W rq s = (map_err Transport (w_net W (cl_sent s) rq), s\<lparr>cl_sent := cl_sent s @ [rq]\<rparr>)"

definition error_for_status :: "'e response \<Rightarrow> 'e cache_error + 'e response" where
  "error_for_status r = (if 400 \<le> rs_status r \<and> rs_status r < 600 then Inl (HttpStatus (rs_status r)) else Inr r)"

definition extension_missing :: "'e response \<Rightarrow> bool" where
  "extension_missing r \<longleftrightarrow> rs_status r = 404 \<or> rs_status r = 405 \<or> rs_status r = 501"

text \<open>\<^verbatim>\<open>Response::json\<close>: the whole body, or the error of the HTTP library.\<close>

definition response_json :: "(byte list \<Rightarrow> 'e + 'a) \<Rightarrow> 'e response \<Rightarrow> 'e cache_error + 'a" where
  "response_json parse r =
     (case rs_error r of Some e \<Rightarrow> Inl (Transport e) | None \<Rightarrow> map_err Transport (parse (concat (rs_chunks r))))"

fun body_loop :: "nat \<Rightarrow> 'e option \<Rightarrow> byte list \<Rightarrow> byte list list \<Rightarrow> 'e cache_error + byte list option" where
  "body_loop limit err body [] = (case err of Some e \<Rightarrow> Inl (Transport e) | None \<Rightarrow> Inr (Some body))"
| "body_loop limit err body (chunk # chunks) =
     (if length body + length chunk > limit then Inr None else body_loop limit err (body @ chunk) chunks)"

definition read_body_limited :: "'e response \<Rightarrow> u64 \<Rightarrow> 'e cache_error + byte list option" where
  "read_body_limited r limit =
     (if (case rs_content_length r of Some n \<Rightarrow> n > limit | None \<Rightarrow> False) then Inr None
      else body_loop (unat limit) (rs_error r) [] (rs_chunks r))"

section \<open>Credentials\<close>

definition eq_ignore_ascii_case :: "ustr \<Rightarrow> ustr \<Rightarrow> bool" where
  "eq_ignore_ascii_case a b \<longleftrightarrow> to_ascii_lowercase a = to_ascii_lowercase b"

fun is_loopback :: "host \<Rightarrow> bool" where
  "is_loopback (Domain h) = eq_ignore_ascii_case h (lit ''localhost'')"
| "is_loopback (Ipv4 a) \<longleftrightarrow> drop_bit 24 a = 127"
| "is_loopback (Ipv6 a) \<longleftrightarrow> a = 1"

definition host_is_loopback :: "url \<Rightarrow> bool" where
  "host_is_loopback u = (case url_host u of Some h \<Rightarrow> is_loopback h | None \<Rightarrow> False)"

definition validate_oidc_request_url :: "url \<Rightarrow> 'e cache_error + unit" where
  "validate_oidc_request_url u =
     (if url_scheme u = lit ''https'' \<or> (url_scheme u = lit ''http'' \<and> host_is_loopback u) then Inr ()
      else Inl NotHttps)"

definition validate_remote_url :: "url \<Rightarrow> bool \<Rightarrow> 'e cache_error + unit" where
  "validate_remote_url u authenticated =
     (if url_scheme u = lit ''https'' then Inr ()
      else if url_scheme u \<noteq> lit ''http'' then Inl NotHttps
      else if \<not> host_is_loopback u \<and> authenticated then Inl NotHttps
      else Inr ())"

definition normalized_base_url :: "url \<Rightarrow> url" where
  "normalized_base_url u =
     (if url_path u \<noteq> [] \<and> last (url_path u) = SLASH then u else u\<lparr>url_path := url_path u @ [SLASH]\<rparr>)"

definition authorization_header :: "'e world \<Rightarrow> ustr option \<Rightarrow> 'e cache_error + ustr option" where
  "authorization_header W token =
     (case map_option str_trim token of
        None \<Rightarrow> Inr None
      | Some t \<Rightarrow>
          if t = [] then Inr None
          else if w_header_value W (lit ''Bearer '' @ t) then Inr (Some (lit ''Bearer '' @ t))
          else Inl InvalidToken)"

definition oidc_new :: "'e world \<Rightarrow> ustr \<Rightarrow> url \<Rightarrow> ustr \<Rightarrow> 'e cache_error + oidc_credential" where
  "oidc_new W audience request_url request_token =
     (case validate_oidc_request_url request_url of
        Inl e \<Rightarrow> Inl e
      | Inr _ \<Rightarrow>
          (let query = filter (\<lambda>(k, v). k \<noteq> lit ''audience'') (url_query request_url);
               request_url = request_url\<lparr>url_query := query @ [(lit ''audience'', audience)]\<rparr>
           in case authorization_header W (Some request_token) of
                Inl e \<Rightarrow> Inl e
              | Inr None \<Rightarrow> Inl EmptyToken
              | Inr (Some t) \<Rightarrow>
                  Inr \<lparr> oc_audience = audience, oc_request_url = request_url, oc_request_token = t \<rparr>))"

definition oidc_from_env :: "'e world \<Rightarrow> ustr \<Rightarrow> 'e cache_error + oidc_credential" where
  "oidc_from_env W audience =
     (case w_env W (lit ''ACTIONS_ID_TOKEN_REQUEST_URL'') of
        None \<Rightarrow> Inl OidcUnavailable
      | Some request_url \<Rightarrow>
          (case w_env W (lit ''ACTIONS_ID_TOKEN_REQUEST_TOKEN'') of
             None \<Rightarrow> Inl OidcUnavailable
           | Some request_token \<Rightarrow>
               (case w_parse_url W request_url of
                  Inl e \<Rightarrow> Inl (Other e)
                | Inr u \<Rightarrow> oidc_new W audience u request_token)))"

definition remote_credential :: "'e world \<Rightarrow> remote_cache_config \<Rightarrow> 'e cache_error + credential" where
  "remote_credential W cfg =
     (case authorization_header W (cf_token cfg) of
        Inl e \<Rightarrow> Inl e
      | Inr (Some a) \<Rightarrow> Inr (StaticToken a)
      | Inr None \<Rightarrow>
          (case cf_token_file cfg of
             Some path \<Rightarrow> Inr (TokenFile path)
           | None \<Rightarrow>
               (case map_option str_trim (cf_oidc_audience cfg) of
                  None \<Rightarrow> Inr NoCredential
                | Some audience \<Rightarrow>
                    if audience = [] then Inr NoCredential
                    else (case oidc_from_env W audience of Inl e \<Rightarrow> Inl e | Inr c \<Rightarrow> Inr (GithubActions c)))))"

definition jwt_expiry :: "'e world \<Rightarrow> ustr \<Rightarrow> 'e cache_error + u64" where
  "jwt_expiry W token =
     (case split_on DOT token of
        _ # payload # _ \<Rightarrow>
          (case w_base64 W payload of
             None \<Rightarrow> Inl MalformedJwt
           | Some bytes \<Rightarrow> (case w_jwt_exp W bytes of None \<Rightarrow> Inl NoExpiry | Some exp \<Rightarrow> Inr exp))
      | _ \<Rightarrow> Inl MalformedJwt)"

definition unix_timestamp :: "'e world \<Rightarrow> (client, 'e cache_error, u64) rs" where
  "unix_timestamp W s = (map_err Other (w_clock W (cl_ticks s)), s\<lparr>cl_ticks := cl_ticks s + 1\<rparr>)"

definition read_to_string :: "'e world \<Rightarrow> ustr \<Rightarrow> (client, 'e cache_error, ustr) rs" where
  "read_to_string W path s = (map_err Other (w_read_to_string W (cl_ticks s) path), s\<lparr>cl_ticks := cl_ticks s + 1\<rparr>)"

definition REFRESH_LEEWAY_SECONDS :: u64 where "REFRESH_LEEWAY_SECONDS = 60"

definition oidc_request :: "oidc_credential \<Rightarrow> http_request" where
  "oidc_request c =
     \<lparr> rq_method = GET, rq_url = oc_request_url c, rq_protocol = None, rq_namespace = None, rq_accept = None,
       rq_authorization = Some (oc_request_token c), rq_content_type = None, rq_content_length = None,
       rq_if_none_match = False, rq_body = [] \<rparr>"

definition set_oidc :: "cached_oidc_token \<Rightarrow> (client, 'e cache_error, unit) rs" where
  "set_oidc token s = (Inr (), s\<lparr>cl_oidc := Some token\<rparr>)"

text \<open>A new token: fetched, checked to live long enough, and kept.\<close>

definition oidc_refresh :: "'e world \<Rightarrow> int \<Rightarrow> oidc_credential \<Rightarrow> u64 \<Rightarrow> (client, 'e cache_error, ustr) rs" where
  "oidc_refresh W retries c now =
     rs_bind
       (rs_map_err (\<lambda>_. OidcFailed)
         (retry_async W retries
           (rs_bind (send W (oidc_request c)) (\<lambda>r.
            rs_bind (rs_lift (error_for_status r)) (\<lambda>r.
            rs_lift (response_json (w_oidc_value W) r))))))
       (\<lambda>token.
     rs_bind (rs_lift (jwt_expiry W token)) (\<lambda>expires_at.
     if expires_at \<le> saturating_add now REFRESH_LEEWAY_SECONDS then rs_fail ExpiresTooSoon
     else
       rs_bind (rs_lift (authorization_header W (Some token))) (\<lambda>a.
       case a of
         None \<Rightarrow> rs_fail EmptyToken
       | Some a \<Rightarrow>
           rs_bind (set_oidc \<lparr> ct_authorization = a, ct_expires_at = expires_at \<rparr>) (\<lambda>_. rs_return a))))"

definition oidc_authorization :: "'e world \<Rightarrow> oidc_credential \<Rightarrow> (client, 'e cache_error, ustr) rs" where
  "oidc_authorization W c =
     rs_bind (unix_timestamp W) (\<lambda>now s.
       case cl_oidc s of
         Some token \<Rightarrow>
           if ct_expires_at token > saturating_add now REFRESH_LEEWAY_SECONDS
           then (Inr (ct_authorization token), s)
           else oidc_refresh W (cl_retries s) c now s
       | None \<Rightarrow> oidc_refresh W (cl_retries s) c now s)"

definition token_file_authorization :: "'e world \<Rightarrow> ustr \<Rightarrow> (client, 'e cache_error, ustr) rs" where
  "token_file_authorization W path =
     rs_bind (read_to_string W path) (\<lambda>token.
     rs_bind (rs_lift (authorization_header W (Some token))) (\<lambda>a.
     case a of None \<Rightarrow> rs_fail EmptyToken | Some a \<Rightarrow> rs_return a))"

definition authorization :: "'e world \<Rightarrow> (client, 'e cache_error, ustr option) rs" where
  "authorization W s =
     (case cl_credential s of
        NoCredential \<Rightarrow> rs_return None
      | StaticToken a \<Rightarrow> rs_return (Some a)
      | TokenFile path \<Rightarrow> rs_bind (token_file_authorization W path) (\<lambda>a. rs_return (Some a))
      | GithubActions c \<Rightarrow> rs_bind (oidc_authorization W c) (\<lambda>a. rs_return (Some a))) s"

section \<open>Building a client\<close>

definition client_new :: "'e world \<Rightarrow> remote_cache_config \<Rightarrow> 'e cache_error + client" where
  "client_new W cfg =
     (let authenticated = (case cf_token cfg of Some t \<Rightarrow> str_trim t \<noteq> [] | None \<Rightarrow> False)
            \<or> cf_token_file cfg \<noteq> None
            \<or> (case cf_oidc_audience cfg of Some a \<Rightarrow> str_trim a \<noteq> [] | None \<Rightarrow> False)
      in case validate_remote_url (cf_base_url cfg) authenticated of
           Inl e \<Rightarrow> Inl e
         | Inr _ \<Rightarrow>
             (case w_tls W of
                Some e \<Rightarrow> Inl (Other e)
              | None \<Rightarrow>
                  (case remote_credential W cfg of
                     Inl e \<Rightarrow> Inl e
                   | Inr c \<Rightarrow>
                       Inr \<lparr> cl_base_url = normalized_base_url (cf_base_url cfg), cl_namespace = cf_namespace cfg,
                             cl_credential = c,
                             cl_download_timeout = cf_download_timeout cfg, cl_retries = cf_retries cfg,
                             cl_capabilities = None, cl_disabled = False, cl_oidc = None,
                             cl_ticks = 0, cl_sent = [] \<rparr>)))"

section \<open>Endpoints and requests\<close>

fun decimal :: "nat \<Rightarrow> ustr" where
  "decimal n = (if n < 10 then [48 + n] else decimal (n div 10) @ [48 + n mod 10])"

declare decimal.simps [simp del]

definition digest_path :: "string \<Rightarrow> cache_digest \<Rightarrow> ustr" where
  "digest_path kind d =
     lit ''v'' @ decimal (unat PROTOCOL_VERSION) @ lit ''/'' @ lit kind @ lit ''/''
     @ cd_algorithm d @ lit ''/'' @ cd_hash d @ lit ''/'' @ decimal (unat (cd_size d))"

definition fixed_path :: "string \<Rightarrow> ustr" where
  "fixed_path name = lit ''v'' @ decimal (unat PROTOCOL_VERSION) @ lit ''/'' @ lit name"

definition join_base :: "'e world \<Rightarrow> ustr \<Rightarrow> (client, 'e cache_error, url) rs" where
  "join_base W path s = (map_err Other (w_join W (cl_base_url s) path), s)"

definition action_result_endpoint :: "'e world \<Rightarrow> cache_digest \<Rightarrow> (client, 'e cache_error, url) rs" where
  "action_result_endpoint W action =
     rs_bind (rs_lift (map_err BadDigest (digest_validate action))) (\<lambda>_.
     if cd_algorithm action \<noteq> lit ''blake3'' then rs_fail NotBlake3
     else join_base W (digest_path ''action-results'' action))"

definition blob_endpoint :: "'e world \<Rightarrow> cache_digest \<Rightarrow> (client, 'e cache_error, url) rs" where
  "blob_endpoint W digest =
     rs_bind (rs_lift (map_err BadDigest (digest_validate digest))) (\<lambda>_.
     join_base W (digest_path ''blobs'' digest))"

definition capabilities_endpoint :: "'e world \<Rightarrow> (client, 'e cache_error, url) rs" where
  "capabilities_endpoint W = join_base W (fixed_path ''capabilities'')"

definition blob_pack_endpoint :: "'e world \<Rightarrow> (client, 'e cache_error, url) rs" where
  "blob_pack_endpoint W = join_base W (fixed_path ''blobs:pack'')"

definition request :: "'e world \<Rightarrow> http_method \<Rightarrow> url \<Rightarrow> ustr \<Rightarrow> (client, 'e cache_error, http_request) rs" where
  "request W method u media_type =
     rs_bind (authorization W) (\<lambda>a s.
     rs_return \<lparr> rq_method = method, rq_url = u, rq_protocol = Some PROTOCOL_VERSION,
                 rq_namespace = Some (cl_namespace s), rq_accept = Some media_type, rq_authorization = a,
                 rq_content_type = None, rq_content_length = None, rq_if_none_match = False, rq_body = [] \<rparr> s)"

section \<open>Blob packs\<close>

definition ACTION_RESULT_MEDIA_TYPE :: ustr where
  "ACTION_RESULT_MEDIA_TYPE = lit ''application/vnd.mise.cache-action-result.v1+json''"
definition BLOB_MEDIA_TYPE :: ustr where "BLOB_MEDIA_TYPE = lit ''application/octet-stream''"
definition BLOB_PACK_MEDIA_TYPE :: ustr where
  "BLOB_PACK_MEDIA_TYPE = lit ''application/vnd.mise.cache-blob-pack.v1''"
definition DIGEST_LIST_MEDIA_TYPE :: ustr where
  "DIGEST_LIST_MEDIA_TYPE = lit ''application/vnd.mise.cache-digests.v1+json''"
definition MAX_CAPABILITIES_BYTES :: u64 where "MAX_CAPABILITIES_BYTES = 1024 * 1024"

fun dec_value :: "nat \<Rightarrow> ustr \<Rightarrow> nat" where
  "dec_value n [] = n"
| "dec_value n (c # cs) = dec_value (n * 10 + (c - 48)) cs"

text \<open>\<^verbatim>\<open>str::parse::<u64>\<close>.\<close>

definition parse_u64 :: "ustr \<Rightarrow> u64 option" where
  "parse_u64 s =
     (let ds = (case s of c # cs \<Rightarrow> if c = PLUS then cs else s | [] \<Rightarrow> [])
      in if ds = [] \<or> (\<exists>c\<in>set ds. \<not> is_ascii_digit c) \<or> dec_value 0 ds \<ge> 2 ^ 64 then None
         else Some (word_of_nat (dec_value 0 ds)))"

definition optional_u64_header :: "'e world \<Rightarrow> 'e response \<Rightarrow> ustr \<Rightarrow> 'e cache_error + u64 option" where
  "optional_u64_header W r name =
     (case rs_headers r name of
        None \<Rightarrow> Inr None
      | Some bytes \<Rightarrow>
          (case w_header_str W bytes of
             None \<Rightarrow> Inl (InvalidHeader name)
           | Some v \<Rightarrow> (case parse_u64 v of None \<Rightarrow> Inl (InvalidHeader name) | Some n \<Rightarrow> Inr (Some n))))"

definition from_headers :: "'e world \<Rightarrow> 'e response \<Rightarrow> 'e cache_error + pack_metadata" where
  "from_headers W r =
     (case optional_u64_header W r (lit ''content-length'') of
        Inl e \<Rightarrow> Inl e
      | Inr content_length \<Rightarrow>
          (case optional_u64_header W r (lit ''mbx-cache-pack-blobs'') of
             Inl e \<Rightarrow> Inl e
           | Inr blob_count \<Rightarrow>
               (case optional_u64_header W r (lit ''mbx-cache-pack-bytes'') of
                  Inl e \<Rightarrow> Inl e
                | Inr payload_bytes \<Rightarrow>
                    Inr \<lparr> md_content_length = content_length, md_blob_count = blob_count,
                          md_payload_bytes = payload_bytes \<rparr>)))"

definition fetch_limits :: "'e world \<Rightarrow> (client, 'e cache_error, blob_pack_limits option) rs" where
  "fetch_limits W =
     rs_bind (capabilities_endpoint W) (\<lambda>u.
     rs_bind (request W GET u (lit ''application/json'')) (\<lambda>rq.
     rs_bind (send W rq) (\<lambda>r.
     if extension_missing r then rs_return None
     else
       rs_bind (rs_lift (error_for_status r)) (\<lambda>r.
       rs_bind (rs_lift (read_body_limited r MAX_CAPABILITIES_BYTES)) (\<lambda>body.
       case body of
         None \<Rightarrow> rs_fail CapabilitiesTooLarge
       | Some body \<Rightarrow>
           rs_bind (rs_lift (map_err Other (w_capabilities W body))) (\<lambda>c. rs_lift (pack_limits c)))))))"

definition set_capabilities :: "blob_pack_limits option \<Rightarrow> (client, 'e cache_error, unit) rs" where
  "set_capabilities l s = (Inr (), s\<lparr>cl_capabilities := Some l\<rparr>)"

text \<open>\<^verbatim>\<open>RemoteCacheClient::blob_pack_limits\<close>: asked once, unless that fails.\<close>

definition negotiated_limits :: "'e world \<Rightarrow> (client, 'e cache_error, blob_pack_limits option) rs" where
  "negotiated_limits W s =
     (case cl_capabilities s of
        Some l \<Rightarrow> (Inr l, s)
      | None \<Rightarrow> rs_bind (fetch_limits W) (\<lambda>l. rs_bind (set_capabilities l) (\<lambda>_. rs_return l)) s)"

definition media_type_of :: "'e world \<Rightarrow> 'e response \<Rightarrow> ustr option" where
  "media_type_of W r =
     (case rs_headers r (lit ''content-type'') of
        None \<Rightarrow> None
      | Some bytes \<Rightarrow> map_option (\<lambda>v. str_trim (hd (split_on 59 v))) (w_header_str W bytes))"

text \<open>\<^verbatim>\<open>decode_blob_pack\<close> with the headers it reads first.\<close>

definition decode_response ::
    "'e world \<Rightarrow> 'e response \<Rightarrow> cache_digest list \<Rightarrow> 'e cache_error + (cache_digest \<times> byte list) list \<times> pack_stats" where
  "decode_response W r digests =
     (case from_headers W r of
        Inl e \<Rightarrow> Inl e
      | Inr md \<Rightarrow> decode_blob_pack (w_hex W) (w_hash W) md (concat (rs_chunks r)) (rs_error r) digests)"

definition blob_pack_attempt ::
    "'e world \<Rightarrow> url \<Rightarrow> byte list \<Rightarrow> cache_digest list
     \<Rightarrow> (client, 'e cache_error, ((cache_digest \<times> byte list) list \<times> pack_stats) option) rs" where
  "blob_pack_attempt W u body digests =
     rs_bind (request W POST u BLOB_PACK_MEDIA_TYPE) (\<lambda>rq.
     rs_bind (send W (rq\<lparr>rq_content_type := Some DIGEST_LIST_MEDIA_TYPE, rq_body := body\<rparr>)) (\<lambda>r.
     if extension_missing r then rs_return None
     else
       rs_bind (rs_lift (error_for_status r)) (\<lambda>r.
       if media_type_of W r \<noteq> Some BLOB_PACK_MEDIA_TYPE then rs_fail InvalidContentType
       else rs_bind (rs_lift (decode_response W r digests)) (\<lambda>p. rs_return (Some p)))))"

definition download_blob_pack_chunk ::
    "'e world \<Rightarrow> cache_digest list
     \<Rightarrow> (client, 'e cache_error, ((cache_digest \<times> byte list) list \<times> pack_stats) option) rs" where
  "download_blob_pack_chunk W digests =
     rs_bind (blob_pack_endpoint W) (\<lambda>u.
     rs_bind (rs_lift (map_err Other (w_digests_json W digests))) (\<lambda>body s.
     retry_within W (blob_pack_download_timeout (cl_download_timeout s) digests) (cl_retries s)
       (blob_pack_attempt W u body digests) s))"

record remote_blob_pack =
  bp_blobs :: "(cache_digest \<times> byte list) list"
  bp_requests :: u64
  bp_requested :: "cache_digest list"
  bp_blob_count :: u64
  bp_payload_bytes :: u64
  bp_framed_bytes :: u64

definition disable_blob_packs :: "(client, 'e cache_error, unit) rs" where
  "disable_blob_packs s = (Inr (), s\<lparr>cl_disabled := True\<rparr>)"

definition get_blob_pack ::
    "'e world \<Rightarrow> cache_digest list \<Rightarrow> (client, 'e cache_error, remote_blob_pack option) rs" where
  "get_blob_pack W digests s =
     (if digests = [] \<or> cl_disabled s then rs_return None
      else
        rs_bind (negotiated_limits W) (\<lambda>l.
        case l of
          None \<Rightarrow> rs_return None
        | Some limits \<Rightarrow>
            rs_bind (rs_lift (map_err BadDigest (blob_pack_chunk digests limits))) (\<lambda>chunk.
            if chunk = []
            then rs_return (Some \<lparr> bp_blobs = [], bp_requests = 0, bp_requested = [], bp_blob_count = 0,
                                   bp_payload_bytes = 0, bp_framed_bytes = 8 \<rparr>)
            else
              rs_bind (download_blob_pack_chunk W chunk) (\<lambda>p.
              case p of
                Some (blobs, stats) \<Rightarrow>
                  rs_return (Some \<lparr> bp_blobs = blobs, bp_requests = 1, bp_requested = chunk,
                                    bp_blob_count = st_blob_count stats,
                                    bp_payload_bytes = st_payload_bytes stats,
                                    bp_framed_bytes = st_framed_bytes stats \<rparr>)
              | None \<Rightarrow> rs_bind disable_blob_packs (\<lambda>_. rs_return None))))) s"

section \<open>Action results and single blobs\<close>

definition action_result_attempt ::
    "'e world \<Rightarrow> url \<Rightarrow> (client, 'e cache_error, remote_action_result option) rs" where
  "action_result_attempt W u =
     rs_bind (request W GET u ACTION_RESULT_MEDIA_TYPE) (\<lambda>rq.
     rs_bind (send W rq) (\<lambda>r.
     if rs_status r = 404 then rs_return None
     else
       rs_bind (rs_lift (error_for_status r)) (\<lambda>r.
       rs_bind (rs_lift (response_json (w_action_result W) r)) (\<lambda>a. rs_return (Some a)))))"

definition get_action_result ::
    "'e world \<Rightarrow> cache_digest \<Rightarrow> (client, 'e cache_error, remote_action_result option) rs" where
  "get_action_result W action =
     rs_bind (action_result_endpoint W action) (\<lambda>u.
     rs_bind (\<lambda>s. retry_async W (cl_retries s) (action_result_attempt W u) s) (\<lambda>result.
     case result of
       Some a \<Rightarrow>
         if ar_version a \<noteq> 1 \<or> ar_action a \<noteq> action then rs_fail ActionMismatch else rs_return result
     | None \<Rightarrow> rs_return None))"

text \<open>The end of both uploads: an object the server already has is not an error.\<close>

definition upload_attempt :: "'e world \<Rightarrow> (client, 'e cache_error, http_request) rs \<Rightarrow> (client, 'e cache_error, unit) rs" where
  "upload_attempt W rq =
     rs_bind rq (\<lambda>rq.
     rs_bind (send W rq) (\<lambda>r.
     if rs_status r \<noteq> 412 then rs_bind (rs_lift (error_for_status r)) (\<lambda>_. rs_return ()) else rs_return ()))"

definition put_action_result :: "'e world \<Rightarrow> remote_action_result \<Rightarrow> (client, 'e cache_error, unit) rs" where
  "put_action_result W result =
     rs_bind (action_result_endpoint W (ar_action result)) (\<lambda>u.
     rs_bind (rs_lift (map_err Other (w_action_json W result))) (\<lambda>body s.
     retry_async W (cl_retries s)
       (upload_attempt W
         (rs_bind (request W PUT u ACTION_RESULT_MEDIA_TYPE) (\<lambda>rq.
          rs_return (rq\<lparr>rq_content_type := Some ACTION_RESULT_MEDIA_TYPE, rq_if_none_match := True, rq_body := body\<rparr>)))) s))"

definition blob_attempt ::
    "'e world \<Rightarrow> url \<Rightarrow> ustr \<Rightarrow> cache_digest \<Rightarrow> (client, 'e cache_error, byte list) rs" where
  "blob_attempt W u media_type digest =
     rs_bind (request W GET u media_type) (\<lambda>rq.
     rs_bind (send W rq) (\<lambda>r.
     rs_bind (rs_lift (error_for_status r)) (\<lambda>r.
     rs_bind (rs_lift (read_body_limited r (cd_size digest))) (\<lambda>body.
     case body of
       None \<Rightarrow> rs_fail LargerThanDigest
     | Some bytes \<Rightarrow>
         rs_bind (rs_lift (map_err BadDigest (matches_bytes (w_hash W) digest bytes))) (\<lambda>ok.
         if ok then rs_return bytes else rs_fail DigestMismatch)))))"

definition get_blob :: "'e world \<Rightarrow> cache_digest \<Rightarrow> ustr \<Rightarrow> (client, 'e cache_error, byte list) rs" where
  "get_blob W digest media_type =
     rs_bind (rs_lift (map_err BadDigest (digest_validate digest))) (\<lambda>_.
     rs_bind (blob_endpoint W digest) (\<lambda>u s.
     retry_async W (cl_retries s) (blob_attempt W u media_type digest) s))"

text \<open>The loop that writes the chunks to a file; the count of bytes is a \<^verbatim>\<open>u64\<close>.\<close>

fun file_loop :: "u64 \<Rightarrow> 'e option \<Rightarrow> u64 \<Rightarrow> byte list \<Rightarrow> byte list list \<Rightarrow> 'e cache_error + byte list" where
  "file_loop limit err written output [] = (case err of Some e \<Rightarrow> Inl (Transport e) | None \<Rightarrow> Inr output)"
| "file_loop limit err written output (chunk # chunks) =
     (let written = written + word_of_nat (length chunk)
      in if written > limit then Inl LargerThanDigest
         else file_loop limit err written (output @ chunk) chunks)"

definition matches_file :: "(ustr \<Rightarrow> byte list \<Rightarrow> ustr) \<Rightarrow> cache_digest \<Rightarrow> byte list \<Rightarrow> digest_error + bool" where
  "matches_file hash d content =
     (case digest_validate d of
        Inl e \<Rightarrow> Inl e
      | Inr _ \<Rightarrow> Inr (cd_size d = word_of_nat (length content) \<and> cd_hash d = hash (cd_algorithm d) content))"

definition blob_file_attempt :: "'e world \<Rightarrow> url \<Rightarrow> cache_digest \<Rightarrow> (client, 'e cache_error, byte list) rs" where
  "blob_file_attempt W u digest =
     rs_bind (request W GET u BLOB_MEDIA_TYPE) (\<lambda>rq.
     rs_bind (send W rq) (\<lambda>r.
     rs_bind (rs_lift (error_for_status r)) (\<lambda>r.
     rs_bind (rs_lift (file_loop (cd_size digest) (rs_error r) 0 [] (rs_chunks r))) (\<lambda>content.
     rs_bind (rs_lift (map_err BadDigest (matches_file (w_hash W) digest content))) (\<lambda>ok.
     if ok then rs_return content else rs_fail DigestMismatch)))))"

definition get_blob_file :: "'e world \<Rightarrow> cache_digest \<Rightarrow> (client, 'e cache_error, byte list) rs" where
  "get_blob_file W digest =
     rs_bind (blob_endpoint W digest) (\<lambda>u s.
     retry_within W (cl_download_timeout s) (cl_retries s) (blob_file_attempt W u digest) s)"

datatype blob_source = BlobBytes "byte list" | BlobFile ustr | BlobPath ustr

definition read_bytes :: "'e world \<Rightarrow> ustr \<Rightarrow> (client, 'e cache_error, byte list) rs" where
  "read_bytes W path s = (map_err Other (w_read_bytes W (cl_ticks s) path), s\<lparr>cl_ticks := cl_ticks s + 1\<rparr>)"

fun source_bytes :: "'e world \<Rightarrow> blob_source \<Rightarrow> (client, 'e cache_error, byte list) rs" where
  "source_bytes W (BlobBytes bytes) = rs_return bytes"
| "source_bytes W (BlobFile path) = read_bytes W path"
| "source_bytes W (BlobPath path) = read_bytes W path"

definition put_blob :: "'e world \<Rightarrow> cache_digest \<Rightarrow> blob_source \<Rightarrow> (client, 'e cache_error, unit) rs" where
  "put_blob W digest source =
     rs_bind (blob_endpoint W digest) (\<lambda>u s.
     retry_async W (cl_retries s)
       (upload_attempt W
         (rs_bind (source_bytes W source) (\<lambda>body.
          rs_bind (request W PUT u BLOB_MEDIA_TYPE) (\<lambda>rq.
          rs_return (rq\<lparr>rq_content_type := Some BLOB_MEDIA_TYPE, rq_content_length := Some (word_of_nat (length body)),
                        rq_if_none_match := True, rq_body := body\<rparr>))))) s)"

end
