(* ===== verification/Blob_Pack_Correct.thy ===== *)
theory Blob_Pack_Correct
  imports Blob_Pack
begin

text \<open>
  A request for a blob pack stays within the limits of the server, and decoding accepts exactly
  the well-formed responses to it.
\<close>

section \<open>Words\<close>

lemma unat_64: "unat (w :: u64) < 2 ^ 64"
  using unsigned_less [of w] by simp

lemma unat_add_64: "unat (a :: u64) + unat b < 2 ^ 64 \<Longrightarrow> unat (a + b) = unat a + unat b"
  by (simp add: unat_word_ariths)

lemma unat_of_nat_64: "n < 2 ^ 64 \<Longrightarrow> unat (word_of_nat n :: u64) = n"
  by (simp add: unat_of_nat)

lemma saturating_le:
  assumes "saturating_add a b \<le> m" and "m \<noteq> - 1 \<or> unat a + unat b < 2 ^ 64"
  shows "unat a + unat b \<le> unat m \<and> saturating_add a b = a + b \<and> unat (a + b) = unat a + unat b"
proof -
  have "unat a + unat b < 2 ^ 64"
  proof (rule ccontr)
    assume "\<not> unat a + unat b < 2 ^ 64"
    with assms word_order.extremum_uniqueI [of m] show False by (auto simp: saturating_add_def)
  qed
  with assms(1) unat_add_64 [of a b] show ?thesis by (auto simp: saturating_add_def word_le_nat_alt)
qed

section \<open>The chunk\<close>

definition sizes :: "cache_digest list \<Rightarrow> nat" where
  "sizes ds = (\<Sum>d\<leftarrow>ds. unat (cd_size d))"

definition valid_digest :: "cache_digest \<Rightarrow> bool" where
  "valid_digest d \<longleftrightarrow> digest_validate d = Inr ()"

lemma digest_validate_valid: "digest_validate d = Inr u \<longleftrightarrow> valid_digest d"
  by (auto simp: valid_digest_def digest_validate_def split: if_splits)

lemma chunk_loop_bounds:
  assumes "chunk_loop limits seen chunk b ds = Inr r"
    and "unat b = sizes chunk" and "sizes chunk \<le> unat (max_bytes limits)" and "length chunk \<le> max_items limits"
    and "distinct chunk" and "set chunk \<subseteq> seen" and "max_bytes limits \<noteq> - 1"
  shows "distinct r \<and> set r \<subseteq> set chunk \<union> {d \<in> set ds. valid_digest d}
    \<and> length r \<le> max_items limits \<and> sizes r \<le> unat (max_bytes limits) \<and> set chunk \<subseteq> set r"
  using assms
proof (induction limits seen chunk b ds rule: chunk_loop.induct)
  case (1 limits seen chunk b)
  then show ?case by auto
next
  case (2 limits seen chunk b d ds)
  have v: "valid_digest d" and vd: "digest_validate d = Inr ()"
    using "2.prems"(1) by (auto simp: digest_validate_valid split: sum.splits)
  show ?case
  proof (cases "d \<in> seen \<or> cd_size d > max_bytes limits")
    case True
    then have "chunk_loop limits (insert d seen) chunk b ds = Inr r" using "2.prems"(1) vd by simp
    from "2.IH"(1) [OF vd True this "2.prems"(2-5) _ "2.prems"(7)] "2.prems"(6) show ?thesis by auto
  next
    case False
    show ?thesis
    proof (cases "length chunk = max_items limits \<or> saturating_add b (cd_size d) > max_bytes limits")
      case True
      with False "2.prems" vd show ?thesis by auto
    next
      case nf: False
      note add = saturating_le [of b "cd_size d" "max_bytes limits"]
      have s: "unat b + unat (cd_size d) \<le> unat (max_bytes limits)"
        "unat (saturating_add b (cd_size d)) = sizes (chunk @ [d])"
        using add nf "2.prems"(2,7) by (auto simp: sizes_def not_less)
      have r: "chunk_loop limits (insert d seen) (chunk @ [d]) (saturating_add b (cd_size d)) ds = Inr r"
        using "2.prems"(1) vd False nf by simp
      have "distinct r \<and> set r \<subseteq> set (chunk @ [d]) \<union> {d \<in> set ds. valid_digest d}
          \<and> length r \<le> max_items limits \<and> sizes r \<le> unat (max_bytes limits) \<and> set (chunk @ [d]) \<subseteq> set r"
      proof (rule "2.IH"(2) [OF vd False nf r])
        show "sizes (chunk @ [d]) \<le> unat (max_bytes limits)" using s "2.prems"(2) by (simp add: sizes_def)
        show "length (chunk @ [d]) \<le> max_items limits" using nf "2.prems"(4) by simp
        show "distinct (chunk @ [d])" using False "2.prems"(5,6) by auto
        show "set (chunk @ [d]) \<subseteq> insert d seen" using "2.prems"(6) by auto
      qed (use s "2.prems" in auto)
      with v show ?thesis by auto
    qed
  qed
qed

text \<open>A request makes progress: it is empty only when no digest fits.\<close>

lemma chunk_loop_progress:
  assumes "chunk_loop limits seen [] 0 ds = Inr r" and "0 < max_items limits" and "d \<in> set ds"
    and "cd_size d \<le> max_bytes limits" and "\<forall>x\<in>seen. cd_size x > max_bytes limits"
    and "max_bytes limits \<noteq> - 1"
  shows "r \<noteq> []"
  using assms
proof (induction ds arbitrary: seen)
  case Nil
  then show ?case by simp
next
  case (Cons c ds)
  have vd: "digest_validate c = Inr ()" using Cons.prems(1) by (auto split: sum.splits)
  show ?case
  proof (cases "cd_size c > max_bytes limits")
    case True
    then have "chunk_loop limits (insert c seen) [] 0 ds = Inr r" using Cons.prems(1) vd by simp
    moreover have "d \<in> set ds" using Cons.prems(3,4) True by auto
    ultimately show ?thesis using Cons.IH [of "insert c seen"] Cons.prems True by simp
  next
    case False
    then have "c \<notin> seen" using Cons.prems(5) by auto
    moreover have sat: "saturating_add 0 (cd_size c) = cd_size c"
      using unat_64 [of "cd_size c"] by (simp add: saturating_add_def)
    ultimately have "chunk_loop limits (insert c seen) [c] (cd_size c) ds = Inr r"
      using Cons.prems(1,2) vd False by simp
    moreover have "sizes [c] = unat (cd_size c)" by (simp add: sizes_def)
    ultimately have "set [c] \<subseteq> set r"
      using chunk_loop_bounds [of limits "insert c seen" "[c]" "cd_size c" ds r] False Cons.prems(2,6)
      by (auto simp: word_le_nat_alt not_less)
    then show ?thesis by auto
  qed
qed

text \<open>Limits agreed with a server: positive, and at most what the client is willing to stage.\<close>

definition limits_ok :: "blob_pack_limits \<Rightarrow> bool" where
  "limits_ok l \<longleftrightarrow> 0 < max_items l \<and> max_items l \<le> MAX_STAGED_BLOB_PACK_ITEMS
     \<and> 0 < unat (max_bytes l) \<and> unat (max_bytes l) \<le> MAX_STAGED_BLOB_PACK_BYTES"

lemma pack_limits_ok:
  assumes "pack_limits c = Inr (Some l)"
  shows "limits_ok l"
proof -
  have l: "max_items l = min (unat (cap_max_batch_items c)) MAX_STAGED_BLOB_PACK_ITEMS"
    "max_bytes l = min (cap_max_pack_bytes c) (word_of_nat MAX_STAGED_BLOB_PACK_BYTES)"
    "cap_max_batch_items c \<noteq> 0" "cap_max_pack_bytes c \<noteq> 0"
    using assms by (auto simp: pack_limits_def split: if_splits)
  have w: "unat (word_of_nat MAX_STAGED_BLOB_PACK_BYTES :: u64) = MAX_STAGED_BLOB_PACK_BYTES"
    by (rule unat_of_nat_64) (simp add: MAX_STAGED_BLOB_PACK_BYTES_def)
  have "unat (max_bytes l) = min (unat (cap_max_pack_bytes c)) MAX_STAGED_BLOB_PACK_BYTES"
    unfolding l(2) using w by (auto simp: min_def word_le_nat_alt)
  moreover have "0 < unat (cap_max_batch_items c)" "0 < unat (cap_max_pack_bytes c)"
    using l(3,4) by (simp_all add: unat_gt_0)
  ultimately show ?thesis
    using l(1) by (simp add: limits_ok_def MAX_STAGED_BLOB_PACK_BYTES_def MAX_STAGED_BLOB_PACK_ITEMS_def)
qed

lemma limits_ok_bytes: "limits_ok l \<Longrightarrow> max_bytes l \<noteq> - 1"
proof
  assume "limits_ok l" "max_bytes l = - 1"
  moreover have "unat (- 1 :: u64) = 2 ^ 64 - 1" by (simp add: unsigned_minus_1_eq_mask mask_eq_exp_minus_1)
  ultimately show False by (simp add: limits_ok_def MAX_STAGED_BLOB_PACK_BYTES_def)
qed

text \<open>
  What a request asks for: different, valid digests out of those wanted, few and small enough,
  and some whenever one fits.
\<close>

definition chunk_ok :: "cache_digest list \<Rightarrow> blob_pack_limits \<Rightarrow> cache_digest list \<Rightarrow> bool" where
  "chunk_ok ds l r \<longleftrightarrow>
     distinct r \<and> set r \<subseteq> {d \<in> set ds. valid_digest d}
     \<and> length r \<le> max_items l \<and> sizes r \<le> unat (max_bytes l)
     \<and> ((\<exists>d\<in>set ds. cd_size d \<le> max_bytes l) \<longrightarrow> r \<noteq> [])"

lemma blob_pack_chunk_ok:
  assumes "limits_ok l" and r: "blob_pack_chunk ds l = Inr r"
  shows "chunk_ok ds l r"
  unfolding chunk_ok_def
proof (intro conjI impI)
  have b: "0 < max_items l" "max_bytes l \<noteq> - 1"
    using assms(1) limits_ok_bytes [OF assms(1)] by (simp_all add: limits_ok_def)
  have "distinct r \<and> set r \<subseteq> {d \<in> set ds. valid_digest d} \<and> length r \<le> max_items l \<and> sizes r \<le> unat (max_bytes l)"
    using chunk_loop_bounds [OF r [unfolded blob_pack_chunk_def]] b by (simp add: sizes_def)
  then show "distinct r" "set r \<subseteq> {d \<in> set ds. valid_digest d}" "length r \<le> max_items l"
    "sizes r \<le> unat (max_bytes l)" by blast+
  assume "\<exists>d\<in>set ds. cd_size d \<le> max_bytes l"
  then obtain d where "d \<in> set ds" "cd_size d \<le> max_bytes l" by blast
  with chunk_loop_progress [OF r [unfolded blob_pack_chunk_def]] b show "r \<noteq> []" by blast
qed

section \<open>The format of a response\<close>

fun be_bytes :: "nat \<Rightarrow> nat \<Rightarrow> byte list" where
  "be_bytes 0 n = []"
| "be_bytes (Suc k) n = be_bytes k (n div 256) @ [word_of_nat n]"

lemma length_be_bytes [simp]: "length (be_bytes k n) = k"
  by (induction k arbitrary: n) simp_all

lemma be_value_snoc [simp]: "be_value n (bs @ [b]) = be_value n bs * 256 + unat b"
  by (induction bs arbitrary: n) simp_all

lemma unat_byte: "unat (b :: byte) < 256"
  using unsigned_less [of b] by simp

lemma be_value_less: "be_value 0 bs < 256 ^ length bs"
proof (induction bs rule: rev_induct)
  case (snoc b bs)
  then have "be_value 0 bs * 256 + 256 \<le> 256 ^ length bs * 256" by linarith
  with unat_byte [of b] show ?case by simp
qed simp

lemma be_value_be_bytes: "be_value 0 (be_bytes k n) = n mod 256 ^ k"
proof (induction k arbitrary: n)
  case (Suc k)
  have "unat (word_of_nat n :: byte) = n mod 256" by (simp add: unat_of_nat)
  with Suc show ?case by (simp add: mod_mult2_eq)
qed simp

lemma be_bytes_be_value: "be_bytes (length bs) (be_value 0 bs) = bs"
proof (induction bs rule: rev_induct)
  case (snoc b bs)
  have "(256 :: byte) = 0" by simp
  moreover have "(word_of_nat (be_value 0 bs * 256 + unat b) :: byte) = word_of_nat (be_value 0 bs) * 256 + b"
    by simp
  ultimately have "(word_of_nat (be_value 0 bs * 256 + unat b) :: byte) = b"
    by (metis add_0_left mult_zero_right)
  with snoc unat_byte [of b] show ?case by simp
qed simp

text \<open>A blob in a response: the byte of the algorithm, the raw hash, and the content.\<close>

type_synonym framed_blob = "byte \<times> byte list \<times> byte list"

definition frame :: "framed_blob \<Rightarrow> byte list" where
  "frame p = (case p of (b, raw, content) \<Rightarrow> b # raw @ be_bytes 8 (length content) @ content)"

definition content_of :: "framed_blob \<Rightarrow> byte list" where
  "content_of p = snd (snd p)"

definition digest_of :: "(byte list \<Rightarrow> ustr) \<Rightarrow> framed_blob \<Rightarrow> cache_digest" where
  "digest_of hex p = (case p of (b, raw, content) \<Rightarrow>
     \<lparr> cd_algorithm = (case pack_algorithm b of Some a \<Rightarrow> a | None \<Rightarrow> []), cd_hash = hex raw,
       cd_size = word_of_nat (length content) \<rparr>)"

definition genuine ::
    "(byte list \<Rightarrow> ustr) \<Rightarrow> (ustr \<Rightarrow> byte list \<Rightarrow> ustr) \<Rightarrow> cache_digest set \<Rightarrow> framed_blob \<Rightarrow> bool" where
  "genuine hex hash requested p \<longleftrightarrow>
     pack_algorithm (fst p) \<noteq> None \<and> length (fst (snd p)) = 32 \<and> length (content_of p) < 2 ^ 64
     \<and> digest_of hex p \<in> requested
     \<and> hash (cd_algorithm (digest_of hex p)) (content_of p) = cd_hash (digest_of hex p)"

definition pack_ok ::
    "(byte list \<Rightarrow> ustr) \<Rightarrow> (ustr \<Rightarrow> byte list \<Rightarrow> ustr) \<Rightarrow> cache_digest set \<Rightarrow> framed_blob list \<Rightarrow> bool" where
  "pack_ok hex hash requested ps \<longleftrightarrow>
     (\<forall>p\<in>set ps. genuine hex hash requested p) \<and> distinct (map (digest_of hex) ps)"

definition agrees :: "pack_metadata \<Rightarrow> pack_stats \<Rightarrow> bool" where
  "agrees md st \<longleftrightarrow> md_content_length md \<in> {None, Some (st_framed_bytes st)}
     \<and> md_blob_count md \<in> {None, Some (st_blob_count st)}
     \<and> md_payload_bytes md \<in> {None, Some (st_payload_bytes st)}"

definition payload_of :: "framed_blob list \<Rightarrow> nat" where
  "payload_of ps = (\<Sum>p\<leftarrow>ps. length (content_of p))"

lemma metadata_validate_iff: "metadata_validate md st = Inr st' \<longleftrightarrow> st' = st \<and> agrees md st"
  by (cases md; cases st) (auto simp: metadata_validate_def agrees_def split: option.splits)

lemma metadata_validate_ok: "agrees md st \<Longrightarrow> metadata_validate md st = Inr st"
  by (simp add: metadata_validate_iff)

lemma read_header_iff:
  "read_header hex err b bytes = Inr (d, rest) \<longleftrightarrow>
     (\<exists>raw n a. bytes = raw @ be_bytes 8 n @ rest \<and> length raw = 32 \<and> n < 2 ^ 64 \<and> pack_algorithm b = Some a
        \<and> d = \<lparr> cd_algorithm = a, cd_hash = hex raw, cd_size = word_of_nat n \<rparr>)" (is "?l = ?r")
proof
  assume l: ?l
  then obtain a where a: "pack_algorithm b = Some a" by (auto simp: read_header_def split: option.splits)
  let ?raw = "take 32 bytes" and ?sz = "take 8 (drop 32 bytes)"
  have len: "32 \<le> length bytes" "8 \<le> length (drop 32 bytes)"
    and rest: "rest = drop 8 (drop 32 bytes)"
    and d: "d = \<lparr> cd_algorithm = a, cd_hash = hex ?raw, cd_size = from_be_bytes ?sz \<rparr>"
    using l a by (auto simp: read_header_def read_exact_def split: if_splits)
  have sz: "length ?sz = 8" using len by simp
  then have "be_value 0 ?sz < 2 ^ 64" using be_value_less [of ?sz] by simp
  moreover have "be_bytes 8 (be_value 0 ?sz) = ?sz" using be_bytes_be_value [of ?sz] sz by simp
  moreover have "bytes = ?raw @ ?sz @ rest" unfolding rest by (simp only: append_take_drop_id)
  ultimately show ?r using a d len(1)
    by (intro exI [of _ ?raw] exI [of _ "be_value 0 ?sz"] exI [of _ a]) (simp add: from_be_bytes_def)
next
  assume ?r
  then obtain raw n a where "bytes = raw @ be_bytes 8 n @ rest" "length raw = 32" "n < 2 ^ 64"
    "pack_algorithm b = Some a" "d = \<lparr> cd_algorithm = a, cd_hash = hex raw, cd_size = word_of_nat n \<rparr>" by blast
  then show ?l by (simp add: read_header_def read_exact_def from_be_bytes_def be_value_be_bytes)
qed

lemma account_blob_iff:
  assumes "unat payload \<le> unat framed"
  shows "account_blob requested seen d payload framed = Inr (payload', framed') \<longleftrightarrow>
    d \<in> requested \<and> d \<notin> seen \<and> unat framed + 41 + unat (cd_size d) < 2 ^ 64
    \<and> payload' = payload + cd_size d \<and> framed' = framed + BLOB_PACK_HEADER_BYTES + cd_size d"
proof -
  have h: "unat BLOB_PACK_HEADER_BYTES = 41" by (simp add: BLOB_PACK_HEADER_BYTES_def)
  have "checked_add payload (cd_size d) = Some (payload + cd_size d)"
    if "unat framed + 41 + unat (cd_size d) < 2 ^ 64"
    using that assms by (simp add: checked_add_def)
  moreover have "Option.bind (checked_add framed BLOB_PACK_HEADER_BYTES) (\<lambda>n. checked_add n (cd_size d)) =
      (if unat framed + 41 + unat (cd_size d) < 2 ^ 64
       then Some (framed + BLOB_PACK_HEADER_BYTES + cd_size d) else None)"
    using unat_add_64 [of framed BLOB_PACK_HEADER_BYTES] by (auto simp: checked_add_def h)
  ultimately show ?thesis by (auto simp: account_blob_def)
qed

lemma frame_length: "length (fst (snd p)) = 32 \<Longrightarrow> length (frame p) = 41 + length (content_of p)"
  by (cases p) (simp add: frame_def content_of_def)

lemma payload_le: "\<forall>p\<in>set ps. length (fst (snd p)) = 32 \<Longrightarrow> payload_of ps \<le> length (concat (map frame ps))"
  by (induction ps) (simp_all add: payload_of_def frame_length)

lemma frames_length: "length ps \<le> length (concat (map frame ps))"
proof (induction ps)
  case (Cons p ps)
  then show ?case by (cases p) (simp add: frame_def)
qed simp

lemma step_framed: "n < 2 ^ 64 \<Longrightarrow> framed + BLOB_PACK_HEADER_BYTES + word_of_nat n = framed + word_of_nat (41 + n)"
  by (simp add: BLOB_PACK_HEADER_BYTES_def)

lemma sum_framed:
  assumes "unat (framed :: u64) + n < 2 ^ 64"
  shows "unat (framed + word_of_nat n) = unat framed + n"
proof -
  have "unat (word_of_nat n :: u64) = n" using assms by (intro unat_of_nat_64) simp
  with assms unat_add_64 [of framed "word_of_nat n"] show ?thesis by simp
qed

lemma sum_payload:
  assumes "unat (payload :: u64) \<le> unat (framed :: u64)" and "unat framed + (41 + n) < 2 ^ 64"
  shows "unat (payload + word_of_nat n) = unat payload + n"
  using assms by (intro sum_framed) simp

text \<open>One blob, read and checked.\<close>

lemma decode_one:
  fixes err :: "'e option"
  assumes "unat payload \<le> unat framed"
  shows "decode_loop hex hash requested err (b # bytes) seen blobs payload framed = Inr r \<longleftrightarrow>
    (\<exists>raw content rest. bytes = raw @ be_bytes 8 (length content) @ content @ rest
       \<and> genuine hex hash requested (b, raw, content) \<and> digest_of hex (b, raw, content) \<notin> seen
       \<and> unat framed + (41 + length content) < 2 ^ 64
       \<and> decode_loop hex hash requested err rest (insert (digest_of hex (b, raw, content)) seen)
           (blobs @ [(digest_of hex (b, raw, content), content)]) (payload + word_of_nat (length content))
           (framed + word_of_nat (41 + length content)) = Inr r)" (is "?l \<longleftrightarrow> ?r")
proof
  assume l: ?l
  obtain d bytes1 where h: "read_header hex err b bytes = Inr (d, bytes1)"
    using l by (cases "read_header hex err b bytes") auto
  obtain payload1 framed1 where ac: "account_blob requested seen d payload framed =
      (Inr (payload1, framed1) :: 'e cache_error + u64 \<times> u64)"
    using l h by (cases "account_blob requested seen d payload framed :: 'e cache_error + u64 \<times> u64") auto
  obtain content rest where rb: "read_blob err (cd_size d) bytes1 = Inr (content, rest)"
    using l h ac by (cases "read_blob err (cd_size d) bytes1") auto
  have hs: "hash (cd_algorithm d) content = cd_hash d"
    and rec: "decode_loop hex hash requested err rest (insert d seen) (blobs @ [(d, content)]) payload1 framed1 = Inr r"
    using l h ac rb by (auto split: if_splits)
  from h obtain raw n a where n: "bytes = raw @ be_bytes 8 n @ bytes1" "length raw = 32" "n < 2 ^ 64"
    "pack_algorithm b = Some a" "d = \<lparr> cd_algorithm = a, cd_hash = hex raw, cd_size = word_of_nat n \<rparr>"
    unfolding read_header_iff by blast
  have u: "unat (cd_size d) = n" using n(3,5) by (simp add: unat_of_nat_64)
  have c: "bytes1 = content @ rest" "length content = n"
    using rb u by (auto simp: read_blob_def split: if_splits)
  have d: "d = digest_of hex (b, raw, content)" using n(4,5) c(2) by (simp add: digest_of_def)
  note ac' = ac [unfolded account_blob_iff [OF assms]]
  have g: "genuine hex hash requested (b, raw, content)"
    using n(2,3,4) c(2) ac' hs d by (auto simp: genuine_def content_of_def)
  have "payload1 = payload + word_of_nat (length content)" "framed1 = framed + word_of_nat (41 + length content)"
    "unat framed + (41 + length content) < 2 ^ 64" "d \<notin> seen"
    using ac' u c(2) n(3,5) step_framed [OF n(3)] by (auto simp: add.assoc)
  with n(1) c g d rec show ?r by (intro exI [of _ raw] exI [of _ content] exI [of _ rest]) simp
next
  assume ?r
  then obtain raw content rest where r: "bytes = raw @ be_bytes 8 (length content) @ content @ rest"
    "genuine hex hash requested (b, raw, content)" "digest_of hex (b, raw, content) \<notin> seen"
    "unat framed + (41 + length content) < 2 ^ 64"
    "decode_loop hex hash requested err rest (insert (digest_of hex (b, raw, content)) seen)
       (blobs @ [(digest_of hex (b, raw, content), content)]) (payload + word_of_nat (length content))
       (framed + word_of_nat (41 + length content)) = Inr r" by blast
  let ?d = "digest_of hex (b, raw, content)"
  obtain a where a: "pack_algorithm b = Some a" and len: "length raw = 32" "length content < 2 ^ 64"
    and req: "?d \<in> requested" and hs: "hash (cd_algorithm ?d) content = cd_hash ?d"
    using r(2) by (auto simp: genuine_def content_of_def)
  have d: "?d = \<lparr> cd_algorithm = a, cd_hash = hex raw, cd_size = word_of_nat (length content) \<rparr>"
    using a by (simp add: digest_of_def)
  have h: "read_header hex err b bytes = Inr (?d, content @ rest)"
    unfolding read_header_iff using r(1) a len d by (intro exI [of _ raw] exI [of _ "length content"] exI [of _ a]) simp
  have u: "unat (cd_size ?d) = length content" using len(2) by (simp add: d unat_of_nat_64)
  have "account_blob requested seen ?d payload framed =
      (Inr (payload + word_of_nat (length content), framed + word_of_nat (41 + length content)) :: 'e cache_error + _)"
    unfolding account_blob_iff [OF assms] using req r(3,4) u step_framed [OF len(2)] by (simp add: d add.assoc)
  moreover have "read_blob err (cd_size ?d) (content @ rest) = Inr (content, rest)" using u by (simp add: read_blob_def)
  ultimately show ?l using h hs r(5) by simp
qed

lemma decode_loop_iff:
  assumes "unat payload \<le> unat framed"
  shows "decode_loop hex hash requested err bytes seen blobs payload framed = Inr (blobs', payload', framed') \<longleftrightarrow>
    err = None \<and> (\<exists>ps. bytes = concat (map frame ps) \<and> pack_ok hex hash requested ps
       \<and> digest_of hex ` set ps \<inter> seen = {} \<and> unat framed + length bytes < 2 ^ 64
       \<and> blobs' = blobs @ map (\<lambda>p. (digest_of hex p, content_of p)) ps
       \<and> payload' = payload + word_of_nat (payload_of ps) \<and> framed' = framed + word_of_nat (length bytes))"
  using assms
proof (induction "length bytes" arbitrary: bytes seen blobs payload framed rule: less_induct)
  case less
  show ?case
  proof (cases bytes)
    case Nil
    have "frame p \<noteq> []" for p by (simp add: frame_def split: prod.splits)
    then have "[] = concat (map frame ps) \<longleftrightarrow> ps = []" for ps by (cases ps) auto
    with Nil unat_64 [of framed] show ?thesis
      by (cases err) (auto simp: pack_ok_def payload_of_def)
  next
    case (Cons b bs)
    have fr: "frame (b, raw, content) = b # raw @ be_bytes 8 (length content) @ content" for raw content
      by (simp add: frame_def)
    show ?thesis
      unfolding Cons decode_one [OF less.prems]
    proof (intro iffI; elim exE conjE)
      fix raw content rest :: "byte list"
      let ?p = "(b, raw, content)"
      assume a: "bs = raw @ be_bytes 8 (length content) @ content @ rest" "genuine hex hash requested ?p"
        "digest_of hex ?p \<notin> seen" "unat framed + (41 + length content) < 2 ^ 64"
        "decode_loop hex hash requested err rest (insert (digest_of hex ?p) seen)
           (blobs @ [(digest_of hex ?p, content)]) (payload + word_of_nat (length content))
           (framed + word_of_nat (41 + length content)) = Inr (blobs', payload', framed')"
      have raw: "length raw = 32" using a(2) by (simp add: genuine_def)
      have len: "length rest < length bytes" "length (b # bs) = 41 + length content + length rest"
        using a(1) Cons raw by simp_all
      have f: "unat (framed + word_of_nat (41 + length content)) = unat framed + (41 + length content)"
        using sum_framed [OF a(4)] by blast
      have p: "unat (payload + word_of_nat (length content)) \<le> unat (framed + word_of_nat (41 + length content))"
        using sum_payload [OF less.prems a(4)] f less.prems by simp
      from a(5) [unfolded less.hyps [OF len(1) p]] obtain ps where e: "err = None"
        and ps: "rest = concat (map frame ps)" "pack_ok hex hash requested ps"
          "digest_of hex ` set ps \<inter> insert (digest_of hex ?p) seen = {}"
          "unat (framed + word_of_nat (41 + length content)) + length rest < 2 ^ 64"
          "blobs' = (blobs @ [(digest_of hex ?p, content)]) @ map (\<lambda>p. (digest_of hex p, content_of p)) ps"
          "payload' = payload + word_of_nat (length content) + word_of_nat (payload_of ps)"
          "framed' = framed + word_of_nat (41 + length content) + word_of_nat (length rest)" by blast
      have "b # bs = concat (map frame (?p # ps))" using a(1) ps(1) fr by simp
      moreover have "pack_ok hex hash requested (?p # ps)" using ps(2,3) a(2) unfolding pack_ok_def by auto
      moreover have "digest_of hex ` set (?p # ps) \<inter> seen = {}" using ps(3) a(3) by auto
      moreover have "unat framed + length (b # bs) < 2 ^ 64" using ps(4) f len(2) by simp
      moreover have "blobs' = blobs @ map (\<lambda>p. (digest_of hex p, content_of p)) (?p # ps)"
        using ps(5) by (simp add: content_of_def)
      moreover have "payload' = payload + word_of_nat (payload_of (?p # ps))"
        using ps(6) by (simp add: payload_of_def content_of_def add.assoc)
      moreover have "framed' = framed + word_of_nat (length (b # bs))"
        unfolding len(2) ps(7) by (simp add: add.assoc)
      ultimately show "err = None \<and> (\<exists>ps. b # bs = concat (map frame ps) \<and> pack_ok hex hash requested ps
         \<and> digest_of hex ` set ps \<inter> seen = {} \<and> unat framed + length (b # bs) < 2 ^ 64
         \<and> blobs' = blobs @ map (\<lambda>p. (digest_of hex p, content_of p)) ps
         \<and> payload' = payload + word_of_nat (payload_of ps) \<and> framed' = framed + word_of_nat (length (b # bs)))"
        using e by blast
    next
      fix qs :: "framed_blob list"
      assume q: "err = None" "b # bs = concat (map frame qs)" "pack_ok hex hash requested qs"
        "digest_of hex ` set qs \<inter> seen = {}" "unat framed + length (b # bs) < 2 ^ 64"
        "blobs' = blobs @ map (\<lambda>p. (digest_of hex p, content_of p)) qs"
        "payload' = payload + word_of_nat (payload_of qs)" "framed' = framed + word_of_nat (length (b # bs))"
      obtain p ps where qs: "qs = p # ps" using q(2) by (cases qs) auto
      obtain b' raw content where p': "p = (b', raw, content)" by (metis prod_cases3)
      let ?p = "(b, raw, content)" and ?rest = "concat (map frame ps)"
      have b: "b' = b" and bs: "bs = raw @ be_bytes 8 (length content) @ content @ ?rest"
        using q(2) unfolding qs p' by (simp_all add: frame_def)
      note qs = qs [unfolded p' b]
      have g: "genuine hex hash requested ?p" using q(3) by (simp add: qs pack_ok_def)
      then have raw: "length raw = 32" by (simp add: genuine_def)
      have len: "length ?rest < length bytes" "length (b # bs) = 41 + length content + length ?rest"
        using bs Cons raw by simp_all
      have lt: "unat framed + (41 + length content) < 2 ^ 64" using q(5) len(2) by simp
      have f: "unat (framed + word_of_nat (41 + length content)) = unat framed + (41 + length content)"
        using sum_framed [OF lt] by blast
      have p: "unat (payload + word_of_nat (length content)) \<le> unat (framed + word_of_nat (41 + length content))"
        using sum_payload [OF less.prems lt] f less.prems by simp
      have "decode_loop hex hash requested err ?rest (insert (digest_of hex ?p) seen)
           (blobs @ [(digest_of hex ?p, content)]) (payload + word_of_nat (length content))
           (framed + word_of_nat (41 + length content)) = Inr (blobs', payload', framed')"
        unfolding less.hyps [OF len(1) p]
      proof (intro conjI exI [of _ ps])
        show "pack_ok hex hash requested ps" using q(3) by (simp add: qs pack_ok_def)
        show "digest_of hex ` set ps \<inter> insert (digest_of hex ?p) seen = {}"
          using q(3,4) unfolding qs pack_ok_def by auto
        show "unat (framed + word_of_nat (41 + length content)) + length ?rest < 2 ^ 64"
          using q(5) len(2) f by simp
        show "blobs' = (blobs @ [(digest_of hex ?p, content)]) @ map (\<lambda>p. (digest_of hex p, content_of p)) ps"
          using q(6) by (simp add: qs content_of_def)
        show "payload' = payload + word_of_nat (length content) + word_of_nat (payload_of ps)"
          using q(7) by (simp add: qs payload_of_def content_of_def add.assoc)
        show "framed' = framed + word_of_nat (41 + length content) + word_of_nat (length ?rest)"
          unfolding q(8) len(2) by (simp add: add.assoc)
      qed (simp_all add: q(1))
      moreover have "digest_of hex ?p \<notin> seen" using q(4) by (auto simp: qs)
      ultimately show "\<exists>raw content rest. bs = raw @ be_bytes 8 (length content) @ content @ rest
       \<and> genuine hex hash requested (b, raw, content) \<and> digest_of hex (b, raw, content) \<notin> seen
       \<and> unat framed + (41 + length content) < 2 ^ 64
       \<and> decode_loop hex hash requested err rest (insert (digest_of hex (b, raw, content)) seen)
           (blobs @ [(digest_of hex (b, raw, content), content)]) (payload + word_of_nat (length content))
           (framed + word_of_nat (41 + length content)) = Inr (blobs', payload', framed')"
        using bs g lt by blast
    qed
  qed
qed

lemma decode_blob_pack_iff:
  "decode_blob_pack hex hash md bytes err requested = Inr (blobs, stats) \<longleftrightarrow>
     err = None
     \<and> (\<exists>ps. bytes = BLOB_PACK_MAGIC @ concat (map frame ps) \<and> pack_ok hex hash (set requested) ps
          \<and> length bytes < 2 ^ 64
          \<and> blobs = map (\<lambda>p. (digest_of hex p, content_of p)) ps
          \<and> stats = \<lparr> st_blob_count = word_of_nat (length ps), st_payload_bytes = word_of_nat (payload_of ps),
                      st_framed_bytes = word_of_nat (length bytes) \<rparr>
          \<and> agrees md stats)" (is "?l \<longleftrightarrow> ?r")
proof
  have magic: "length BLOB_PACK_MAGIC = 8" by (simp add: BLOB_PACK_MAGIC_def)
  {
    assume l: ?l
    have m: "take 8 bytes = BLOB_PACK_MAGIC" "8 \<le> length bytes"
      using l by (auto simp: decode_blob_pack_def read_exact_def split: if_splits)
    obtain payload framed where
      lp: "decode_loop hex hash (set requested) err (drop 8 bytes) {} [] 0 8 = Inr (blobs, payload, framed)"
      and md: "metadata_validate md \<lparr> st_blob_count = (if length blobs < 2 ^ 64 then word_of_nat (length blobs) else - 1),
            st_payload_bytes = payload, st_framed_bytes = framed \<rparr> = (Inr stats :: 'a cache_error + pack_stats)"
      using l m by (auto simp: decode_blob_pack_def read_exact_def split: sum.splits prod.splits)
    have z: "unat (0 :: u64) \<le> unat (8 :: u64)" by simp
    obtain ps where ps: "err = None" "drop 8 bytes = concat (map frame ps)"
      "pack_ok hex hash (set requested) ps" "unat (8 :: u64) + length (drop 8 bytes) < 2 ^ 64"
      "blobs = map (\<lambda>p. (digest_of hex p, content_of p)) ps" "payload = word_of_nat (payload_of ps)"
      "framed = 8 + word_of_nat (length (drop 8 bytes))"
      using lp unfolding decode_loop_iff [OF z] by (elim conjE exE) (rule that, simp_all)
    have b: "bytes = BLOB_PACK_MAGIC @ concat (map frame ps)"
      using append_take_drop_id [of 8 bytes] m(1) ps(2) by simp
    have lt: "length bytes < 2 ^ 64" using ps(4) m(2) by simp
    have "length ps < 2 ^ 64" using frames_length [of ps] lt b by simp
    moreover have "framed = word_of_nat (length bytes)" using ps(7) m(2) by simp
    ultimately have "stats = \<lparr> st_blob_count = word_of_nat (length ps), st_payload_bytes = word_of_nat (payload_of ps),
                      st_framed_bytes = word_of_nat (length bytes) \<rparr>" "agrees md stats"
      using md ps(5,6) by (simp_all add: metadata_validate_iff)
    then show ?r using ps b lt by blast
  }
  assume ?r
  then obtain ps where ps: "err = None" "bytes = BLOB_PACK_MAGIC @ concat (map frame ps)"
      "pack_ok hex hash (set requested) ps" "length bytes < 2 ^ 64"
      "blobs = map (\<lambda>p. (digest_of hex p, content_of p)) ps"
      "stats = \<lparr> st_blob_count = word_of_nat (length ps), st_payload_bytes = word_of_nat (payload_of ps),
                  st_framed_bytes = word_of_nat (length bytes) \<rparr>" "agrees md stats" by blast
  have z: "unat (0 :: u64) \<le> unat (8 :: u64)" by simp
  let ?rest = "concat (map frame ps)"
  have len: "length bytes = 8 + length ?rest" using ps(2) magic by simp
  have "decode_loop hex hash (set requested) err ?rest {} [] 0 8 =
      Inr (blobs, word_of_nat (payload_of ps), word_of_nat (length bytes))"
    unfolding decode_loop_iff [OF z] using ps len by (intro conjI exI [of _ ps]) simp_all
  moreover have "length blobs < 2 ^ 64" using frames_length [of ps] len ps(4,5) by simp
  moreover have "length blobs = length ps" using ps(5) by simp
  ultimately show ?l using ps(2,6,7) magic
    by (simp add: decode_blob_pack_def read_exact_def metadata_validate_ok)
qed

text \<open>
  \<^bold>\<open>C32.\<close> Decoding a blob pack succeeds exactly on the well-formed responses: the magic bytes
  followed by framed blobs, whose digests were requested and differ, and whose contents have
  the announced length and hash, with a total length below \<open>2\<^sup>6\<^sup>4\<close> and no transport error, and only
  if the response headers agree with what was decoded.  The result is the blobs in order,
  their number and their byte counts.
\<close>

theorem decode_blob_pack_exact:
  "decode_blob_pack hex hash md bytes err requested = Inr (blobs, stats) \<longleftrightarrow>
     err = None
     \<and> (\<exists>ps. bytes = BLOB_PACK_MAGIC @ concat (map frame ps) \<and> pack_ok hex hash (set requested) ps
          \<and> length bytes < 2 ^ 64
          \<and> blobs = map (\<lambda>p. (digest_of hex p, content_of p)) ps
          \<and> stats = \<lparr> st_blob_count = word_of_nat (length ps), st_payload_bytes = word_of_nat (payload_of ps),
                      st_framed_bytes = word_of_nat (length bytes) \<rparr>
          \<and> agrees md stats)"
  by (rule decode_blob_pack_iff)

end
