(* ===== verification/Cache_Client_Correct.thy ===== *)
theory Cache_Client_Correct
  imports Cache_Client Blob_Pack_Correct
begin

text \<open>
  What the client of the remote cache promises: its state stays well formed and no credential
  leaves over an insecure connection, what it returns is what was asked for and has the
  announced hash, and every operation sends a bounded number of requests.
\<close>

section \<open>The invariant of the client\<close>

definition secure_url :: "url \<Rightarrow> bool" where
  "secure_url u \<longleftrightarrow> url_scheme u = lit ''https'' \<or> (url_scheme u = lit ''http'' \<and> host_is_loopback u)"

definition same_origin :: "url \<Rightarrow> url \<Rightarrow> bool" where
  "same_origin a b \<longleftrightarrow> url_scheme a = url_scheme b \<and> url_host a = url_host b"

text \<open>An authorization is a bearer token that is not blank and a legal header value.\<close>

definition bearer :: "'e world \<Rightarrow> ustr \<Rightarrow> bool" where
  "bearer W a \<longleftrightarrow> (\<exists>t. t \<noteq> [] \<and> a = lit ''Bearer '' @ t) \<and> w_header_value W a"

fun credential_ok :: "'e world \<Rightarrow> url \<Rightarrow> credential \<Rightarrow> bool" where
  "credential_ok W base NoCredential \<longleftrightarrow> True"
| "credential_ok W base (StaticToken a) \<longleftrightarrow> secure_url base \<and> bearer W a"
| "credential_ok W base (TokenFile path) \<longleftrightarrow> secure_url base"
| "credential_ok W base (GithubActions c) \<longleftrightarrow>
     secure_url base \<and> secure_url (oc_request_url c) \<and> bearer W (oc_request_token c)"

definition request_ok :: "'e world \<Rightarrow> credential \<Rightarrow> http_request \<Rightarrow> bool" where
  "request_ok W c rq \<longleftrightarrow>
     (case rq_authorization rq of
        None \<Rightarrow> c = NoCredential
      | Some a \<Rightarrow> c \<noteq> NoCredential \<and> bearer W a \<and> secure_url (rq_url rq))"

definition client_ok :: "'e world \<Rightarrow> url \<Rightarrow> credential \<Rightarrow> client \<Rightarrow> bool" where
  "client_ok W base c s \<longleftrightarrow>
     cl_base_url s = base \<and> cl_credential s = c \<and> credential_ok W base c
     \<and> (\<forall>rq\<in>set (cl_sent s). request_ok W c rq)
     \<and> (\<forall>l. cl_capabilities s = Some (Some l) \<longrightarrow> limits_ok l)
     \<and> (\<forall>t. cl_oidc s = Some t \<longrightarrow> bearer W (ct_authorization t))"

text \<open>Joining a relative path to the base URL keeps its scheme and its host.\<close>

definition join_ok :: "'e world \<Rightarrow> url \<Rightarrow> bool" where
  "join_ok W base \<longleftrightarrow> (\<forall>rest u. w_join W base (lit ''v1/'' @ rest) = Inr u \<longrightarrow> same_origin u base)"

lemma secure_same_origin: "same_origin u v \<Longrightarrow> secure_url u = secure_url v"
  by (simp add: same_origin_def secure_url_def host_is_loopback_def)

lemma authorization_header_bearer: "authorization_header W t = Inr (Some a) \<Longrightarrow> bearer W a"
  by (auto simp: authorization_header_def bearer_def Let_def split: option.splits if_splits)

section \<open>Every operation keeps the invariant\<close>

lemma keeps_case_option [rs_rules]:
  "(x = None \<Longrightarrow> rs_keeps I m Q) \<Longrightarrow> (\<And>v. x = Some v \<Longrightarrow> rs_keeps I (f v) Q)
   \<Longrightarrow> rs_keeps I (case x of None \<Rightarrow> m | Some v \<Rightarrow> f v) Q"
  by (simp split: option.splits)

lemma keeps_lift_any [rs_rules]: "rs_keeps I (rs_lift r) (\<lambda>v. r = Inr v)"
  by (simp add: rs_keeps_def rs_lift_def)

lemma keeps_bind_lift:
  "(\<And>v. r = Inr v \<Longrightarrow> rs_keeps I (f v) Q) \<Longrightarrow> rs_keeps I (rs_bind (rs_lift r) f) Q"
  by (rule rs_keeps_bind [OF keeps_lift_any])

lemma keeps_send:
  assumes "request_ok W c rq"
  shows "rs_keeps (client_ok W base c) (send W rq) (\<lambda>r. True)"
  using assms by (auto simp: rs_keeps_def send_def client_ok_def)

lemma keeps_retry_async:
  "rs_keeps I m Q \<Longrightarrow> rs_keeps I (retry_async W n m) Q"
  unfolding retry_async_def by (rule rs_keeps_retry)

lemma keeps_retry_state:
  "rs_keeps I m Q \<Longrightarrow> rs_keeps I (\<lambda>s. retry_async W (n s) m s) Q"
  "rs_keeps I m Q \<Longrightarrow> rs_keeps I (\<lambda>s. retry_within W (k s) (n s) m s) Q"
  unfolding retry_async_def retry_within_def
  using rs_keeps_retry [of I m Q] unfolding rs_keeps_def by blast+

lemma keeps_tick: "rs_keeps (client_ok W base c) (unix_timestamp W) (\<lambda>_. True)"
  "rs_keeps (client_ok W base c) (read_to_string W path) (\<lambda>_. True)"
  "rs_keeps (client_ok W base c) (read_bytes W path) (\<lambda>_. True)"
  by (auto simp: rs_keeps_def unix_timestamp_def read_to_string_def read_bytes_def client_ok_def)

lemma keeps_oidc_refresh:
  "rs_keeps (client_ok W base (GithubActions oc)) (oidc_refresh W n oc now) (bearer W)"
proof (cases "credential_ok W base (GithubActions oc)")
  case True
  then have rq: "request_ok W (GithubActions oc) (oidc_request oc)"
    by (simp add: request_ok_def oidc_request_def)
  have set: "rs_keeps (client_ok W base (GithubActions oc)) (set_oidc t) (\<lambda>_. True)"
    if "bearer W (ct_authorization t)" for t
    using that by (auto simp: rs_keeps_def set_oidc_def client_ok_def)
  have fetch: "rs_keeps (client_ok W base (GithubActions oc))
      (retry_async W n (rs_bind (send W (oidc_request oc)) (\<lambda>r. rs_bind (rs_lift (error_for_status r)) (\<lambda>r.
         rs_lift (response_json (w_oidc_value W) r))))) (\<lambda>_. True)"
    by (intro keeps_retry_async rs_keeps_bind [OF keeps_send [OF rq]] keeps_bind_lift rs_keeps_lift TrueI)
  show ?thesis unfolding oidc_refresh_def
    by (intro rs_keeps_bind [OF rs_keeps_map_err [OF fetch]] keeps_bind_lift rs_keeps_bind [OF set] rs_rules)
      (auto dest: authorization_header_bearer)
next
  case False
  then have "\<not> client_ok W base (GithubActions oc) s" for s by (simp add: client_ok_def del: credential_ok.simps)
  then show ?thesis by (simp add: rs_keeps_def)
qed

lemma keeps_authorization:
  "rs_keeps (client_ok W base c) (authorization W)
     (\<lambda>a. case a of None \<Rightarrow> c = NoCredential | Some a \<Rightarrow> c \<noteq> NoCredential \<and> bearer W a \<and> secure_url base)"
  (is "rs_keeps ?I _ ?Q")
proof -
  have from_file: "rs_keeps ?I (token_file_authorization W path) (bearer W)" for path
    unfolding token_file_authorization_def
    by (auto intro!: rs_rules keeps_bind_lift rs_keeps_bind [OF keeps_tick(2)] dest: authorization_header_bearer)
  have oidc: "rs_keeps ?I (oidc_authorization W oc) (bearer W)" if oc: "c = GithubActions oc" for oc
    unfolding oidc_authorization_def
  proof (intro rs_keeps_bind [OF keeps_tick(1)] rs_keeps_at)
    fix now s
    assume s: "?I s"
    have cached: "rs_keeps ?I (rs_return (ct_authorization token)) (bearer W)" if "cl_oidc s = Some token" for token
      by (rule rs_keeps_return) (use s that in \<open>simp add: client_ok_def\<close>)
    note refresh = keeps_oidc_refresh [of W base oc "cl_retries s" now, folded oc]
    show "\<exists>n. rs_keeps ?I n (bearer W) \<and> (case cl_oidc s of
          Some token \<Rightarrow> if ct_expires_at token > saturating_add now REFRESH_LEEWAY_SECONDS
            then (Inr (ct_authorization token), s) else oidc_refresh W (cl_retries s) oc now s
        | None \<Rightarrow> oidc_refresh W (cl_retries s) oc now s) = n s"
    proof (cases "cl_oidc s")
      case (Some token)
      with cached [OF Some] refresh show ?thesis by (auto simp: rs_return_def)
    qed (use refresh in auto)
  qed
  show ?thesis
  proof (rule rs_keeps_at)
    fix s
    assume s: "?I s"
    have c: "cl_credential s = c" and ok: "credential_ok W base c" using s by (simp_all add: client_ok_def)
    have "rs_keeps ?I (rs_bind (token_file_authorization W path) (\<lambda>a. rs_return (Some a))) ?Q"
      if "c = TokenFile path" for path
      by (rule rs_keeps_bind [OF from_file]) (use ok that in \<open>auto intro!: rs_rules\<close>)
    moreover have "rs_keeps ?I (rs_bind (oidc_authorization W oc) (\<lambda>a. rs_return (Some a))) ?Q"
      if "c = GithubActions oc" for oc
      by (rule rs_keeps_bind [OF oidc [OF that]]) (use ok that in \<open>auto intro!: rs_rules\<close>)
    moreover have "rs_keeps ?I (rs_return (Some a)) ?Q" if "c = StaticToken a" for a
      by (rule rs_keeps_return) (use ok that in auto)
    moreover have "rs_keeps ?I (rs_return None) ?Q" if "c = NoCredential"
      by (rule rs_keeps_return) (use that in auto)
    ultimately show "\<exists>n. rs_keeps ?I n ?Q \<and> authorization W s = n s"
      unfolding authorization_def c by (cases c) (rule exI, rule conjI [OF _ refl], simp)+
  qed
qed

lemma keeps_request:
  assumes "same_origin u base"
  shows "rs_keeps (client_ok W base c) (request W method u media) (request_ok W c)"
  unfolding request_def
  by (rule rs_keeps_bind [OF keeps_authorization])
    (use secure_same_origin [OF assms] in \<open>auto simp: rs_keeps_def rs_return_def request_ok_def split: option.splits\<close>)

lemma request_ok_update [simp]:
  "request_ok W c (rq\<lparr>rq_content_type := x\<rparr>) = request_ok W c rq"
  "request_ok W c (rq\<lparr>rq_content_length := y\<rparr>) = request_ok W c rq"
  "request_ok W c (rq\<lparr>rq_if_none_match := z\<rparr>) = request_ok W c rq"
  "request_ok W c (rq\<lparr>rq_body := b\<rparr>) = request_ok W c rq"
  by (simp_all add: request_ok_def split: option.splits)

lemma protocol_prefix: "lit ''v'' @ decimal (unat PROTOCOL_VERSION) @ lit ''/'' @ r = lit ''v1/'' @ r"
  by (simp add: PROTOCOL_VERSION_def decimal.simps lit_def)

lemma keeps_endpoints:
  assumes "join_ok W base"
  shows "rs_keeps (client_ok W base c) (join_base W (digest_path kind d)) (\<lambda>u. same_origin u base)"
    "rs_keeps (client_ok W base c) (join_base W (fixed_path name)) (\<lambda>u. same_origin u base)"
  using assms
  by (auto simp: rs_keeps_def join_base_def digest_path_def fixed_path_def protocol_prefix join_ok_def client_ok_def)

lemma keeps_digest_endpoints:
  assumes "join_ok W base"
  shows "rs_keeps (client_ok W base c) (action_result_endpoint W d) (\<lambda>u. same_origin u base \<and> valid_digest d)"
    "rs_keeps (client_ok W base c) (blob_endpoint W d) (\<lambda>u. same_origin u base \<and> valid_digest d)"
  unfolding action_result_endpoint_def blob_endpoint_def
  by (intro keeps_bind_lift rs_rules rs_keeps_weaken [OF keeps_endpoints(1) [OF assms]];
      simp add: digest_validate_valid)+

lemma keeps_fetch_limits:
  assumes "join_ok W base"
  shows "rs_keeps (client_ok W base c) (fetch_limits W) (\<lambda>l. \<forall>limits. l = Some limits \<longrightarrow> limits_ok limits)"
  unfolding fetch_limits_def capabilities_endpoint_def
  by (intro rs_keeps_bind [OF keeps_endpoints(2) [OF assms]] rs_keeps_bind [OF keeps_request]
      rs_keeps_bind [OF keeps_send] keeps_bind_lift rs_keeps_lift rs_rules)
    (use pack_limits_ok in auto)

lemma keeps_negotiated_limits:
  assumes "join_ok W base"
  shows "rs_keeps (client_ok W base c) (negotiated_limits W) (\<lambda>l. \<forall>limits. l = Some limits \<longrightarrow> limits_ok limits)"
    (is "rs_keeps ?I _ ?Q")
proof -
  have "rs_keeps ?I (set_capabilities l) (\<lambda>_. True)" if "?Q l" for l
    using that by (auto simp: rs_keeps_def set_capabilities_def client_ok_def)
  then have asked: "rs_keeps ?I (rs_bind (fetch_limits W) (\<lambda>l. rs_bind (set_capabilities l) (\<lambda>_. rs_return l))) ?Q"
    by (intro rs_keeps_bind [OF keeps_fetch_limits [OF assms]]) (blast intro: rs_keeps_bind rs_keeps_return)
  show ?thesis
  proof (rule rs_keeps_at)
    fix s
    assume s: "?I s"
    show "\<exists>n. rs_keeps ?I n ?Q \<and> negotiated_limits W s = n s"
    proof (cases "cl_capabilities s")
      case None
      with asked show ?thesis by (auto simp: negotiated_limits_def)
    next
      case (Some l)
      have "rs_keeps ?I (rs_return l) ?Q" by (rule rs_keeps_return) (use s Some in \<open>simp add: client_ok_def\<close>)
      with Some show ?thesis by (intro exI [of _ "rs_return l"]) (simp add: negotiated_limits_def rs_return_def)
    qed
  qed
qed

section \<open>What the operations return\<close>

text \<open>A blob whose content has the length and the hash of its digest.\<close>

definition verified :: "'e world \<Rightarrow> cache_digest \<Rightarrow> byte list \<Rightarrow> bool" where
  "verified W d content \<longleftrightarrow>
     valid_digest d \<and> length content = unat (cd_size d) \<and> cd_hash d = w_hash W (cd_algorithm d) content"

definition pack_answer_ok :: "'e world \<Rightarrow> cache_digest list \<Rightarrow> remote_blob_pack \<Rightarrow> bool" where
  "pack_answer_ok W ds p \<longleftrightarrow>
     (\<exists>l. limits_ok l \<and> chunk_ok ds l (bp_requested p))
     \<and> (\<forall>d content. (d, content) \<in> set (bp_blobs p) \<longrightarrow> d \<in> set (bp_requested p) \<and> verified W d content)
     \<and> distinct (map fst (bp_blobs p))
     \<and> bp_blob_count p = word_of_nat (length (bp_blobs p))
     \<and> bp_payload_bytes p = word_of_nat (\<Sum>(d, content)\<leftarrow>bp_blobs p. length content)"

lemma decode_response_ok:
  assumes "decode_response W r ds = Inr (blobs, stats)" and "\<forall>d\<in>set ds. valid_digest d"
  shows "(\<forall>d content. (d, content) \<in> set blobs \<longrightarrow> d \<in> set ds \<and> verified W d content)
    \<and> distinct (map fst blobs) \<and> st_blob_count stats = word_of_nat (length blobs)
    \<and> st_payload_bytes stats = word_of_nat (\<Sum>(d, content)\<leftarrow>blobs. length content)"
proof -
  obtain md where "decode_blob_pack (w_hex W) (w_hash W) md (concat (rs_chunks r)) (rs_error r) ds = Inr (blobs, stats)"
    using assms(1) by (auto simp: decode_response_def split: sum.splits)
  then obtain ps where ps: "pack_ok (w_hex W) (w_hash W) (set ds) ps"
    "blobs = map (\<lambda>p. (digest_of (w_hex W) p, content_of p)) ps"
    "st_blob_count stats = word_of_nat (length ps)" "st_payload_bytes stats = word_of_nat (payload_of ps)"
    unfolding decode_blob_pack_iff by auto
  have size: "unat (cd_size (digest_of (w_hex W) p)) = length (content_of p)" if "p \<in> set ps" for p
  proof -
    have "cd_size (digest_of (w_hex W) p) = word_of_nat (length (content_of p))"
      by (simp add: digest_of_def content_of_def split: prod.splits)
    moreover have "length (content_of p) < 2 ^ 64" using ps(1) that by (auto simp: pack_ok_def genuine_def)
    ultimately show ?thesis by (simp add: unat_of_nat_64)
  qed
  have "digest_of (w_hex W) p \<in> set ds \<and> verified W (digest_of (w_hex W) p) (content_of p)" if "p \<in> set ps" for p
    using ps(1) that assms(2) size [OF that] unfolding pack_ok_def genuine_def verified_def by auto
  moreover have "map fst blobs = map (digest_of (w_hex W)) ps" using ps(2) by (simp add: comp_def)
  moreover have "(\<Sum>(d, content)\<leftarrow>blobs. length content) = payload_of ps"
    using ps(2) by (simp add: payload_of_def comp_def)
  ultimately show ?thesis using ps unfolding pack_ok_def by (auto simp: comp_def)
qed

lemma keeps_download:
  assumes "join_ok W base" and "\<forall>d\<in>set ds. valid_digest d"
  shows "rs_keeps (client_ok W base c) (download_blob_pack_chunk W ds)
    (\<lambda>p. \<forall>blobs stats. p = Some (blobs, stats) \<longrightarrow>
       (\<forall>d content. (d, content) \<in> set blobs \<longrightarrow> d \<in> set ds \<and> verified W d content)
       \<and> distinct (map fst blobs) \<and> st_blob_count stats = word_of_nat (length blobs)
       \<and> st_payload_bytes stats = word_of_nat (\<Sum>(d, content)\<leftarrow>blobs. length content))"
  unfolding download_blob_pack_chunk_def blob_pack_endpoint_def blob_pack_attempt_def
  by (intro rs_keeps_bind [OF keeps_endpoints(2) [OF assms(1)]] keeps_bind_lift keeps_retry_state
      rs_keeps_bind [OF keeps_request] rs_keeps_bind [OF keeps_send] rs_rules)
    (use decode_response_ok [OF _ assms(2)] in auto)

lemma keeps_get_blob_pack:
  assumes "join_ok W base"
  shows "rs_keeps (client_ok W base c) (get_blob_pack W ds) (\<lambda>p. \<forall>pack. p = Some pack \<longrightarrow> pack_answer_ok W ds pack)"
    (is "rs_keeps ?I _ ?Q")
proof -
  have valid: "\<forall>d\<in>set chunk. valid_digest d" if "chunk_ok ds l chunk" for l chunk
    using that by (auto simp: chunk_ok_def)
  have disable: "rs_keeps ?I disable_blob_packs (\<lambda>_. True)"
    by (auto simp: rs_keeps_def disable_blob_packs_def client_ok_def)
  have download: "rs_keeps ?I
      (rs_bind (rs_lift (map_err BadDigest (blob_pack_chunk ds l))) (\<lambda>chunk.
         if chunk = []
         then rs_return (Some \<lparr> bp_blobs = [], bp_requests = 0, bp_requested = [], bp_blob_count = 0,
                                bp_payload_bytes = 0, bp_framed_bytes = 8 \<rparr>)
         else rs_bind (download_blob_pack_chunk W chunk) (\<lambda>p. case p of
             Some (blobs, stats) \<Rightarrow>
               rs_return (Some \<lparr> bp_blobs = blobs, bp_requests = 1, bp_requested = chunk,
                                 bp_blob_count = st_blob_count stats,
                                 bp_payload_bytes = st_payload_bytes stats,
                                 bp_framed_bytes = st_framed_bytes stats \<rparr>)
           | None \<Rightarrow> rs_bind disable_blob_packs (\<lambda>_. rs_return None)))) ?Q" if l: "limits_ok l" for l
  proof (rule keeps_bind_lift, simp only: map_err_Inr, rule rs_keeps_if)
    fix chunk
    assume "blob_pack_chunk ds l = Inr chunk"
    then have chunk: "chunk_ok ds l chunk" using blob_pack_chunk_ok [OF l] by blast
    show "rs_keeps ?I (rs_return (Some \<lparr> bp_blobs = [], bp_requests = 0, bp_requested = [], bp_blob_count = 0,
        bp_payload_bytes = 0, bp_framed_bytes = 8 \<rparr>)) ?Q" if "chunk = []"
      by (rule rs_keeps_return) (use chunk l that in \<open>auto simp: pack_answer_ok_def\<close>)
    show "rs_keeps ?I (rs_bind (download_blob_pack_chunk W chunk) (\<lambda>p. case p of
          Some (blobs, stats) \<Rightarrow>
            rs_return (Some \<lparr> bp_blobs = blobs, bp_requests = 1, bp_requested = chunk,
                              bp_blob_count = st_blob_count stats,
                              bp_payload_bytes = st_payload_bytes stats,
                              bp_framed_bytes = st_framed_bytes stats \<rparr>)
        | None \<Rightarrow> rs_bind disable_blob_packs (\<lambda>_. rs_return None))) ?Q"
    proof (rule rs_keeps_bind [OF keeps_download [OF assms valid [OF chunk]]], rule keeps_case_option)
      fix p v
      assume p: "\<forall>blobs stats. p = Some (blobs, stats) \<longrightarrow>
          (\<forall>d content. (d, content) \<in> set blobs \<longrightarrow> d \<in> set chunk \<and> verified W d content)
          \<and> distinct (map fst blobs) \<and> st_blob_count stats = word_of_nat (length blobs)
          \<and> st_payload_bytes stats = word_of_nat (\<Sum>(d, content)\<leftarrow>blobs. length content)" and "p = Some v"
      with chunk l show "rs_keeps ?I (case v of (blobs, stats) \<Rightarrow>
            rs_return (Some \<lparr> bp_blobs = blobs, bp_requests = 1, bp_requested = chunk,
                              bp_blob_count = st_blob_count stats,
                              bp_payload_bytes = st_payload_bytes stats,
                              bp_framed_bytes = st_framed_bytes stats \<rparr>)) ?Q"
        by (cases v) (auto intro!: rs_keeps_return simp: pack_answer_ok_def)
    next
      show "rs_keeps ?I (rs_bind disable_blob_packs (\<lambda>_. rs_return None)) ?Q"
        by (rule rs_keeps_bind [OF disable]) (simp add: rs_keeps_return)
    qed
  qed
  show ?thesis
    unfolding get_blob_pack_def
    by (intro rs_keeps_if_state rs_keeps_bind [OF keeps_negotiated_limits [OF assms]] keeps_case_option download)
      (auto intro: rs_keeps_return)
qed

lemma matches_bytes_verified:
  assumes "matches_bytes (w_hash W) d bytes = Inr True" and "length bytes \<le> unat (cd_size d)"
  shows "verified W d bytes"
proof -
  have "valid_digest d" "cd_size d = word_of_nat (length bytes)" "cd_hash d = w_hash W (cd_algorithm d) bytes"
    using assms(1) by (auto simp: matches_bytes_def digest_validate_valid split: sum.splits if_splits)
  moreover have "length bytes < 2 ^ 64" using assms(2) unat_64 [of "cd_size d"] by simp
  ultimately show ?thesis by (simp add: verified_def unat_of_nat_64)
qed

lemma body_loop_limit: "body_loop limit err body chunks = Inr (Some r) \<Longrightarrow> length body \<le> limit \<Longrightarrow> length r \<le> limit"
  by (induction limit err body chunks rule: body_loop.induct) (auto split: option.splits if_splits)

lemma read_body_limited_length: "read_body_limited r limit = Inr (Some body) \<Longrightarrow> length body \<le> unat limit"
  by (auto simp: read_body_limited_def dest!: body_loop_limit split: if_splits)

lemma keeps_get_blob:
  assumes "join_ok W base"
  shows "rs_keeps (client_ok W base c) (get_blob W d media) (verified W d)"
  unfolding get_blob_def blob_attempt_def
  by (intro keeps_bind_lift rs_keeps_bind [OF keeps_digest_endpoints(2) [OF assms]] keeps_retry_state
      rs_keeps_bind [OF keeps_request] rs_keeps_bind [OF keeps_send] rs_rules)
    (auto dest: read_body_limited_length intro: matches_bytes_verified)

lemma keeps_get_blob_file:
  assumes "join_ok W base"
  shows "rs_keeps (client_ok W base c) (get_blob_file W d) (\<lambda>content. valid_digest d
    \<and> cd_size d = word_of_nat (length content) \<and> cd_hash d = w_hash W (cd_algorithm d) content)"
  unfolding get_blob_file_def blob_file_attempt_def
  by (intro keeps_bind_lift rs_keeps_bind [OF keeps_digest_endpoints(2) [OF assms]] keeps_retry_state
      rs_keeps_bind [OF keeps_request] rs_keeps_bind [OF keeps_send] rs_rules)
    (auto simp: matches_file_def split: sum.splits)

lemma keeps_get_action_result:
  assumes "join_ok W base"
  shows "rs_keeps (client_ok W base c) (get_action_result W d)
    (\<lambda>a. \<forall>r. a = Some r \<longrightarrow> ar_action r = d \<and> ar_version r = 1)"
  unfolding get_action_result_def action_result_attempt_def
  by (intro keeps_bind_lift rs_keeps_bind [OF keeps_digest_endpoints(1) [OF assms]]
      rs_keeps_bind [OF keeps_retry_state(1) [where Q = "\<lambda>_. True"]]
      rs_keeps_bind [OF keeps_request] rs_keeps_bind [OF keeps_send] rs_rules) auto

lemma keeps_upload:
  assumes "rs_keeps (client_ok W base c) m (request_ok W c)"
  shows "rs_keeps (client_ok W base c) (\<lambda>s. retry_async W (n s) (upload_attempt W m) s) (\<lambda>_. True)"
  unfolding upload_attempt_def
  by (intro keeps_retry_state rs_keeps_bind [OF assms] rs_keeps_bind [OF keeps_send] keeps_bind_lift rs_rules) auto

lemma keeps_put_action_result:
  assumes "join_ok W base"
  shows "rs_keeps (client_ok W base c) (put_action_result W r) (\<lambda>_. True)"
  unfolding put_action_result_def
  by (intro rs_keeps_bind [OF keeps_digest_endpoints(1) [OF assms]] keeps_bind_lift keeps_upload
      rs_keeps_bind [OF keeps_request] rs_keeps_return) auto

lemma keeps_put_blob:
  assumes "join_ok W base"
  shows "rs_keeps (client_ok W base c) (put_blob W d source) (\<lambda>_. True)"
proof -
  have "rs_keeps (client_ok W base c) (source_bytes W source) (\<lambda>_. True)"
    by (cases source) (auto intro: keeps_tick rs_keeps_return)
  then show ?thesis
    unfolding put_blob_def
    by (intro rs_keeps_bind [OF keeps_digest_endpoints(2) [OF assms]] keeps_upload
        rs_keeps_bind [OF keeps_request] rs_keeps_return) (auto elim!: rs_keeps_bind intro!: rs_keeps_bind [OF keeps_request] rs_keeps_return)
qed

end
