(* ===== verification/Cache_Client_Bounds.thy ===== *)
theory Cache_Client_Bounds
  imports Cache_Client_Correct
begin

text \<open>
  How many requests an operation of the client sends: the attempts of the operation, and with
  OIDC the attempts to get a new token before each of them.
\<close>

definition fixed_client :: "int \<Rightarrow> credential \<Rightarrow> client \<Rightarrow> bool" where
  "fixed_client retries c s \<longleftrightarrow> cl_retries s = retries \<and> cl_credential s = c"

definition attempts :: "int \<Rightarrow> nat" where
  "attempts retries = Suc (nat (max retries 0))"

definition token_requests :: "int \<Rightarrow> credential \<Rightarrow> nat" where
  "token_requests retries c = (case c of GithubActions _ \<Rightarrow> attempts retries | _ \<Rightarrow> 0)"

abbreviation (input) sends :: "int \<Rightarrow> credential \<Rightarrow> nat \<Rightarrow> (client, 'e cache_error, 'a) rs \<Rightarrow> bool" where
  "sends retries c \<equiv> rs_adds (fixed_client retries c) (\<lambda>s. length (cl_sent s))"

lemma sends_at: "(\<And>s. fixed_client R c s \<Longrightarrow> \<exists>n. sends R c k n \<and> m s = n s) \<Longrightarrow> sends R c k m"
  unfolding rs_adds_def by metis

lemma sends_value: "\<exists>n. sends R c k n \<and> (Inr v, s) = n s"
  by (rule exI [of _ "rs_return v"]) (simp add: rs_adds_return rs_return_def)

lemma sends_step [rs_counts]:
  "sends R c 0 (unix_timestamp W)" "sends R c 0 (read_to_string W path)" "sends R c 0 (read_bytes W path)"
  "sends R c 0 (set_oidc t)" "sends R c 0 (set_capabilities l)" "sends R c 0 disable_blob_packs"
  "sends R c 0 (join_base W path)"
  by (auto simp: rs_adds_def fixed_client_def unix_timestamp_def read_to_string_def read_bytes_def set_oidc_def
      set_capabilities_def disable_blob_packs_def join_base_def)

lemma sends_send: "sends R c 1 (send W rq)"
  by (auto simp: rs_adds_def fixed_client_def send_def)

lemma sends_case_option [rs_counts]:
  "sends R c k m \<Longrightarrow> (\<And>v. sends R c k (f v)) \<Longrightarrow> sends R c k (case x of None \<Rightarrow> m | Some v \<Rightarrow> f v)"
  by (cases x) auto

lemma sends_retry_async: "sends R c k m \<Longrightarrow> sends R c (attempts R * k) (\<lambda>s. retry_async W R m s)"
  unfolding retry_async_def attempts_def by (rule rs_adds_retry)

lemma sends_retry_state:
  assumes "sends R c k m"
  shows "sends R c (attempts R * k) (\<lambda>s. retry_async W (cl_retries s) m s)"
    and "sends R c (attempts R * k) (\<lambda>s. retry_within W (t s) (cl_retries s) m s)"
proof -
  show "sends R c (attempts R * k) (\<lambda>s. retry_async W (cl_retries s) m s)"
    by (rule sends_at) (use sends_retry_async [OF assms, of W] in \<open>auto simp: fixed_client_def\<close>)
  show "sends R c (attempts R * k) (\<lambda>s. retry_within W (t s) (cl_retries s) m s)"
  proof (rule sends_at)
    fix s
    assume "fixed_client R c s"
    then have "cl_retries s = R" by (simp add: fixed_client_def)
    then show "\<exists>n. sends R c (attempts R * k) n \<and> retry_within W (t s) (cl_retries s) m s = n s"
      unfolding retry_within_def attempts_def using rs_adds_retry [OF assms] by blast
  qed
qed

lemma sends_plus: "sends R c a m \<Longrightarrow> (\<And>v. sends R c b (f v)) \<Longrightarrow> sends R c (a + b) (rs_bind m f)"
  by (rule rs_adds_bind)

text \<open>An operation whose last sending step comes first.\<close>

lemma sends_first: "sends R c a m \<Longrightarrow> (\<And>v. sends R c 0 (f v)) \<Longrightarrow> sends R c a (rs_bind m f)"
  using rs_adds_bind [of "fixed_client R c" "\<lambda>s. length (cl_sent s)" a m 0 f] by simp

lemma sends_oidc_refresh: "sends R c (attempts R) (oidc_refresh W R oc now)"
proof -
  have "sends R c 1 (rs_bind (send W (oidc_request oc)) (\<lambda>r. rs_bind (rs_lift (error_for_status r)) (\<lambda>r.
      rs_lift (response_json (w_oidc_value W) r))))"
    by (intro sends_first [OF sends_send] rs_counts)
  from sends_retry_async [OF this, of W]
  show ?thesis unfolding oidc_refresh_def
    by (intro sends_first [OF rs_adds_map_err] rs_counts) simp
qed

lemma sends_token_file: "sends R c 0 (token_file_authorization W path)"
  unfolding token_file_authorization_def by (intro rs_counts)

lemma sends_oidc: "sends R c (attempts R) (oidc_authorization W oc)"
  unfolding oidc_authorization_def
proof (intro rs_adds_free_bind sends_step sends_at)
  fix now s
  assume "fixed_client R c s"
  then have "cl_retries s = R" by (simp add: fixed_client_def)
  then show "\<exists>n. sends R c (attempts R) n \<and> (case cl_oidc s of
        Some token \<Rightarrow> if ct_expires_at token > saturating_add now REFRESH_LEEWAY_SECONDS
          then (Inr (ct_authorization token), s) else oidc_refresh W (cl_retries s) oc now s
      | None \<Rightarrow> oidc_refresh W (cl_retries s) oc now s) = n s"
    using sends_oidc_refresh [of R c W oc now] sends_value [of R c "attempts R"]
    by (cases "cl_oidc s") auto
qed

lemma sends_authorization: "sends R c (token_requests R c) (authorization W)"
proof (rule sends_at)
  fix s
  assume "fixed_client R c s"
  then have c: "cl_credential s = c" by (simp add: fixed_client_def)
  have "sends R c (token_requests R c) (case c of NoCredential \<Rightarrow> rs_return None | StaticToken a \<Rightarrow> rs_return (Some a)
      | TokenFile path \<Rightarrow> rs_bind (token_file_authorization W path) (\<lambda>a. rs_return (Some a))
      | GithubActions oc \<Rightarrow> rs_bind (oidc_authorization W oc) (\<lambda>a. rs_return (Some a)))"
    by (cases c) (simp_all add: token_requests_def rs_adds_return sends_first [OF sends_oidc] sends_first [OF sends_token_file])
  then show "\<exists>n. sends R c (token_requests R c) n \<and> authorization W s = n s"
    unfolding authorization_def c by blast
qed

lemma sends_request: "sends R c (token_requests R c) (request W method u media)"
proof -
  have "sends R c 0 (\<lambda>s. rs_return (f s) s)" for f :: "client \<Rightarrow> http_request"
    by (simp add: rs_adds_def rs_return_def)
  then show ?thesis unfolding request_def by (intro sends_first [OF sends_authorization])
qed

text \<open>One attempt: a token if need be, then the request.\<close>

definition attempt_requests :: "int \<Rightarrow> credential \<Rightarrow> nat" where
  "attempt_requests retries c = token_requests retries c + 1"

lemma sends_attempt:
  assumes "\<And>r. sends R c 0 (f r)"
  shows "sends R c (attempt_requests R c) (rs_bind (request W method u media) (\<lambda>rq. rs_bind (send W (g rq)) f))"
  unfolding attempt_requests_def
  by (intro sends_plus [OF sends_request] sends_first [OF sends_send] assms)

lemma sends_upload:
  assumes "sends R c (token_requests R c) m"
  shows "sends R c (attempt_requests R c) (upload_attempt W m)"
  unfolding upload_attempt_def attempt_requests_def
  by (intro sends_plus [OF assms] sends_first [OF sends_send] rs_counts)

lemma sends_endpoints [rs_counts]:
  "sends R c 0 (action_result_endpoint W d)" "sends R c 0 (blob_endpoint W d)"
  "sends R c 0 (capabilities_endpoint W)" "sends R c 0 (blob_pack_endpoint W)"
  unfolding action_result_endpoint_def blob_endpoint_def capabilities_endpoint_def blob_pack_endpoint_def
  by (intro rs_counts)+

lemma sends_negotiated: "sends R c (attempt_requests R c) (negotiated_limits W)"
proof (rule sends_at)
  fix s
  have "sends R c (attempt_requests R c) (fetch_limits W)"
    unfolding fetch_limits_def
    by (rule rs_adds_free_bind [OF sends_endpoints(3)],
        rule sends_attempt [where g = "\<lambda>rq. rq"]) (intro rs_counts)
  then have "sends R c (attempt_requests R c) (rs_bind (fetch_limits W) (\<lambda>l. rs_bind (set_capabilities l) (\<lambda>_. rs_return l)))"
    by (rule sends_first) (intro rs_counts)
  then show "\<exists>n. sends R c (attempt_requests R c) n \<and> negotiated_limits W s = n s"
    using sends_value [of R c "attempt_requests R c"]
    by (cases "cl_capabilities s") (auto simp: negotiated_limits_def)
qed

lemma sends_blob_pack_attempt: "sends R c (attempt_requests R c) (blob_pack_attempt W u body ds)"
  unfolding blob_pack_attempt_def by (rule sends_attempt) (intro rs_counts)

lemma sends_get_blob_pack: "sends R c ((attempts R + 1) * attempt_requests R c) (get_blob_pack W ds)"
proof -
  have down: "sends R c (attempts R * attempt_requests R c) (download_blob_pack_chunk W chunk)" for chunk
    unfolding download_blob_pack_chunk_def
    by (intro rs_adds_free_bind sends_endpoints rs_adds_lift sends_retry_state(2) sends_blob_pack_attempt)
  have "sends R c (attempt_requests R c + attempts R * attempt_requests R c)
    (rs_bind (negotiated_limits W) (\<lambda>l.
        case l of
          None \<Rightarrow> rs_return None
        | Some limits \<Rightarrow>
            rs_bind (rs_lift (map_err BadDigest (blob_pack_chunk ds limits))) (\<lambda>chunk.
            if chunk = []
            then rs_return (Some \<lparr> bp_blobs = [], bp_requests = 0, bp_requested = [], bp_blob_count = 0,
                                   bp_payload_bytes = 0, bp_framed_bytes = 8 \<rparr>)
            else
              rs_bind (download_blob_pack_chunk W chunk) (\<lambda>p.
              case p of
                Some (blobs, stats) \<Rightarrow>
                  rs_return (Some \<lparr> bp_blobs = blobs, bp_requests = 1, bp_requested = chunk,
                                    bp_blob_count = st_blob_count stats,
                                    bp_payload_bytes = st_payload_bytes stats,
                                    bp_framed_bytes = st_framed_bytes stats \<rparr>)
              | None \<Rightarrow> rs_bind disable_blob_packs (\<lambda>_. rs_return None)))))"
    by (intro sends_plus [OF sends_negotiated] rs_counts sends_first [OF down])
      (auto intro: rs_counts split: prod.split)
  then show ?thesis
    unfolding get_blob_pack_def
    by (intro sends_at) (auto intro: rs_counts)
qed

lemma sends_source: "sends R c 0 (source_bytes W source)"
  by (cases source) (simp_all add: rs_counts)

lemma sends_operations:
  "sends R c (attempts R * attempt_requests R c) (get_action_result W d)"
  "sends R c (attempts R * attempt_requests R c) (put_action_result W result)"
  "sends R c (attempts R * attempt_requests R c) (get_blob W d media)"
  "sends R c (attempts R * attempt_requests R c) (get_blob_file W d)"
  "sends R c (attempts R * attempt_requests R c) (put_blob W d source)"
proof -
  have get: "sends R c (attempt_requests R c) (action_result_attempt W u)"
    "sends R c (attempt_requests R c) (blob_attempt W u media d)"
    "sends R c (attempt_requests R c) (blob_file_attempt W u d)" for u
    unfolding action_result_attempt_def blob_attempt_def blob_file_attempt_def
    by (rule sends_attempt [where g = "\<lambda>rq. rq"], intro rs_counts)+
  have put: "sends R c (token_requests R c) (rs_bind (request W how u media) (\<lambda>rq. rs_return (g rq)))" for how u media g
    by (intro sends_first [OF sends_request] rs_counts)
  note rules = rs_adds_free_bind sends_endpoints rs_adds_lift sends_retry_state get sends_upload put sends_source
  show "sends R c (attempts R * attempt_requests R c) (get_action_result W d)"
    unfolding get_action_result_def
    by (intro rs_adds_free_bind sends_endpoints sends_first [OF sends_retry_state(1)] get rs_counts)
  show "sends R c (attempts R * attempt_requests R c) (put_action_result W result)"
    unfolding put_action_result_def by (intro rules)
  show "sends R c (attempts R * attempt_requests R c) (get_blob W d media)"
    unfolding get_blob_def by (intro rules)
  show "sends R c (attempts R * attempt_requests R c) (get_blob_file W d)"
    unfolding get_blob_file_def by (intro rules)
  show "sends R c (attempts R * attempt_requests R c) (put_blob W d source)"
    unfolding put_blob_def by (intro rules)
qed

end
