(* ===== verification/Cache_Client_Run.thy ===== *)
theory Cache_Client_Run
  imports Cache_Client_Bounds "HOL-Library.Code_Target_Nat"
begin

text \<open>
  Runs of the remote cache client: any sequence of its operations after it was built, whatever
  the server, the clock and the files answer.
\<close>

datatype client_op =
    OpGetBlobPack "cache_digest list"
  | OpGetActionResult cache_digest
  | OpPutActionResult remote_action_result
  | OpGetBlob cache_digest ustr
  | OpGetBlobFile cache_digest
  | OpPutBlob cache_digest blob_source

fun client_step :: "'e world \<Rightarrow> client_op \<Rightarrow> client \<Rightarrow> client" where
  "client_step W (OpGetBlobPack ds) s = snd (get_blob_pack W ds s)"
| "client_step W (OpGetActionResult d) s = snd (get_action_result W d s)"
| "client_step W (OpPutActionResult r) s = snd (put_action_result W r s)"
| "client_step W (OpGetBlob d media) s = snd (get_blob W d media s)"
| "client_step W (OpGetBlobFile d) s = snd (get_blob_file W d s)"
| "client_step W (OpPutBlob d source) s = snd (put_blob W d source s)"

definition client_run :: "'e world \<Rightarrow> client_op list \<Rightarrow> client \<Rightarrow> client" where
  "client_run W ops s = fold (client_step W) ops s"

section \<open>A new client\<close>

lemma secure_normalized: "secure_url (normalized_base_url u) = secure_url u"
  by (simp add: normalized_base_url_def secure_url_def host_is_loopback_def)

lemma authorization_header_Some: "authorization_header W t = Inr (Some a) \<Longrightarrow> \<exists>x. t = Some x \<and> str_trim x \<noteq> []"
  by (auto simp: authorization_header_def Let_def split: option.splits if_splits)

lemma oidc_from_env_ok:
  assumes "oidc_from_env W audience = Inr oc"
  shows "secure_url (oc_request_url oc) \<and> bearer W (oc_request_token oc)"
proof -
  obtain u token where n: "oidc_new W audience u token = Inr oc"
    using assms by (auto simp: oidc_from_env_def split: option.splits sum.splits)
  then have u: "secure_url u"
    by (auto simp: oidc_new_def validate_oidc_request_url_def secure_url_def split: if_splits)
  obtain t where "authorization_header W (Some token) = Inr (Some t)" "oc_request_token oc = t"
    "url_scheme (oc_request_url oc) = url_scheme u" "url_host (oc_request_url oc) = url_host u"
    using n by (auto simp: oidc_new_def Let_def split: sum.splits option.splits)
  with u authorization_header_bearer [of W "Some token" t] show ?thesis
    by (simp add: secure_url_def host_is_loopback_def)
qed

lemma remote_credential_ok:
  assumes "remote_credential W cfg = Inr c" and "c \<noteq> NoCredential \<Longrightarrow> secure_url base"
  shows "credential_ok W base c"
  using assms
  by (auto simp: remote_credential_def split: sum.splits option.splits if_splits
      dest: authorization_header_bearer oidc_from_env_ok)

lemma remote_credential_authenticated:
  assumes "remote_credential W cfg = Inr c" and "c \<noteq> NoCredential"
  shows "(case cf_token cfg of Some t \<Rightarrow> str_trim t \<noteq> [] | None \<Rightarrow> False) \<or> cf_token_file cfg \<noteq> None
    \<or> (case cf_oidc_audience cfg of Some a \<Rightarrow> str_trim a \<noteq> [] | None \<Rightarrow> False)"
  using assms
  by (auto simp: remote_credential_def split: sum.splits option.splits if_splits dest: authorization_header_Some)

lemma client_new_ok:
  assumes "client_new W cfg = Inr s"
  shows "client_ok W (cl_base_url s) (cl_credential s) s"
proof -
  let ?auth = "(case cf_token cfg of Some t \<Rightarrow> str_trim t \<noteq> [] | None \<Rightarrow> False) \<or> cf_token_file cfg \<noteq> None
    \<or> (case cf_oidc_audience cfg of Some a \<Rightarrow> str_trim a \<noteq> [] | None \<Rightarrow> False)"
  obtain v where v: "validate_remote_url (cf_base_url cfg) ?auth = (Inr v :: 'a cache_error + unit)"
    using assms unfolding client_new_def Let_def by (auto split: sum.splits)
  have c: "remote_credential W cfg = Inr (cl_credential s)" "cl_base_url s = normalized_base_url (cf_base_url cfg)"
    "cl_sent s = []" "cl_capabilities s = None" "cl_oidc s = None"
    using assms v unfolding client_new_def Let_def by (auto split: sum.splits option.splits)
  have "secure_url (cl_base_url s)" if "cl_credential s \<noteq> NoCredential"
  proof -
    have ?auth using remote_credential_authenticated [OF c(1) that] .
    with v show ?thesis unfolding c(2) secure_normalized
      by (auto simp: validate_remote_url_def secure_url_def split: if_splits)
  qed
  from remote_credential_ok [OF c(1) this] c(3-) show ?thesis by (simp add: client_ok_def)
qed

lemma client_step_ok:
  assumes "join_ok W base" and "client_ok W base c s"
  shows "client_ok W base c (client_step W op s)"
  by (cases op)
    (simp_all add: rs_keepsD [OF keeps_get_action_result [OF assms(1)] assms(2) surjective_pairing]
      rs_keepsD [OF keeps_put_action_result [OF assms(1)] assms(2) surjective_pairing]
      rs_keepsD [OF keeps_get_blob [OF assms(1)] assms(2) surjective_pairing]
      rs_keepsD [OF keeps_get_blob_file [OF assms(1)] assms(2) surjective_pairing]
      rs_keepsD [OF keeps_put_blob [OF assms(1)] assms(2) surjective_pairing]
      rs_keepsD [OF keeps_get_blob_pack [OF assms(1)] assms(2) surjective_pairing])

lemma client_run_ok:
  "join_ok W base \<Longrightarrow> client_ok W base c s \<Longrightarrow> client_ok W base c (client_run W ops s)"
  unfolding client_run_def by (induction ops arbitrary: s) (simp_all add: client_step_ok)

section \<open>Fresh tokens\<close>

lemma oidc_refresh_fresh:
  assumes "oidc_refresh W n oc now s = (Inr a, t)"
  shows "\<exists>token. cl_oidc t = Some token \<and> ct_authorization token = a
    \<and> ct_expires_at token > saturating_add now REFRESH_LEEWAY_SECONDS"
  using assms unfolding oidc_refresh_def
  by (auto simp: rs_lift_def rs_return_def rs_fail_def set_oidc_def not_le elim!: rs_bind_cases split: if_splits option.splits)

lemma oidc_authorization_fresh:
  assumes "oidc_authorization W oc s = (Inr a, t)"
  shows "\<exists>now token. w_clock W (cl_ticks s) = Inr now \<and> cl_oidc t = Some token \<and> ct_authorization token = a
    \<and> ct_expires_at token > saturating_add now REFRESH_LEEWAY_SECONDS"
  using assms unfolding oidc_authorization_def
proof (cases rule: rs_bind_cases)
  case (runs now u)
  have "w_clock W (cl_ticks s) = Inr now" using runs(1) by (simp add: unix_timestamp_def map_err_def split: sum.splits)
  moreover have "\<exists>token. cl_oidc t = Some token \<and> ct_authorization token = a
      \<and> ct_expires_at token > saturating_add now REFRESH_LEEWAY_SECONDS"
    using runs(2) oidc_refresh_fresh [of W "cl_retries u" oc now u a t]
    by (cases "cl_oidc u") (auto split: if_splits)
  ultimately show ?thesis by blast
qed simp

section \<open>An example\<close>

text \<open>
  A server over HTTPS that holds one object, the bytes \<open>1, 2, 3\<close>, and answers a request for a blob
  pack with it, and a client with a token.
\<close>

definition example_digest :: cache_digest where
  "example_digest = \<lparr> cd_algorithm = lit ''sha256'', cd_hash = replicate 64 48, cd_size = 3 \<rparr>"

definition example_response :: "http_request \<Rightarrow> unit response" where
  "example_response rq =
     (if rq_method rq = POST
      then \<lparr> rs_status = 200,
             rs_headers = (\<lambda>name. if name = lit ''content-type''
               then Some (map of_char ''application/vnd.mise.cache-blob-pack.v1; v=1'')
               else if name = lit ''content-length'' then Some (map of_char ''52'') else None),
             rs_content_length = None,
             rs_chunks = [BLOB_PACK_MAGIC, 2 # replicate 32 0, [0, 0, 0, 0, 0, 0, 0, 3, 1], [2, 3]], rs_error = None \<rparr>
      else \<lparr> rs_status = 200, rs_headers = (\<lambda>_. None), rs_content_length = None,
             rs_chunks = [[1, 2], [3]], rs_error = None \<rparr>)"

definition example_world :: "unit world" where
  "example_world =
     \<lparr> w_net = (\<lambda>_ rq. Inr (example_response rq)), w_late = (\<lambda>_ _ _. False), w_clock = (\<lambda>n. Inr (word_of_nat n)),
       w_read_to_string = (\<lambda>_ _. Inl ()), w_read_bytes = (\<lambda>_ _. Inl ()), w_env = (\<lambda>_. None), w_tls = None,
       w_retryable = (\<lambda>_. True), w_dns_error = (\<lambda>_. False),
       w_join = (\<lambda>u p. Inr (u\<lparr>url_path := url_path u @ p\<rparr>)), w_parse_url = (\<lambda>_. Inl ()),
       w_header_value = (\<lambda>_. True), w_header_str = (\<lambda>bytes. Some (map unat bytes)),
       w_base64 = (\<lambda>_. None), w_jwt_exp = (\<lambda>_. None), w_oidc_value = (\<lambda>_. Inl ()),
       w_capabilities = (\<lambda>_. Inr \<lparr> cap_major = 1, cap_blob_packs = True, cap_max_batch_items = 10, cap_max_pack_bytes = 100 \<rparr>),
       w_action_result = (\<lambda>_. Inl ()), w_action_json = (\<lambda>_. Inl ()), w_digests_json = (\<lambda>_. Inr []),
       w_hash = (\<lambda>_ _. replicate 64 48), w_hex = (\<lambda>_. replicate 64 48) \<rparr>"

definition example_config :: remote_cache_config where
  "example_config =
     \<lparr> cf_base_url = \<lparr> url_scheme = lit ''https'', url_host = Some (Domain (lit ''cache'')), url_path = [SLASH], url_query = [] \<rparr>,
       cf_namespace = lit ''n'', cf_token = Some (lit '' t ''), cf_token_file = None, cf_oidc_audience = None,
       cf_download_timeout = 1, cf_retries = 2 \<rparr>"

definition example_client :: client where
  "example_client =
     \<lparr> cl_base_url = cf_base_url example_config, cl_namespace = lit ''n'', cl_credential = StaticToken (lit ''Bearer t''),
       cl_download_timeout = 1, cl_retries = 2, cl_capabilities = None, cl_disabled = False, cl_oidc = None,
       cl_ticks = 0, cl_sent = [] \<rparr>"

lemma example_new: "client_new example_world example_config = Inr example_client"
  by code_simp

lemma example_join: "join_ok example_world base"
  by (simp add: join_ok_def example_world_def same_origin_def)

lemma example_get_blob: "fst (get_blob example_world example_digest (lit ''x'') example_client) = Inr [1, 2, 3]"
  by code_simp

definition example_pack :: remote_blob_pack where
  "example_pack =
     \<lparr> bp_blobs = [(example_digest, [1, 2, 3])], bp_requests = 1, bp_requested = [example_digest],
       bp_blob_count = 1, bp_payload_bytes = 3, bp_framed_bytes = 52 \<rparr>"

lemma example_get_blob_pack:
  "fst (get_blob_pack example_world [example_digest, example_digest] example_client) = Inr (Some example_pack)"
  by code_simp

section \<open>Properties\<close>

fun op_attempts :: "int \<Rightarrow> client_op \<Rightarrow> nat" where
  "op_attempts retries (OpGetBlobPack ds) = attempts retries + 1"
| "op_attempts retries _ = attempts retries"

lemma client_step_bounded:
  assumes "fixed_client R c s"
  shows "fixed_client R c (client_step W op s)
    \<and> length (cl_sent (client_step W op s)) \<le> length (cl_sent s) + op_attempts R op * attempt_requests R c"
  by (cases op)
    (use rs_addsD [OF sends_get_blob_pack assms, of W] rs_addsD [OF sends_operations(1) assms, of W]
      rs_addsD [OF sends_operations(2) assms, of W] rs_addsD [OF sends_operations(3) assms, of W]
      rs_addsD [OF sends_operations(4) assms, of W] rs_addsD [OF sends_operations(5) assms, of W] in simp_all)

lemma client_run_bounded:
  "fixed_client R c s \<Longrightarrow>
   length (cl_sent (client_run W ops s)) \<le> length (cl_sent s) + (\<Sum>op\<leftarrow>ops. op_attempts R op * attempt_requests R c)"
proof (induction ops arbitrary: s)
  case (Cons op ops)
  from client_step_bounded [OF Cons.prems, of W op] Cons.IH [of "client_step W op s"]
  show ?case by (simp add: client_run_def)
qed (simp add: client_run_def)

text \<open>
  \<^bold>\<open>C33.\<close> A client that could be built stays well formed under every sequence of its operations,
  whatever the server, the clock and the files answer: the agreed limits are positive and at
  most what the client stages, the kept token is a bearer token that is a legal header value,
  and every request it ever sent either went without authorization, as the client has no
  credential, or carried such a token to an HTTPS or loopback address.
\<close>

theorem client_stays_ok:
  assumes "client_new W cfg = Inr s" and "join_ok W (cl_base_url s)"
  shows "client_ok W (cl_base_url s) (cl_credential s) (client_run W ops s)"
  using client_run_ok [OF assms(2) client_new_ok [OF assms(1)]] .

theorem client_stays_ok_witness:
  "client_ok example_world (cl_base_url example_client) (StaticToken (lit ''Bearer t''))
     (client_run example_world [OpGetBlobPack [example_digest], OpGetBlob example_digest []] example_client)"
  using client_stays_ok [OF example_new example_join, of "[OpGetBlobPack [example_digest], OpGetBlob example_digest []]"]
  by (simp add: example_client_def)

text \<open>
  \<^bold>\<open>C34.\<close> What a client returns was asked for and has been checked: a blob pack requests valid,
  different, wanted digests within the limits and holds only requested objects, each once and
  with the size and hash of its digest, and its counts are right; a blob, in memory or as a
  file, has the size and hash of the digest; an action result is of the current version and
  names the requested action; and an OIDC token lives for more than a minute after the clock
  was read.
\<close>

theorem client_answers_verified:
  assumes "join_ok W base" and "client_ok W base c s"
  shows "(\<forall>pack t. get_blob_pack W ds s = (Inr (Some pack), t) \<longrightarrow> pack_answer_ok W ds pack)
    \<and> (\<forall>bytes t. get_blob W d media s = (Inr bytes, t) \<longrightarrow> verified W d bytes)
    \<and> (\<forall>content t. get_blob_file W d s = (Inr content, t) \<longrightarrow>
         valid_digest d \<and> cd_size d = word_of_nat (length content) \<and> cd_hash d = w_hash W (cd_algorithm d) content)
    \<and> (\<forall>r t. get_action_result W d s = (Inr (Some r), t) \<longrightarrow> ar_action r = d \<and> ar_version r = 1)
    \<and> (\<forall>oc a t. oidc_authorization W oc s = (Inr a, t) \<longrightarrow>
         (\<exists>now token. w_clock W (cl_ticks s) = Inr now \<and> cl_oidc t = Some token \<and> ct_authorization token = a
            \<and> ct_expires_at token > saturating_add now REFRESH_LEEWAY_SECONDS))"
proof (intro conjI allI impI)
  note ok = assms(2)
  show "pack_answer_ok W ds pack" if "get_blob_pack W ds s = (Inr (Some pack), t)" for pack t
    using rs_keeps_result [OF keeps_get_blob_pack [OF assms(1)] ok that] by simp
  show "verified W d bytes" if "get_blob W d media s = (Inr bytes, t)" for bytes t
    by (rule rs_keeps_result [OF keeps_get_blob [OF assms(1)] ok that])
  show "valid_digest d" "cd_size d = word_of_nat (length content)" "cd_hash d = w_hash W (cd_algorithm d) content"
    if "get_blob_file W d s = (Inr content, t)" for content t
    using rs_keeps_result [OF keeps_get_blob_file [OF assms(1)] ok that] by blast+
  show "ar_action r = d" "ar_version r = 1" if "get_action_result W d s = (Inr (Some r), t)" for r t
    using rs_keeps_result [OF keeps_get_action_result [OF assms(1)] ok that] by blast+
  show "\<exists>now token. w_clock W (cl_ticks s) = Inr now \<and> cl_oidc t = Some token \<and> ct_authorization token = a
      \<and> ct_expires_at token > saturating_add now REFRESH_LEEWAY_SECONDS"
    if "oidc_authorization W oc s = (Inr a, t)" for oc a t
    by (rule oidc_authorization_fresh [OF that])
qed

theorem client_answers_verified_witness:
  "verified example_world example_digest [1, 2, 3]
   \<and> pack_answer_ok example_world [example_digest, example_digest] example_pack"
proof -
  obtain t u where "get_blob example_world example_digest (lit ''x'') example_client = (Inr [1, 2, 3], t)"
    "get_blob_pack example_world [example_digest, example_digest] example_client = (Inr (Some example_pack), u)"
    using example_get_blob example_get_blob_pack by (metis prod.collapse)
  with client_answers_verified [OF example_join client_new_ok [OF example_new]] show ?thesis by blast
qed

text \<open>
  \<^bold>\<open>C35.\<close> Every sequence of operations ends after a bounded number of requests: each operation
  makes at most one attempt more than the configured retries, plus one to agree on limits, and
  each attempt sends one request, before which an OIDC token may take as many attempts again.
\<close>

theorem client_requests_bounded:
  "length (cl_sent (client_run W ops s)) \<le> length (cl_sent s)
     + (\<Sum>op\<leftarrow>ops. op_attempts (cl_retries s) op * attempt_requests (cl_retries s) (cl_credential s))"
  by (rule client_run_bounded) (simp add: fixed_client_def)

end
