(* ===== verification/Task_Output.thy ===== *)
theory Task_Output
  imports Mise_Prelude
begin

text \<open>
  How \<^verbatim>\<open>mise run\<close> prints the output of tasks that run at the same time,
  \<^verbatim>\<open>src/task/task_output_handler.rs\<close>: the state of the \<^verbatim>\<open>keep-order\<close> mode, which lets one task stream
  and holds the lines of the others, and the bounded buffer of the \<^verbatim>\<open>summary\<close> mode.  A task is
  a value of a type parameter.  What is printed is a log of lines, each with its task; colours
  are not in the model.  Sizes are natural numbers: what is in memory does not overflow a \<^verbatim>\<open>usize\<close>.
\<close>

datatype keep_order_line = Stdout ustr ustr | Stderr ustr ustr

fun line_text :: "keep_order_line \<Rightarrow> ustr" where
  "line_text (Stdout p t) = t"
| "line_text (Stderr p t) = t"

fun set_text :: "ustr \<Rightarrow> keep_order_line \<Rightarrow> keep_order_line" where
  "set_text t (Stdout p _) = Stdout p t"
| "set_text t (Stderr p _) = Stderr p t"

section \<open>The summary buffer\<close>

definition SUMMARY_TAIL_BYTES :: nat where "SUMMARY_TAIL_BYTES = 64 * 1024"
definition SUMMARY_FIRST_LINE_BYTES :: nat where "SUMMARY_FIRST_LINE_BYTES = 4 * 1024"

record summary_buffer =
  sb_first :: "keep_order_line option"
  sb_lines :: "keep_order_line list"
  sb_bytes :: nat
  sb_truncated :: bool

definition sb_default :: summary_buffer where
  "sb_default = \<lparr> sb_first = None, sb_lines = [], sb_bytes = 0, sb_truncated = False \<rparr>"

text \<open>What is left of a string when it is cut at the first character boundary from a byte offset on.\<close>

fun drain_to :: "nat \<Rightarrow> ustr \<Rightarrow> ustr" where
  "drain_to n [] = []"
| "drain_to n (c # s) = (if n = 0 then c # s else drain_to (n - len_utf8 c) s)"

lemma drain_to_bounds:
  assumes "n \<le> byte_len s"
  shows "byte_len (drain_to n s) + n \<le> byte_len s \<and> byte_len s \<le> byte_len (drain_to n s) + n + 3"
  using assms
proof (induction n s rule: drain_to.induct)
  case (2 n c s)
  show ?case
  proof (cases "n = 0")
    case False
    have c: "1 \<le> len_utf8 c" "len_utf8 c \<le> 4" by (simp_all add: len_utf8_def)
    show ?thesis
    proof (cases "len_utf8 c \<le> n")
      case True
      then have "n - len_utf8 c \<le> byte_len s" using "2.prems" by (simp add: byte_len_def)
      with "2.IH" [OF False] have "byte_len (drain_to (n - len_utf8 c) s) + (n - len_utf8 c) \<le> byte_len s"
        "byte_len s \<le> byte_len (drain_to (n - len_utf8 c) s) + (n - len_utf8 c) + 3" by blast+
      with True have "byte_len (drain_to (n - len_utf8 c) s) + n \<le> len_utf8 c + byte_len s"
        "len_utf8 c + byte_len s \<le> byte_len (drain_to (n - len_utf8 c) s) + n + 3" by linarith+
      with False show ?thesis by (simp add: byte_len_def)
    next
      case le: False
      then have "drain_to (n - len_utf8 c) s = s" by (cases s) simp_all
      with False le c show ?thesis by (simp add: byte_len_def)
    qed
  qed (simp add: byte_len_def)
qed (simp add: byte_len_def)

text \<open>The loop of \<^verbatim>\<open>push\<close>: oldest lines go, and the front of a line that is longer than what is left to drop.\<close>

function sb_trim :: "keep_order_line list \<Rightarrow> nat \<Rightarrow> bool \<Rightarrow> keep_order_line list \<times> nat \<times> bool" where
  "sb_trim lines bytes truncated =
     (if bytes > SUMMARY_TAIL_BYTES then
        (case lines of
           [] \<Rightarrow> (lines, bytes, truncated)
         | oldest # rest \<Rightarrow>
             let excess = bytes - SUMMARY_TAIL_BYTES; len = byte_len (line_text oldest)
             in if len \<le> excess then sb_trim rest (bytes - (len + 1)) True
                else
                  let kept = drain_to excess (line_text oldest)
                  in sb_trim (set_text kept oldest # rest) (bytes - (len - byte_len kept)) True)
      else (lines, bytes, truncated))"
  by pat_completeness auto
termination
proof (relation "measure (\<lambda>(lines, bytes, _). bytes + length lines)", goal_cases)
  case (3 lines bytes truncated oldest rest x len kept)
  then have "byte_len kept + x \<le> len" using drain_to_bounds [of x "line_text oldest"] by simp
  with 3 show ?case by simp
qed auto

declare sb_trim.simps [simp del]

definition sb_push :: "keep_order_line \<Rightarrow> summary_buffer \<Rightarrow> summary_buffer" where
  "sb_push line b =
     (if sb_first b = None \<and> sb_lines b = [] \<and> byte_len (line_text line) \<le> SUMMARY_FIRST_LINE_BYTES
      then b\<lparr>sb_first := Some line\<rparr>
      else
        (case sb_trim (sb_lines b @ [line]) (sb_bytes b + (byte_len (line_text line) + 1)) (sb_truncated b) of
           (lines, bytes, truncated) \<Rightarrow> b\<lparr>sb_lines := lines, sb_bytes := bytes, sb_truncated := truncated\<rparr>))"

definition sb_into_lines :: "ustr \<Rightarrow> summary_buffer \<Rightarrow> keep_order_line list" where
  "sb_into_lines prefix b =
     (case sb_first b of Some l \<Rightarrow> [l] | None \<Rightarrow> [])
     @ (if sb_truncated b then [Stderr prefix (lit ''[output truncated; showing last 64 KiB]'')] else [])
     @ sb_lines b"

section \<open>The keep-order state\<close>

record 'k keep_order_state =
  ko_active :: "'k option"
  ko_buffers :: "('k, keep_order_line list) imap"
  ko_finished :: "'k list"
  ko_injected_by :: "('k, 'k list) imap"
  ko_done :: bool
  ko_out :: "('k \<times> keep_order_line) list"

definition ko_new :: "'k keep_order_state" where
  "ko_new = \<lparr> ko_active = None, ko_buffers = [], ko_finished = [], ko_injected_by = [], ko_done = False, ko_out = [] \<rparr>"

definition ko_contains :: "'k keep_order_state \<Rightarrow> 'k \<Rightarrow> bool" where
  "ko_contains s k \<longleftrightarrow> k \<in> fst ` set (ko_buffers s)"

definition ko_init_task :: "'k \<Rightarrow> 'k keep_order_state \<Rightarrow> 'k keep_order_state" where
  "ko_init_task k s = (if ko_contains s k then s else s\<lparr>ko_buffers := ko_buffers s @ [(k, [])]\<rparr>)"

subsection \<open>Slots for injected tasks\<close>

text \<open>The walk up the record of injections; \<open>seen\<close> makes it end.\<close>

definition ko_parents :: "('k, 'k list) imap \<Rightarrow> 'k \<Rightarrow> 'k list" where
  "ko_parents injected_by k = (case map_of injected_by k of Some ps \<Rightarrow> ps | None \<Rightarrow> [])"

definition ko_known :: "('k, 'k list) imap \<Rightarrow> 'k set" where
  "ko_known injected_by = (\<Union>(k, ps)\<in>set injected_by. set ps)"

lemma ko_parents_known: "set (ko_parents injected_by k) \<subseteq> ko_known injected_by"
proof (cases "map_of injected_by k")
  case (Some ps)
  then have "(k, ps) \<in> set injected_by" by (rule map_of_SomeD)
  with Some show ?thesis by (auto simp: ko_parents_def ko_known_def)
qed (simp add: ko_parents_def)

lemma finite_ko_known [simp]: "finite (ko_known injected_by)"
  by (auto simp: ko_known_def)

function ko_descends_loop :: "('k, 'k list) imap \<Rightarrow> 'k \<Rightarrow> 'k list \<Rightarrow> 'k list \<Rightarrow> bool" where
  "ko_descends_loop injected_by ancestor seen [] = False"
| "ko_descends_loop injected_by ancestor seen (current # stack) =
     (if current \<in> set seen then ko_descends_loop injected_by ancestor seen stack
      else
        let parents = ko_parents injected_by current
        in if ancestor \<in> set parents then True
           else ko_descends_loop injected_by ancestor (current # seen) (rev parents @ stack))"
  by pat_completeness auto
termination
proof (relation "measures [\<lambda>(m, a, seen, stack). card (ko_known m \<union> set stack - set seen),
    \<lambda>(m, a, seen, stack). length stack]", goal_cases)
  case 1
  show ?case by simp
next
  case (2 m a seen k stack)
  have "card (ko_known m \<union> set stack - set seen) \<le> card (ko_known m \<union> set (k # stack) - set seen)"
    by (intro card_mono) auto
  then show ?case by (auto simp: le_less)
next
  case (3 m a seen k stack parents)
  have "card (ko_known m \<union> set (rev parents @ stack) - set (k # seen)) < card (ko_known m \<union> set (k # stack) - set seen)"
    using 3 ko_parents_known [of m k] by (intro psubset_card_mono) auto
  then show ?case by simp
qed

definition ko_descends_from :: "'k keep_order_state \<Rightarrow> 'k \<Rightarrow> 'k \<Rightarrow> bool" where
  "ko_descends_from s k ancestor = ko_descends_loop (ko_injected_by s) ancestor [] [k]"

fun index_of :: "'k \<Rightarrow> ('k, 'v) imap \<Rightarrow> nat option" where
  "index_of k [] = None"
| "index_of k ((k', v) # m) = (if k = k' then Some 0 else map_option Suc (index_of k m))"

definition ko_group_end :: "'k keep_order_state \<Rightarrow> 'k \<Rightarrow> nat \<Rightarrow> nat" where
  "ko_group_end s parent parent_idx =
     foldl (\<lambda>e idx. if ko_descends_from s (fst (ko_buffers s ! idx)) parent then idx + 1 else e)
       (parent_idx + 1) [parent_idx + 1 ..< length (ko_buffers s)]"

text \<open>\<^verbatim>\<open>IndexMap::shift_insert\<close> of a key that is not there yet.\<close>

definition shift_insert :: "nat \<Rightarrow> 'k \<Rightarrow> 'v \<Rightarrow> ('k, 'v) imap \<Rightarrow> ('k, 'v) imap" where
  "shift_insert idx k v m = take idx m @ (k, v) # drop idx m"

definition ko_adopt :: "'k \<Rightarrow> 'k \<Rightarrow> 'k keep_order_state \<Rightarrow> 'k keep_order_state" where
  "ko_adopt parent k s =
     (if ko_descends_from s parent k then s
      else
        let parents = ko_parents (ko_injected_by s) k
        in s\<lparr>ko_injected_by := imap_insert k (if parent \<in> set parents then parents else parents @ [parent])
               (ko_injected_by s)\<rparr>)"

fun ko_inject_loop :: "bool \<Rightarrow> 'k \<Rightarrow> nat \<Rightarrow> 'k list \<Rightarrow> 'k keep_order_state \<Rightarrow> 'k keep_order_state" where
  "ko_inject_loop after parent idx [] s = s"
| "ko_inject_loop after parent idx (k # ks) s =
     (case index_of k (ko_buffers s) of
        Some existing \<Rightarrow>
          ko_inject_loop after parent (if after \<and> existing \<ge> idx then existing + 1 else idx) ks (ko_adopt parent k s)
      | None \<Rightarrow>
          ko_inject_loop after parent (idx + 1) ks
            (s\<lparr>ko_buffers := shift_insert idx k [] (ko_buffers s),
               ko_injected_by := imap_insert k [parent] (ko_injected_by s)\<rparr>))"

definition ko_insert_injected_tasks ::
    "('k \<Rightarrow> bool) \<Rightarrow> 'k \<Rightarrow> 'k list \<Rightarrow> 'k keep_order_state \<Rightarrow> 'k keep_order_state" where
  "ko_insert_injected_tasks needs_permit parent tasks s =
     (case index_of parent (ko_buffers s) of
        None \<Rightarrow> fold ko_init_task tasks s
      | Some parent_idx \<Rightarrow>
          let after = needs_permit parent
          in ko_inject_loop after parent (if after then ko_group_end s parent parent_idx else parent_idx) tasks s)"

subsection \<open>Lines and the end of tasks\<close>

definition ko_print :: "'k \<Rightarrow> keep_order_line list \<Rightarrow> 'k keep_order_state \<Rightarrow> 'k keep_order_state" where
  "ko_print k lines s = s\<lparr>ko_out := ko_out s @ map (Pair k) lines\<rparr>"

definition ko_is_active :: "'k keep_order_state \<Rightarrow> 'k \<Rightarrow> bool" where
  "ko_is_active s k =
     (case ko_active s of
        Some active \<Rightarrow> active = k
      | None \<Rightarrow> (case ko_buffers s of [] \<Rightarrow> False | (first, _) # _ \<Rightarrow> first = k))"

definition ko_activate :: "'k \<Rightarrow> 'k keep_order_state \<Rightarrow> 'k keep_order_state" where
  "ko_activate k s =
     (let s = s\<lparr>ko_active := Some k\<rparr>
      in case map_of (ko_buffers s) k of
           Some lines \<Rightarrow> ko_print k lines (s\<lparr>ko_buffers := imap_insert k [] (ko_buffers s)\<rparr>)
         | None \<Rightarrow> s)"

text \<open>\<^verbatim>\<open>on_stdout\<close> and \<^verbatim>\<open>on_stderr\<close>, which differ in the kind of line.\<close>

definition ko_on_line :: "'k \<Rightarrow> keep_order_line \<Rightarrow> 'k keep_order_state \<Rightarrow> 'k keep_order_state" where
  "ko_on_line k line s =
     (if ko_done s \<or> ko_is_active s k then ko_print k [line] (ko_activate k s)
      else
        s\<lparr>ko_buffers := imap_insert k
            ((case map_of (ko_buffers s) k of Some lines \<Rightarrow> lines | None \<Rightarrow> []) @ [line]) (ko_buffers s)\<rparr>)"

definition ko_on_stdout :: "'k \<Rightarrow> ustr \<Rightarrow> ustr \<Rightarrow> 'k keep_order_state \<Rightarrow> 'k keep_order_state" where
  "ko_on_stdout k prefix line = ko_on_line k (Stdout prefix line)"

definition ko_on_stderr :: "'k \<Rightarrow> ustr \<Rightarrow> ustr \<Rightarrow> 'k keep_order_state \<Rightarrow> 'k keep_order_state" where
  "ko_on_stderr k prefix line = ko_on_line k (Stderr prefix line)"

text \<open>
  \<^verbatim>\<open>flush_finished\<close>: what is left of the set of finished tasks and of the slots, and what is printed.
  The code puts the tasks that are left back in the order of a hash set; here it is the order in
  which they finished, and only membership is ever asked for.
\<close>

fun ko_flush_loop ::
    "'k list \<Rightarrow> ('k, keep_order_line list) imap \<Rightarrow> ('k \<times> keep_order_line) list
     \<Rightarrow> 'k list \<times> ('k, keep_order_line list) imap \<times> ('k \<times> keep_order_line) list" where
  "ko_flush_loop finished [] out = (finished, [], out)"
| "ko_flush_loop finished ((k, lines) # buffers) out =
     (if k \<in> set finished
      then ko_flush_loop (removeAll k finished) buffers (out @ map (Pair k) lines)
      else (finished, (k, lines) # buffers, out))"

definition ko_flush_finished :: "'k keep_order_state \<Rightarrow> 'k keep_order_state" where
  "ko_flush_finished s =
     (case ko_flush_loop (remdups (ko_finished s)) (ko_buffers s) (ko_out s) of
        (finished, buffers, out) \<Rightarrow> s\<lparr>ko_finished := finished, ko_buffers := buffers, ko_out := out\<rparr>)"

definition ko_promote_next :: "'k keep_order_state \<Rightarrow> 'k keep_order_state" where
  "ko_promote_next s =
     (case ko_buffers s of
        (k, l # ls) # _ \<Rightarrow> ko_activate k s
      | _ \<Rightarrow> s)"

definition ko_on_task_finished :: "'k \<Rightarrow> 'k keep_order_state \<Rightarrow> 'k keep_order_state" where
  "ko_on_task_finished k s =
     (if \<not> ko_contains s k then s
      else if ko_is_active s k then
        let s = s\<lparr>ko_active := None\<rparr>;
            s = ko_print k (case map_of (ko_buffers s) k of Some lines \<Rightarrow> lines | None \<Rightarrow> [])
                  (s\<lparr>ko_buffers := filter (\<lambda>(k', _). k' \<noteq> k) (ko_buffers s)\<rparr>)
        in ko_promote_next (ko_flush_finished s)
      else s\<lparr>ko_finished := ko_finished s @ [k]\<rparr>)"

definition ko_retire_unused_slot :: "'k \<Rightarrow> 'k keep_order_state \<Rightarrow> 'k keep_order_state" where
  "ko_retire_unused_slot k s =
     (if ko_active s = Some k then s
      else if map_of (ko_buffers s) k = Some [] then ko_on_task_finished k s
      else s)"

definition ko_flush_all :: "'k keep_order_state \<Rightarrow> 'k keep_order_state" where
  "ko_flush_all s =
     (let s = ko_flush_finished (s\<lparr>ko_active := None\<rparr>)
      in s\<lparr>ko_buffers := [], ko_out := ko_out s @ concat (map (\<lambda>(k, lines). map (Pair k) lines) (ko_buffers s)),
           ko_done := True\<rparr>)"

section \<open>Runs\<close>

datatype 'k ko_op =
    InitTask 'k
  | InsertInjected 'k "'k list"
  | OnStdout 'k ustr ustr
  | OnStderr 'k ustr ustr
  | TaskFinished 'k
  | RetireUnused 'k
  | FlushAll

fun ko_step :: "('k \<Rightarrow> bool) \<Rightarrow> 'k ko_op \<Rightarrow> 'k keep_order_state \<Rightarrow> 'k keep_order_state" where
  "ko_step np (InitTask k) s = ko_init_task k s"
| "ko_step np (InsertInjected p ks) s = ko_insert_injected_tasks np p ks s"
| "ko_step np (OnStdout k p t) s = ko_on_stdout k p t s"
| "ko_step np (OnStderr k p t) s = ko_on_stderr k p t s"
| "ko_step np (TaskFinished k) s = ko_on_task_finished k s"
| "ko_step np (RetireUnused k) s = ko_retire_unused_slot k s"
| "ko_step np FlushAll s = ko_flush_all s"

definition ko_run :: "('k \<Rightarrow> bool) \<Rightarrow> 'k ko_op list \<Rightarrow> 'k keep_order_state" where
  "ko_run np ops = fold (ko_step np) ops ko_new"

end
