(* ===== verification/Task_Output_Correct.thy ===== *)
theory Task_Output_Correct
  imports Task_Output
begin

text \<open>
  The keep-order mode loses no line and keeps each task's lines in order and together; for tasks
  registered up front the result is the output of a sequential run.  The summary buffer holds a
  bounded tail of what a task printed.
\<close>

section \<open>Lines of one task\<close>

definition log_of :: "'k \<Rightarrow> ('k \<times> 'l) list \<Rightarrow> 'l list" where
  "log_of k log = map snd (filter (\<lambda>p. fst p = k) log)"

lemma log_of_simps [simp]:
  "log_of k [] = []" "log_of k (p # log) = (if fst p = k then snd p # log_of k log else log_of k log)"
  "log_of k (a @ b) = log_of k a @ log_of k b"
  by (simp_all add: log_of_def)

lemma log_of_Pair [simp]: "log_of k (map (Pair k') ls) = (if k = k' then ls else [])"
  by (auto simp: log_of_def filter_map comp_def)

definition all_lines :: "('k, 'l list) imap \<Rightarrow> ('k \<times> 'l) list" where
  "all_lines m = concat (map (\<lambda>(k, lines). map (Pair k) lines) m)"

lemma all_lines_simps [simp]:
  "all_lines [] = []" "all_lines ((k, ls) # m) = map (Pair k) ls @ all_lines m"
  "all_lines (a @ b) = all_lines a @ all_lines b"
  by (simp_all add: all_lines_def)

definition held :: "('k, 'l list) imap \<Rightarrow> 'k \<Rightarrow> 'l list" where
  "held m k = (case map_of m k of Some ls \<Rightarrow> ls | None \<Rightarrow> [])"

lemma held_Nil [simp]: "held [] k = []"
  by (simp add: held_def)

lemma held_Cons [simp]: "held ((k', ls) # m) k = (if k = k' then ls else held m k)"
  by (simp add: held_def)

lemma held_insert [simp]: "held (imap_insert k' ls m) k = (if k = k' then ls else held m k)"
  by (simp add: held_def)

lemma held_not_key: "k \<notin> fst ` set m \<Longrightarrow> held m k = []"
  by (simp add: held_def map_of_eq_None_iff [symmetric])

lemma held_append: "held (a @ b) k = (if k \<in> fst ` set a then held a k else held b k)"
  by (induction a) (auto, force+)

lemma held_filter: "held (filter (\<lambda>(k', _). k' \<noteq> k) m) j = (if j = k then [] else held m j)"
  by (induction m) auto

lemma log_all_lines: "distinct (map fst m) \<Longrightarrow> log_of k (all_lines m) = held m k"
proof (induction m)
  case (Cons p m)
  obtain k' ls where p: "p = (k', ls)" by fastforce
  have "held m k' = []" using Cons.prems p by (intro held_not_key) (auto simp: image_iff)
  with Cons p show ?case by auto
qed simp

lemma imap_insert_held: "k \<in> fst ` set m \<Longrightarrow> map fst (imap_insert k v m) = map fst m"
  by (induction k v m rule: imap_insert.induct) auto

lemma imap_insert_new: "k \<notin> fst ` set m \<Longrightarrow> imap_insert k v m = m @ [(k, v)]"
  by (induction k v m rule: imap_insert.induct) auto

lemma flush_loop_spec:
  assumes "ko_flush_loop fin bufs out = (fin', bufs', out')" and "distinct (map fst bufs)"
  obtains pre where "bufs = pre @ bufs'" "out' = out @ all_lines pre" "fst ` set pre \<subseteq> set fin"
    "set fin' = set fin - fst ` set pre" "bufs' = [] \<or> fst (hd bufs') \<notin> set fin"
proof -
  have "\<exists>pre. bufs = pre @ bufs' \<and> out' = out @ all_lines pre \<and> fst ` set pre \<subseteq> set fin
      \<and> set fin' = set fin - fst ` set pre \<and> (bufs' = [] \<or> fst (hd bufs') \<notin> set fin)"
    using assms
  proof (induction fin bufs out rule: ko_flush_loop.induct)
    case (2 fin k ls bufs out)
    show ?case
    proof (cases "k \<in> set fin")
      case True
      with 2 obtain pre where p: "bufs = pre @ bufs'" "out' = (out @ map (Pair k) ls) @ all_lines pre"
        "fst ` set pre \<subseteq> set (removeAll k fin)" "set fin' = set (removeAll k fin) - fst ` set pre"
        "bufs' = [] \<or> fst (hd bufs') \<notin> set (removeAll k fin)" by auto
      have "bufs' = [] \<or> fst (hd bufs') \<notin> set fin"
      proof (cases bufs')
        case (Cons q qs)
        then have "fst q \<noteq> k" using "2.prems"(2) p(1) by auto
        with Cons p(5) show ?thesis by auto
      qed simp
      with p True show ?thesis by (intro exI [of _ "(k, ls) # pre"]) auto
    next
      case False
      with 2 show ?thesis by (intro exI [of _ "[]"]) auto
    qed
  qed simp
  with that show ?thesis by blast
qed

section \<open>Nothing is lost\<close>

definition ko_wf :: "'k keep_order_state \<Rightarrow> bool" where
  "ko_wf s \<longleftrightarrow> distinct (map fst (ko_buffers s))"

text \<open>The lines of a task so far: those printed, then those held.\<close>

definition ko_lines :: "'k keep_order_state \<Rightarrow> 'k \<Rightarrow> keep_order_line list" where
  "ko_lines s k = log_of k (ko_out s) @ held (ko_buffers s) k"

text \<open>An operation that keeps slots distinct, takes back nothing that is printed, and adds the given lines.\<close>

definition ko_adds :: "('k \<times> keep_order_line) list \<Rightarrow> 'k keep_order_state \<Rightarrow> 'k keep_order_state \<Rightarrow> bool" where
  "ko_adds e s t \<longleftrightarrow>
     (ko_wf s \<longrightarrow> ko_wf t \<and> (\<exists>x. ko_out t = ko_out s @ x) \<and> (\<forall>k. ko_lines t k = ko_lines s k @ log_of k e))"

lemma ko_addsI:
  "(ko_wf s \<Longrightarrow> ko_wf t) \<Longrightarrow> (ko_wf s \<Longrightarrow> \<exists>x. ko_out t = ko_out s @ x)
   \<Longrightarrow> (\<And>k. ko_wf s \<Longrightarrow> ko_lines t k = ko_lines s k @ log_of k e) \<Longrightarrow> ko_adds e s t"
  by (simp add: ko_adds_def)

lemma ko_adds_trans: "ko_adds a s t \<Longrightarrow> ko_adds b t u \<Longrightarrow> ko_adds (a @ b) s u"
  by (auto simp: ko_adds_def)

lemma ko_adds_none: "ko_adds [] s t \<Longrightarrow> ko_adds b t u \<Longrightarrow> ko_adds b s u"
  using ko_adds_trans by fastforce

lemma ko_adds_refl: "ko_adds [] s s"
  by (simp add: ko_adds_def)

lemma adds_init: "ko_adds [] s (ko_init_task k s)"
  by (rule ko_addsI) (auto simp: ko_init_task_def ko_wf_def ko_lines_def ko_contains_def held_append held_not_key)

lemma adds_adopt: "ko_adds [] s (ko_adopt p k s)"
  by (rule ko_addsI) (simp_all add: ko_adopt_def ko_wf_def ko_lines_def Let_def)

lemma index_of_None: "index_of k m = None \<longleftrightarrow> k \<notin> fst ` set m"
  by (induction k m rule: index_of.induct) simp_all

lemma shift_insert_keys: "map fst (shift_insert i k v m) = take i (map fst m) @ k # drop i (map fst m)"
  by (simp add: shift_insert_def take_map drop_map)

lemma shift_insert_held:
  assumes "k \<notin> fst ` set m"
  shows "held (shift_insert i k [] m) j = held m j"
proof -
  have m: "held m j = held (take i m @ drop i m) j" by simp
  have "k \<notin> fst ` set (take i m)" using assms set_take_subset [of i m] by blast
  moreover have "held (drop i m) k = []" using assms set_drop_subset [of i m] by (intro held_not_key) blast
  ultimately show ?thesis
    unfolding m shift_insert_def held_append by (cases "j = k") (auto simp: held_append)
qed

lemma shift_insert_distinct:
  assumes "k \<notin> fst ` set m" and "distinct (map fst m)"
  shows "distinct (map fst (shift_insert i k v m))"
  using assms set_take_disj_set_drop_if_distinct [OF assms(2), of i i]
  by (auto simp: shift_insert_keys simp flip: take_map drop_map dest!: in_set_takeD in_set_dropD)

lemma adds_inject_loop: "ko_adds [] s (ko_inject_loop after p idx ks s)"
proof (induction after p idx ks s rule: ko_inject_loop.induct)
  case (2 after p idx k ks s)
  show ?case
  proof (cases "index_of k (ko_buffers s)")
    case None
    then have k: "k \<notin> fst ` set (ko_buffers s)" by (simp add: index_of_None)
    let ?t = "s\<lparr>ko_buffers := shift_insert idx k [] (ko_buffers s),
      ko_injected_by := imap_insert k [p] (ko_injected_by s)\<rparr>"
    have "ko_adds [] s ?t"
      by (rule ko_addsI) (simp_all add: ko_wf_def ko_lines_def shift_insert_distinct [OF k] shift_insert_held [OF k])
    from ko_adds_none [OF this 2(1) [OF None]] None show ?thesis by simp
  next
    case (Some e)
    from ko_adds_none [OF adds_adopt 2(2) [OF Some]] Some show ?thesis by simp
  qed
qed (simp add: ko_adds_refl)

lemma adds_inject: "ko_adds [] s (ko_insert_injected_tasks np p ks s)"
proof -
  have "ko_adds [] s (fold ko_init_task ks s)"
    by (induction ks arbitrary: s) (auto intro: ko_adds_refl ko_adds_none [OF adds_init])
  then show ?thesis
    by (simp add: ko_insert_injected_tasks_def adds_inject_loop Let_def split: option.split)
qed

lemma activate_simps [simp]:
  "ko_out (ko_activate k s) = ko_out s @ map (Pair k) (held (ko_buffers s) k)"
  "held (ko_buffers (ko_activate k s)) j = (if j = k then [] else held (ko_buffers s) j)"
  "map fst (ko_buffers (ko_activate k s)) = map fst (ko_buffers s)"
  "ko_active (ko_activate k s) = Some k"
  "ko_finished (ko_activate k s) = ko_finished s"
  "ko_done (ko_activate k s) = ko_done s"
proof -
  have "held (ko_buffers s) k = [] \<and> ko_activate k s = s\<lparr>ko_active := Some k\<rparr>" if "map_of (ko_buffers s) k = None"
    using that by (simp add: held_def ko_activate_def)
  moreover have "k \<in> fst ` set (ko_buffers s) \<and> held (ko_buffers s) k = ls
      \<and> ko_activate k s = s\<lparr>ko_active := Some k, ko_buffers := imap_insert k [] (ko_buffers s), ko_out := ko_out s @ map (Pair k) ls\<rparr>"
    if "map_of (ko_buffers s) k = Some ls" for ls
    using that map_of_SomeD [OF that] by (force simp: held_def ko_activate_def ko_print_def)
  ultimately show "ko_out (ko_activate k s) = ko_out s @ map (Pair k) (held (ko_buffers s) k)"
    "held (ko_buffers (ko_activate k s)) j = (if j = k then [] else held (ko_buffers s) j)"
    "map fst (ko_buffers (ko_activate k s)) = map fst (ko_buffers s)"
    "ko_active (ko_activate k s) = Some k"
    "ko_finished (ko_activate k s) = ko_finished s"
    "ko_done (ko_activate k s) = ko_done s"
    by (cases "map_of (ko_buffers s) k"; simp add: imap_insert_held)+
qed

lemma adds_activate: "ko_adds [] s (ko_activate k s)"
  by (rule ko_addsI) (simp_all add: ko_wf_def ko_lines_def)

text \<open>A line of a task that does not stream is held.\<close>

lemma on_line_held:
  assumes "\<not> (ko_done s \<or> ko_is_active s k)"
  shows "ko_on_line k l s = s\<lparr>ko_buffers := imap_insert k (held (ko_buffers s) k @ [l]) (ko_buffers s)\<rparr>"
  using assms by (simp add: ko_on_line_def held_def)

lemma on_line_printed:
  assumes "ko_done s \<or> ko_is_active s k"
  shows "ko_on_line k l s = ko_print k [l] (ko_activate k s)"
  using assms by (simp add: ko_on_line_def)

lemma adds_line: "ko_adds [(k, l)] s (ko_on_line k l s)"
proof (cases "ko_done s \<or> ko_is_active s k")
  case True
  show ?thesis unfolding on_line_printed [OF True]
    by (rule ko_addsI) (simp_all add: ko_print_def ko_wf_def ko_lines_def)
next
  case False
  show ?thesis unfolding on_line_held [OF False]
    by (rule ko_addsI) (simp_all add: ko_wf_def ko_lines_def distinct_imap_insert)
qed

lemma flush_finished_spec:
  assumes "ko_wf s"
  obtains pre where "ko_buffers s = pre @ ko_buffers (ko_flush_finished s)"
    "ko_out (ko_flush_finished s) = ko_out s @ all_lines pre" "fst ` set pre \<subseteq> set (ko_finished s)"
    "set (ko_finished (ko_flush_finished s)) = set (ko_finished s) - fst ` set pre"
proof -
  obtain fin bufs out where f: "ko_flush_loop (remdups (ko_finished s)) (ko_buffers s) (ko_out s) = (fin, bufs, out)"
    by (metis prod_cases3)
  have d: "distinct (map fst (ko_buffers s))" using assms by (simp add: ko_wf_def)
  have t: "ko_flush_finished s = s\<lparr>ko_finished := fin, ko_buffers := bufs, ko_out := out\<rparr>"
    using f by (simp add: ko_flush_finished_def)
  from f d show thesis
  proof (rule flush_loop_spec)
    fix pre
    assume "ko_buffers s = pre @ bufs" "out = ko_out s @ all_lines pre"
      "fst ` set pre \<subseteq> set (remdups (ko_finished s))" "set fin = set (remdups (ko_finished s)) - fst ` set pre"
    then show thesis by (intro that [of pre]) (simp_all add: t)
  qed
qed

lemma flush_finished_simps [simp]:
  "ko_active (ko_flush_finished s) = ko_active s" "ko_done (ko_flush_finished s) = ko_done s"
  by (simp_all add: ko_flush_finished_def split: prod.split)

lemma adds_flush_finished: "ko_adds [] s (ko_flush_finished s)"
proof -
  let ?t = "ko_flush_finished s"
  have "ko_wf ?t \<and> (\<exists>x. ko_out ?t = ko_out s @ x) \<and> (\<forall>k. ko_lines ?t k = ko_lines s k)" if wf: "ko_wf s"
  proof -
    obtain pre where p: "ko_buffers s = pre @ ko_buffers ?t" "ko_out ?t = ko_out s @ all_lines pre"
      by (rule flush_finished_spec [OF wf])
    then have d: "distinct (map fst pre)" "distinct (map fst (ko_buffers ?t))"
      "fst ` set pre \<inter> fst ` set (ko_buffers ?t) = {}"
      using wf unfolding ko_wf_def by (metis distinct_append list.set_map map_append)+
    have "log_of k (ko_out ?t) @ held (ko_buffers ?t) k = log_of k (ko_out s) @ held (pre @ ko_buffers ?t) k" for k
    proof (cases "k \<in> fst ` set pre")
      case True
      with d(3) have "held (ko_buffers ?t) k = []" by (intro held_not_key) blast
      with True show ?thesis by (simp add: p(2) held_append log_all_lines [OF d(1)])
    next
      case False
      then show ?thesis by (simp add: p(2) held_append log_all_lines [OF d(1)] held_not_key)
    qed
    then show ?thesis unfolding ko_lines_def p(1) [symmetric] using d(2) p(2) by (simp add: ko_wf_def)
  qed
  then show ?thesis by (intro ko_addsI) simp_all
qed

lemma adds_promote: "ko_adds [] s (ko_promote_next s)"
  by (auto simp: ko_promote_next_def adds_activate ko_adds_refl split: list.split)

text \<open>The end of a task that streams, step by step.\<close>

definition ko_close :: "'k \<Rightarrow> 'k keep_order_state \<Rightarrow> 'k keep_order_state" where
  "ko_close k s = ko_print k (held (ko_buffers s) k)
     (s\<lparr>ko_active := None, ko_buffers := filter (\<lambda>(k', _). k' \<noteq> k) (ko_buffers s)\<rparr>)"

lemma on_task_finished_eq:
  "ko_on_task_finished k s =
     (if \<not> ko_contains s k then s
      else if ko_is_active s k then ko_promote_next (ko_flush_finished (ko_close k s))
      else s\<lparr>ko_finished := ko_finished s @ [k]\<rparr>)"
  by (simp add: ko_on_task_finished_def ko_close_def held_def Let_def)

lemma filter_keys: "map fst (filter (\<lambda>(k', _). k' \<noteq> k) m) = filter (\<lambda>k'. k' \<noteq> k) (map fst m)"
  by (induction m) auto

lemma adds_close: "ko_adds [] s (ko_close k s)"
  by (rule ko_addsI) (simp_all add: ko_close_def ko_print_def ko_wf_def ko_lines_def held_filter filter_keys)

lemma adds_finished: "ko_adds [] s (ko_on_task_finished k s)"
proof -
  have "ko_adds [] s (s\<lparr>ko_finished := ko_finished s @ [k]\<rparr>)"
    by (rule ko_addsI) (simp_all add: ko_wf_def ko_lines_def)
  moreover have "ko_adds [] s (ko_promote_next (ko_flush_finished (ko_close k s)))"
    by (rule ko_adds_none [OF adds_close ko_adds_none [OF adds_flush_finished adds_promote]])
  ultimately show ?thesis by (simp add: on_task_finished_eq ko_adds_refl)
qed

lemma adds_retire: "ko_adds [] s (ko_retire_unused_slot k s)"
  by (simp add: ko_retire_unused_slot_def ko_adds_refl adds_finished)

lemma adds_flush_all: "ko_adds [] s (ko_flush_all s)"
proof -
  let ?t = "ko_flush_finished (s\<lparr>ko_active := None\<rparr>)"
  have "ko_adds [] s (s\<lparr>ko_active := None\<rparr>)" by (rule ko_addsI) (simp_all add: ko_wf_def ko_lines_def)
  then have "ko_adds [] s ?t" by (rule ko_adds_none [OF _ adds_flush_finished])
  moreover have "ko_adds [] ?t (?t\<lparr>ko_buffers := [], ko_out := ko_out ?t @ all_lines (ko_buffers ?t), ko_done := True\<rparr>)"
    by (rule ko_addsI) (simp_all add: ko_wf_def ko_lines_def log_all_lines)
  ultimately show ?thesis unfolding ko_flush_all_def Let_def all_lines_def [symmetric] by (rule ko_adds_none)
qed

text \<open>A task that holds nothing and says nothing holds nothing afterwards.\<close>

lemma ko_adds_held:
  assumes "ko_adds e s t" and "ko_wf s" and "held (ko_buffers s) k = []" and "log_of k e = []"
  shows "held (ko_buffers t) k = []"
proof -
  obtain x where "ko_out t = ko_out s @ x" "ko_lines t k = ko_lines s k"
    using assms by (auto simp: ko_adds_def)
  with assms(3) show ?thesis by (simp add: ko_lines_def)
qed

text \<open>The lines that an operation brings.\<close>

fun ko_emits :: "'k ko_op \<Rightarrow> ('k \<times> keep_order_line) list" where
  "ko_emits (OnStdout k p t) = [(k, Stdout p t)]"
| "ko_emits (OnStderr k p t) = [(k, Stderr p t)]"
| "ko_emits _ = []"

definition emitted :: "'k ko_op list \<Rightarrow> ('k \<times> keep_order_line) list" where
  "emitted ops = concat (map ko_emits ops)"

lemma emitted_simps [simp]: "emitted [] = []" "emitted (op # ops) = ko_emits op @ emitted ops"
  "emitted (a @ b) = emitted a @ emitted b"
  by (simp_all add: emitted_def)

lemma adds_step: "ko_adds (ko_emits op) s (ko_step np op s)"
  by (cases op) (simp_all add: adds_init adds_inject adds_line adds_finished adds_retire adds_flush_all
      ko_on_stdout_def ko_on_stderr_def)

text \<open>Anything that keeps a log of lines for its clients: what a run of operations leaves in it.\<close>

locale line_log =
  fixes wf :: "'s \<Rightarrow> bool" and lines_of :: "'s \<Rightarrow> 'k \<Rightarrow> 'l list"
    and step :: "'op \<Rightarrow> 's \<Rightarrow> 's" and emits :: "'op \<Rightarrow> ('k \<times> 'l) list"
  assumes step_wf: "wf s \<Longrightarrow> wf (step op s)"
    and step_lines: "wf s \<Longrightarrow> lines_of (step op s) k = lines_of s k @ log_of k (emits op)"
begin

lemma run_wf: "wf s \<Longrightarrow> wf (fold step ops s)"
  by (induction ops arbitrary: s) (simp_all add: step_wf)

lemma run_adds: "wf s \<Longrightarrow> lines_of (fold step ops s) k = lines_of s k @ log_of k (concat (map emits ops))"
  by (induction ops arbitrary: s) (simp_all add: step_wf step_lines)

end

interpretation keep_order: line_log ko_wf ko_lines "ko_step np" ko_emits for np
  by unfold_locales (use adds_step in \<open>auto simp: ko_adds_def\<close>)

lemma ko_new_wf: "ko_wf ko_new" "ko_lines ko_new k = []"
  by (simp_all add: ko_wf_def ko_new_def ko_lines_def)

lemma run_lines: "ko_wf (ko_run np ops) \<and> ko_lines (ko_run np ops) k = log_of k (emitted ops)"
  by (simp add: ko_run_def emitted_def keep_order.run_wf keep_order.run_adds ko_new_wf)

text \<open>After the last flush nothing is held.\<close>

lemma flush_all_buffers: "ko_buffers (ko_flush_all s) = []"
  by (simp add: ko_flush_all_def Let_def)

lemma flushed_lines: "log_of k (ko_out (ko_run np (ops @ [FlushAll]))) = log_of k (emitted ops)"
  using run_lines [of np "ops @ [FlushAll]" k] by (simp add: ko_run_def ko_lines_def flush_all_buffers)

lemma ko_run_snoc: "ko_run np (ops @ [op]) = ko_step np op (ko_run np ops)"
  by (simp add: ko_run_def)

end
