(* ===== verification/Task_Output_Order.thy ===== *)
theory Task_Output_Order
  imports Task_Output_Correct
begin

text \<open>
  The order of what the keep-order mode prints: with all slots registered up front it is the
  output of the tasks one after the other, and in every run each task's lines stay together.
\<close>

section \<open>Tasks registered up front\<close>

text \<open>The lines of a log task by task.\<close>

definition by_task :: "'k list \<Rightarrow> ('k \<times> 'l) list \<Rightarrow> ('k \<times> 'l) list" where
  "by_task ks log = concat (map (\<lambda>k. map (Pair k) (log_of k log)) ks)"

lemma by_task_simps [simp]:
  "by_task [] log = []" "by_task (k # ks) log = map (Pair k) (log_of k log) @ by_task ks log"
  "by_task (a @ b) log = by_task a log @ by_task b log"
  by (simp_all add: by_task_def)

lemma by_task_cong: "(\<And>k. k \<in> set ks \<Longrightarrow> log_of k a = log_of k b) \<Longrightarrow> by_task ks a = by_task ks b"
  by (induction ks) simp_all

lemma by_task_held:
  "distinct (map fst m) \<Longrightarrow> \<forall>k\<in>fst ` set m. held m k = log_of k log \<Longrightarrow> all_lines m = by_task (map fst m) log"
proof (induction m)
  case (Cons p m)
  obtain k ls where p: "p = (k, ls)" by fastforce
  have "held m j = log_of j log" if "j \<in> fst ` set m" for j
    using Cons.prems that p by (auto split: if_splits)
  with Cons p show ?case by auto
qed simp

text \<open>
  A run in order: the operations on tasks, none with a line after the task was reported
  finished or its slot retired.
\<close>

fun speaks_until_finished :: "'k set \<Rightarrow> 'k ko_op list \<Rightarrow> bool" where
  "speaks_until_finished over [] = True"
| "speaks_until_finished over (OnStdout k p t # ops) = (k \<notin> over \<and> speaks_until_finished over ops)"
| "speaks_until_finished over (OnStderr k p t # ops) = (k \<notin> over \<and> speaks_until_finished over ops)"
| "speaks_until_finished over (TaskFinished k # ops) = speaks_until_finished (insert k over) ops"
| "speaks_until_finished over (RetireUnused k # ops) = speaks_until_finished (insert k over) ops"
| "speaks_until_finished over (FlushAll # ops) = False"
| "speaks_until_finished over (op # ops) = speaks_until_finished over ops"

fun on_slots :: "'k set \<Rightarrow> 'k ko_op \<Rightarrow> bool" where
  "on_slots ts (InitTask k) = False"
| "on_slots ts (InsertInjected p ks) = False"
| "on_slots ts (OnStdout k p t) = (k \<in> ts)"
| "on_slots ts (OnStderr k p t) = (k \<in> ts)"
| "on_slots ts _ = True"

text \<open>
  The state in the middle of such a run: the slots of the first tasks are gone and their
  lines printed, then come the lines of the task that streams, which has the first slot.
\<close>

definition in_order :: "'k list \<Rightarrow> 'k set \<Rightarrow> ('k \<times> keep_order_line) list \<Rightarrow> 'k keep_order_state \<Rightarrow> bool" where
  "in_order ts over log s \<longleftrightarrow> distinct ts \<and> \<not> ko_done s \<and> set (ko_finished s) \<subseteq> over
     \<and> (\<exists>gone. ts = gone @ map fst (ko_buffers s) \<and> set gone \<subseteq> over
          \<and> ko_out s = by_task gone log @ (case ko_active s of None \<Rightarrow> [] | Some a \<Rightarrow> map (Pair a) (log_of a log)))
     \<and> (\<forall>a. ko_active s = Some a \<longrightarrow> ko_buffers s \<noteq> [] \<and> fst (hd (ko_buffers s)) = a \<and> held (ko_buffers s) a = [])
     \<and> (\<forall>k\<in>fst ` set (ko_buffers s). ko_active s \<noteq> Some k \<longrightarrow> held (ko_buffers s) k = log_of k log)"

lemma in_orderI:
  assumes "distinct ts" "\<not> ko_done s" "set (ko_finished s) \<subseteq> over"
    and "ts = gone @ map fst (ko_buffers s)" "set gone \<subseteq> over"
    and "ko_out s = by_task gone log @ (case ko_active s of None \<Rightarrow> [] | Some a \<Rightarrow> map (Pair a) (log_of a log))"
    and "\<And>a. ko_active s = Some a \<Longrightarrow> ko_buffers s \<noteq> [] \<and> fst (hd (ko_buffers s)) = a \<and> held (ko_buffers s) a = []"
    and "\<And>k. k \<in> fst ` set (ko_buffers s) \<Longrightarrow> ko_active s \<noteq> Some k \<Longrightarrow> held (ko_buffers s) k = log_of k log"
  shows "in_order ts over log s"
  unfolding in_order_def using assms by blast

lemma in_orderD:
  assumes "in_order ts over log s"
  shows "distinct ts" "\<not> ko_done s" "set (ko_finished s) \<subseteq> over"
    and "\<And>k. k \<in> fst ` set (ko_buffers s) \<Longrightarrow> ko_active s \<noteq> Some k \<Longrightarrow> held (ko_buffers s) k = log_of k log"
  using assms unfolding in_order_def by blast+

lemma in_order_active:
  assumes "in_order ts over log s" and "ko_active s = Some a"
  shows "ko_buffers s \<noteq> []" "fst (hd (ko_buffers s)) = a" "held (ko_buffers s) a = []"
  using assms unfolding in_order_def by blast+

text \<open>A task takes the stream: it has the first slot, and what it held is printed.\<close>

lemma activate_first:
  assumes "ko_buffers s = (k, ls) # rest"
  shows "ko_buffers (ko_activate k s) \<noteq> [] \<and> fst (hd (ko_buffers (ko_activate k s))) = k"
    and "fst ` set (ko_buffers (ko_activate k s)) = fst ` set (ko_buffers s)"
proof -
  have "map fst (ko_buffers (ko_activate k s)) = k # map fst rest" using assms by simp
  then show "ko_buffers (ko_activate k s) \<noteq> [] \<and> fst (hd (ko_buffers (ko_activate k s))) = k"
    by (cases "ko_buffers (ko_activate k s)") auto
  show "fst ` set (ko_buffers (ko_activate k s)) = fst ` set (ko_buffers s)"
    using activate_simps(3) [of k s] by (metis set_map)
qed

lemma is_active_first:
  assumes "in_order ts over log s" and "ko_is_active s k"
  shows "\<exists>ls rest. ko_buffers s = (k, ls) # rest"
  using assms by (cases "ko_buffers s") (auto simp: in_order_def ko_is_active_def split: option.splits)

lemma in_order_printed:
  assumes "in_order ts over log s" and "ko_is_active s k" and "k \<in> fst ` set (ko_buffers s)"
  shows "\<exists>gone. ts = gone @ map fst (ko_buffers s) \<and> set gone \<subseteq> over
    \<and> ko_out s @ map (Pair k) (held (ko_buffers s) k) = by_task gone log @ map (Pair k) (log_of k log)"
proof -
  obtain gone where g: "ts = gone @ map fst (ko_buffers s)" "set gone \<subseteq> over"
    "ko_out s = by_task gone log @ (case ko_active s of None \<Rightarrow> [] | Some a \<Rightarrow> map (Pair a) (log_of a log))"
    using assms(1) by (auto simp: in_order_def)
  show ?thesis
  proof (cases "ko_active s")
    case None
    then have "held (ko_buffers s) k = log_of k log" using assms by (auto simp: in_order_def)
    with g None show ?thesis by auto
  next
    case (Some a)
    with assms have "a = k" "held (ko_buffers s) k = []" by (auto simp: in_order_def ko_is_active_def)
    with g Some show ?thesis by auto
  qed
qed

lemma in_order_line:
  assumes inv: "in_order ts over log s" and "k \<in> set ts" and "k \<notin> over"
  shows "in_order ts over (log @ [(k, l)]) (ko_on_line k l s)"
proof -
  obtain gone where g: "ts = gone @ map fst (ko_buffers s)" "set gone \<subseteq> over"
    "ko_out s = by_task gone log @ (case ko_active s of None \<Rightarrow> [] | Some a \<Rightarrow> map (Pair a) (log_of a log))"
    using inv by (auto simp: in_order_def)
  have key: "k \<in> fst ` set (ko_buffers s)" using g assms(2,3) by auto
  have same: "by_task gone' (log @ [(k, l)]) = by_task gone' log" if "set gone' \<subseteq> over" for gone'
    using that assms(3) by (intro by_task_cong) auto
  show ?thesis
  proof (cases "ko_is_active s k")
    case True
    obtain ls rest where b: "ko_buffers s = (k, ls) # rest" using is_active_first [OF inv True] by blast
    obtain gone' where g': "ts = gone' @ map fst (ko_buffers s)" "set gone' \<subseteq> over"
      "ko_out s @ map (Pair k) (held (ko_buffers s) k) = by_task gone' log @ map (Pair k) (log_of k log)"
      using in_order_printed [OF inv True key] by blast
    have na: "ko_active s \<noteq> Some j" if "j \<noteq> k" for j
      using True that by (auto simp: ko_is_active_def split: option.splits)
    let ?t = "ko_print k [l] (ko_activate k s)"
    have f: "ko_buffers ?t = ko_buffers (ko_activate k s)" "ko_active ?t = Some k" "ko_done ?t = ko_done s"
      "ko_finished ?t = ko_finished s" "ko_out ?t = (ko_out s @ map (Pair k) (held (ko_buffers s) k)) @ [(k, l)]"
      by (simp_all add: ko_print_def)
    have eq: "ko_on_line k l s = ?t" by (rule on_line_printed) (simp add: True)
    show ?thesis
      unfolding eq
    proof (rule in_orderI [where gone = gone'])
      show "distinct ts" "\<not> ko_done ?t" "set (ko_finished ?t) \<subseteq> over" "ts = gone' @ map fst (ko_buffers ?t)"
        using in_orderD(1-3) [OF inv] f(1,3,4) g'(1) by simp_all
      show "set gone' \<subseteq> over" by (rule g'(2))
      show "ko_out ?t = by_task gone' (log @ [(k, l)]) @
          (case ko_active ?t of None \<Rightarrow> [] | Some a \<Rightarrow> map (Pair a) (log_of a (log @ [(k, l)])))"
        unfolding f(2,5) g'(3) same [OF g'(2)] by simp
      show "ko_buffers ?t \<noteq> [] \<and> fst (hd (ko_buffers ?t)) = a \<and> held (ko_buffers ?t) a = []"
        if "ko_active ?t = Some a" for a
        using that activate_first(1) [OF b] f(1,2) by simp
      show "held (ko_buffers ?t) j = log_of j (log @ [(k, l)])"
        if j: "j \<in> fst ` set (ko_buffers ?t)" "ko_active ?t \<noteq> Some j" for j
      proof -
        have "j \<noteq> k" "j \<in> fst ` set (ko_buffers s)" using j f(1,2) activate_first(2) [OF b] by simp_all
        then show ?thesis using in_orderD(4) [OF inv _ na] f(1) by simp
      qed
    qed
  next
    case False
    have nd: "\<not> (ko_done s \<or> ko_is_active s k)" using inv False by (simp add: in_order_def)
    have na: "ko_active s \<noteq> Some k" using False by (auto simp: ko_is_active_def)
    let ?b = "imap_insert k (held (ko_buffers s) k @ [l]) (ko_buffers s)"
    have keys: "map fst ?b = map fst (ko_buffers s)" by (rule imap_insert_held [OF key])
    then have keyset: "fst ` set ?b = fst ` set (ko_buffers s)" by (metis set_map)
    have hd: "ko_buffers s \<noteq> [] \<Longrightarrow> ?b \<noteq> [] \<and> fst (hd ?b) = fst (hd (ko_buffers s))"
      using keys by (metis hd_map list.map_disc_iff)
    let ?t = "s\<lparr>ko_buffers := ?b\<rparr>"
    show ?thesis
      unfolding on_line_held [OF nd]
    proof (rule in_orderI [where gone = gone])
      show "distinct ts" "\<not> ko_done ?t" "set (ko_finished ?t) \<subseteq> over" "ts = gone @ map fst (ko_buffers ?t)"
        using in_orderD(1-3) [OF inv] keys g(1) by simp_all
      show "set gone \<subseteq> over" by (rule g(2))
      show "ko_out ?t = by_task gone (log @ [(k, l)]) @
          (case ko_active ?t of None \<Rightarrow> [] | Some a \<Rightarrow> map (Pair a) (log_of a (log @ [(k, l)])))"
        using g(3) same [OF g(2)] na by (auto split: option.split)
      show "ko_buffers ?t \<noteq> [] \<and> fst (hd (ko_buffers ?t)) = a \<and> held (ko_buffers ?t) a = []"
        if "ko_active ?t = Some a" for a
      proof -
        have "ko_buffers s \<noteq> []" "fst (hd (ko_buffers s)) = a" "held (ko_buffers s) a = []" "a \<noteq> k"
          using in_order_active [OF inv, of a] that na by auto
        with hd show ?thesis by simp
      qed
      have "held (ko_buffers s) k = log_of k log" by (rule in_orderD(4) [OF inv key na])
      then show "held (ko_buffers ?t) j = log_of j (log @ [(k, l)])"
        if "j \<in> fst ` set (ko_buffers ?t)" "ko_active ?t \<noteq> Some j" for j
        using that in_orderD(4) [OF inv, of j] keyset by simp
    qed
  qed
qed

lemma in_order_none:
  assumes "in_order ts over log s" and "ko_active s = None"
  obtains gone where "ts = gone @ map fst (ko_buffers s)" "set gone \<subseteq> over" "ko_out s = by_task gone log"
proof -
  have "\<exists>gone. ts = gone @ map fst (ko_buffers s) \<and> set gone \<subseteq> over \<and> ko_out s = by_task gone log"
    using assms unfolding in_order_def by simp
  with that show thesis by blast
qed

lemma in_order_wf: "in_order ts over log s \<Longrightarrow> ko_wf s"
  unfolding in_order_def ko_wf_def by (elim conjE exE) simp

lemma in_order_flush:
  assumes inv: "in_order ts over log s" and none: "ko_active s = None"
  shows "in_order ts over log (ko_flush_finished s)"
proof -
  let ?t = "ko_flush_finished s"
  obtain gone where g: "ts = gone @ map fst (ko_buffers s)" "set gone \<subseteq> over" "ko_out s = by_task gone log"
    by (rule in_order_none [OF assms])
  obtain pre where p: "ko_buffers s = pre @ ko_buffers ?t" "ko_out ?t = ko_out s @ all_lines pre"
    "fst ` set pre \<subseteq> set (ko_finished s)" "set (ko_finished ?t) = set (ko_finished s) - fst ` set pre"
    by (rule flush_finished_spec [OF in_order_wf [OF inv]])
  have h: "held (pre @ ko_buffers ?t) k = log_of k log" if "k \<in> fst ` set (pre @ ko_buffers ?t)" for k
    unfolding p(1) [symmetric] using in_orderD(4) [OF inv, of k] that p(1) none by simp
  have d: "distinct (map fst pre)" "fst ` set pre \<inter> fst ` set (ko_buffers ?t) = {}"
    using in_order_wf [OF inv] p(1) unfolding ko_wf_def by (metis distinct_append list.set_map map_append)+
  have hp: "\<forall>k\<in>fst ` set pre. held pre k = log_of k log"
  proof
    fix k assume "k \<in> fst ` set pre"
    with h [of k] show "held pre k = log_of k log" by (simp add: held_append image_Un)
  qed
  have hb: "held (ko_buffers ?t) k = log_of k log" if "k \<in> fst ` set (ko_buffers ?t)" for k
  proof -
    have "k \<notin> fst ` set pre" using that d(2) by blast
    with h [of k] that show ?thesis by (simp add: held_append image_Un)
  qed
  show ?thesis
  proof (rule in_orderI [where gone = "gone @ map fst pre"])
    show "distinct ts" "\<not> ko_done ?t" using in_orderD(1,2) [OF inv] by simp_all
    show "set (ko_finished ?t) \<subseteq> over" using p(4) in_orderD(3) [OF inv] by blast
    show "ts = (gone @ map fst pre) @ map fst (ko_buffers ?t)" using g(1) p(1) by (metis append.assoc map_append)
    show "set (gone @ map fst pre) \<subseteq> over" using g(2) p(3) in_orderD(3) [OF inv] by auto
    show "ko_out ?t = by_task (gone @ map fst pre) log
        @ (case ko_active ?t of None \<Rightarrow> [] | Some a \<Rightarrow> map (Pair a) (log_of a log))"
      using p(2) g(3) none by_task_held [OF d(1) hp] by simp
  qed (simp_all add: none hb)
qed

lemma in_order_promote:
  assumes inv: "in_order ts over log s" and none: "ko_active s = None"
  shows "in_order ts over log (ko_promote_next s)"
proof (cases "\<exists>k l ls rest. ko_buffers s = (k, l # ls) # rest")
  case True
  then obtain k l ls rest where b: "ko_buffers s = (k, l # ls) # rest" by blast
  have act: "ko_is_active s k" using b none by (simp add: ko_is_active_def)
  obtain gone where g: "ts = gone @ map fst (ko_buffers s)" "set gone \<subseteq> over"
    "ko_out s @ map (Pair k) (held (ko_buffers s) k) = by_task gone log @ map (Pair k) (log_of k log)"
    using in_order_printed [OF inv act] b by auto
  have "in_order ts over log (ko_activate k s)"
  proof (rule in_orderI [where gone = gone])
    show "distinct ts" "\<not> ko_done (ko_activate k s)" "set (ko_finished (ko_activate k s)) \<subseteq> over"
      "ts = gone @ map fst (ko_buffers (ko_activate k s))"
      using in_orderD(1-3) [OF inv] g(1) by simp_all
    show "set gone \<subseteq> over" by (rule g(2))
    show "ko_out (ko_activate k s) = by_task gone log @
        (case ko_active (ko_activate k s) of None \<Rightarrow> [] | Some a \<Rightarrow> map (Pair a) (log_of a log))"
      using g(3) by simp
    show "ko_buffers (ko_activate k s) \<noteq> [] \<and> fst (hd (ko_buffers (ko_activate k s))) = a
        \<and> held (ko_buffers (ko_activate k s)) a = []"
      if "ko_active (ko_activate k s) = Some a" for a
      using that activate_first(1) [OF b] by simp
    show "held (ko_buffers (ko_activate k s)) j = log_of j log"
      if "j \<in> fst ` set (ko_buffers (ko_activate k s))" "ko_active (ko_activate k s) \<noteq> Some j" for j
      using that in_orderD(4) [OF inv, of j] none activate_first(2) [OF b] by simp
  qed
  with b show ?thesis by (simp add: ko_promote_next_def)
next
  case False
  then have "ko_promote_next s = s" by (auto simp: ko_promote_next_def split: list.splits)
  with inv show ?thesis by simp
qed

lemma in_order_over:
  assumes inv: "in_order ts over log s" and "over \<subseteq> over'" and "set (ko_finished s) \<union> set fin \<subseteq> over'"
  shows "in_order ts over' log (s\<lparr>ko_finished := ko_finished s @ fin\<rparr>)"
proof -
  obtain gone where g: "ts = gone @ map fst (ko_buffers s)" "set gone \<subseteq> over"
    "ko_out s = by_task gone log @ (case ko_active s of None \<Rightarrow> [] | Some a \<Rightarrow> map (Pair a) (log_of a log))"
    using inv unfolding in_order_def by (elim conjE exE) rule
  show ?thesis
    by (rule in_orderI [where gone = gone])
      (use in_orderD [OF inv] in_order_active [OF inv] g assms(2,3) in \<open>simp_all add: subset_trans [OF _ assms(2)]\<close>)
qed

lemma in_order_insert: "in_order ts over log s \<Longrightarrow> in_order ts (insert k over) log s"
  using in_order_over [of ts over log s "insert k over" "[]"] in_orderD(3) [of ts over log s] by force

lemma in_order_finished:
  assumes inv: "in_order ts over log s"
  shows "in_order ts (insert k over) log (ko_on_task_finished k s)"
proof (cases "ko_contains s k \<and> ko_is_active s k")
  case True
  obtain ls rest where b: "ko_buffers s = (k, ls) # rest" using is_active_first [OF inv] True by blast
  obtain gone where g: "ts = gone @ map fst (ko_buffers s)" "set gone \<subseteq> over"
    "ko_out s @ map (Pair k) (held (ko_buffers s) k) = by_task gone log @ map (Pair k) (log_of k log)"
    using in_order_printed [OF inv, of k] True by (auto simp: ko_contains_def)
  have k: "k \<notin> fst ` set rest" using in_order_wf [OF inv] b by (simp add: ko_wf_def)
  then have "filter (\<lambda>(k', _). k' \<noteq> k) rest = rest" by (intro filter_True) force
  then have t: "ko_buffers (ko_close k s) = rest" "ko_active (ko_close k s) = None"
    "ko_out (ko_close k s) = by_task (gone @ [k]) log" "ko_finished (ko_close k s) = ko_finished s"
    "ko_done (ko_close k s) = ko_done s"
    using b g(3) by (simp_all add: ko_close_def ko_print_def)
  have h: "held rest j = log_of j log" if j: "j \<in> fst ` set rest" for j
  proof -
    have "j \<noteq> k" using j k by blast
    moreover from this have "ko_active s \<noteq> Some j" using True by (auto simp: ko_is_active_def split: option.splits)
    ultimately show ?thesis using in_orderD(4) [OF inv, of j] j b by simp
  qed
  have "in_order ts (insert k over) log (ko_close k s)"
  proof (rule in_orderI [where gone = "gone @ [k]"])
    show "distinct ts" "\<not> ko_done (ko_close k s)" using in_orderD(1,2) [OF inv] t by simp_all
    show "set (ko_finished (ko_close k s)) \<subseteq> insert k over" using in_orderD(3) [OF inv] t(4) by auto
    show "ts = (gone @ [k]) @ map fst (ko_buffers (ko_close k s))" using g(1) b t(1) by simp
    show "set (gone @ [k]) \<subseteq> insert k over" using g(2) by auto
  qed (simp_all add: t h)
  then have "in_order ts (insert k over) log (ko_flush_finished (ko_close k s))"
    by (rule in_order_flush) (rule t(2))
  then show ?thesis using True by (simp add: on_task_finished_eq in_order_promote t(2))
next
  case False
  have "in_order ts (insert k over) log (s\<lparr>ko_finished := ko_finished s @ [k]\<rparr>)"
    by (rule in_order_over [OF inv]) (use in_orderD(3) [OF inv] in auto)
  with False show ?thesis using in_order_insert [OF inv] by (simp add: on_task_finished_eq)
qed

lemma in_order_retire:
  assumes "in_order ts over log s"
  shows "in_order ts (insert k over) log (ko_retire_unused_slot k s)"
  using in_order_finished [OF assms] in_order_insert [OF assms] by (simp add: ko_retire_unused_slot_def)

lemma in_order_run:
  assumes "in_order ts over log s" and "speaks_until_finished over ops" and "\<forall>op\<in>set ops. on_slots (set ts) op"
  shows "\<exists>over. in_order ts over (log @ emitted ops) (fold (ko_step np) ops s)"
  using assms
proof (induction over ops arbitrary: log s rule: speaks_until_finished.induct)
  case (2 over k p t ops)
  with in_order_line [of ts over log s k "Stdout p t"] show ?case
    by (fastforce simp: ko_on_stdout_def)
next
  case (3 over k p t ops)
  with in_order_line [of ts over log s k "Stderr p t"] show ?case
    by (fastforce simp: ko_on_stderr_def)
next
  case (4 over k ops)
  with in_order_finished [of ts over log s k] show ?case by fastforce
next
  case (5 over k ops)
  with in_order_retire [of ts over log s k] show ?case by fastforce
qed auto

lemma flush_all_out:
  assumes "ko_wf s"
  shows "ko_out (ko_flush_all s) = ko_out s @ all_lines (ko_buffers s)"
proof -
  let ?s = "s\<lparr>ko_active := None\<rparr>"
  have "ko_wf ?s" using assms by (simp add: ko_wf_def)
  then obtain pre where "ko_buffers ?s = pre @ ko_buffers (ko_flush_finished ?s)"
    "ko_out (ko_flush_finished ?s) = ko_out ?s @ all_lines pre" by (rule flush_finished_spec)
  then have "ko_out (ko_flush_finished ?s) @ all_lines (ko_buffers (ko_flush_finished ?s)) = ko_out s @ all_lines (ko_buffers s)"
    by (metis all_lines_simps(3) append.assoc keep_order_state.select_convs(2) keep_order_state.select_convs(6)
        keep_order_state.surjective keep_order_state.update_convs(1))
  then show ?thesis by (simp add: ko_flush_all_def Let_def all_lines_def [symmetric])
qed

lemma in_order_end:
  assumes inv: "in_order ts over log s"
  shows "ko_out (ko_flush_all s) = by_task ts log"
proof -
  note out = flush_all_out [OF in_order_wf [OF inv]]
  have d: "distinct (map fst (ko_buffers s))" using in_order_wf [OF inv] by (simp add: ko_wf_def)
  show ?thesis
  proof (cases "ko_active s")
    case None
    obtain gone where g: "ts = gone @ map fst (ko_buffers s)" "ko_out s = by_task gone log"
      by (rule in_order_none [OF inv None])
    have "\<forall>k\<in>fst ` set (ko_buffers s). held (ko_buffers s) k = log_of k log"
      using in_orderD(4) [OF inv] None by simp
    with out g by_task_held [OF d] show ?thesis by simp
  next
    case (Some a)
    then obtain ls rest where b: "ko_buffers s = (a, ls) # rest"
      using in_order_active(1,2) [OF inv Some] by (cases "ko_buffers s") auto
    then have ls: "ls = []" using in_order_active(3) [OF inv Some] by simp
    have act: "ko_is_active s a" using Some by (simp add: ko_is_active_def)
    obtain gone where g: "ts = gone @ map fst (ko_buffers s)"
      "ko_out s @ map (Pair a) (held (ko_buffers s) a) = by_task gone log @ map (Pair a) (log_of a log)"
      using in_order_printed [OF inv act] b by auto
    have "held rest j = log_of j log" if j: "j \<in> fst ` set rest" for j
      using in_orderD(4) [OF inv, of j] j Some b d by auto
    then have "all_lines rest = by_task (map fst rest) log" using d b by (intro by_task_held) auto
    with out g b ls show ?thesis by simp
  qed
qed

lemma init_slots:
  "distinct ts \<Longrightarrow> set ts \<inter> fst ` set (ko_buffers s) = {} \<Longrightarrow>
   fold (ko_step np) (map InitTask ts) s = s\<lparr>ko_buffers := ko_buffers s @ map (\<lambda>k. (k, [])) ts\<rparr>"
  by (induction ts arbitrary: s) (auto simp: ko_init_task_def ko_contains_def)

text \<open>
  \<^bold>\<open>C36.\<close> The keep-order mode prints what a sequential run would print: when every task has its
  slot up front and says nothing after it was reported finished or its slot was retired, then
  however the lines and the ends of the tasks are interleaved, the output is the lines of the
  first task in their order, then those of the second one, and so on in the order of the slots.
  And after any operations at all, injections and late lines included, the last flush has
  printed every line of every task exactly once and in the order in which the task wrote them.
\<close>

theorem keep_order_in_order:
  assumes "distinct ts" and "speaks_until_finished {} ops" and "\<forall>op\<in>set ops. on_slots (set ts) op"
  shows "ko_out (ko_run np (map InitTask ts @ ops @ [FlushAll])) = by_task ts (emitted ops)
    \<and> (\<forall>ops k. log_of k (ko_out (ko_run np (ops @ [FlushAll]))) = log_of k (emitted ops))"
proof -
  let ?s = "fold (ko_step np) (map InitTask ts) ko_new"
  have s: "?s = ko_new\<lparr>ko_buffers := map (\<lambda>k. (k, [])) ts\<rparr>"
    using init_slots [OF assms(1), of ko_new np] by (simp add: ko_new_def)
  have "held (map (\<lambda>k. (k, [])) ts) k = ([] :: keep_order_line list)" for k by (induction ts) auto
  then have "in_order ts {} [] ?s" using assms(1) unfolding s by (simp add: in_order_def ko_new_def comp_def)
  from in_order_run [OF this assms(2,3), of np] obtain over where
    "in_order ts over (emitted ops) (fold (ko_step np) ops ?s)" by auto
  from in_order_end [OF this] have "ko_out (ko_run np (map InitTask ts @ ops @ [FlushAll])) = by_task ts (emitted ops)"
    by (simp add: ko_run_def)
  then show ?thesis by (simp add: flushed_lines)
qed

theorem keep_order_in_order_witness:
  "let ops = [OnStdout 2 (lit ''b'') (lit ''x''), OnStdout (1 :: nat) (lit ''a'') (lit ''y''), TaskFinished 2,
         OnStderr 1 (lit ''a'') (lit ''z''), TaskFinished 1]
   in speaks_until_finished {} ops \<and> (\<forall>op\<in>set ops. on_slots {1, 2} op)
      \<and> ko_out (ko_run (\<lambda>_. True) (map InitTask [1, 2] @ ops @ [FlushAll])) =
          [(1, Stdout (lit ''a'') (lit ''y'')), (1, Stderr (lit ''a'') (lit ''z'')), (2, Stdout (lit ''b'') (lit ''x''))]"
proof -
  let ?ops = "[OnStdout 2 (lit ''b'') (lit ''x''), OnStdout (1 :: nat) (lit ''a'') (lit ''y''), TaskFinished 2,
    OnStderr 1 (lit ''a'') (lit ''z''), TaskFinished 1]"
  have h: "distinct [1 :: nat, 2]" "speaks_until_finished {} ?ops" "\<forall>op\<in>set ?ops. on_slots (set [1, 2]) op"
    by simp_all
  from keep_order_in_order [OF h, of "\<lambda>_. True"]
  have "ko_out (ko_run (\<lambda>_. True) (map InitTask [1, 2] @ ?ops @ [FlushAll])) =
      [(1, Stdout (lit ''a'') (lit ''y'')), (1, Stderr (lit ''a'') (lit ''z'')), (2, Stdout (lit ''b'') (lit ''x''))]"
    by simp
  with h show ?thesis unfolding Let_def by (intro conjI) simp_all
qed

end
