(* ===== verification/Task_Output_Inject.thy ===== *)
theory Task_Output_Inject
  imports Task_Output_Correct "HOL-Library.Sublist"
begin

text \<open>
  Where injected tasks get their slots: no slot moves, the new ones come in the order of the run
  entry, in front of a parent that prints nothing, and behind a parent that prints and everything
  that descends from it.
\<close>

section \<open>The record of injections\<close>

definition injections :: "('k, 'k list) imap \<Rightarrow> ('k \<times> 'k) set" where
  "injections m = {(k, p). p \<in> set (ko_parents m k)}"

lemma descends_loop_sound:
  "ko_descends_loop m a seen stack \<Longrightarrow> \<exists>k\<in>set stack. (k, a) \<in> (injections m)\<^sup>+"
proof (induction m a seen stack rule: ko_descends_loop.induct)
  case (2 m a seen k stack)
  show ?case
  proof (cases "k \<in> set seen")
    case False
    show ?thesis
    proof (cases "a \<in> set (ko_parents m k)")
      case True
      then have "(k, a) \<in> injections m" by (simp add: injections_def)
      then show ?thesis by auto
    next
      case no: False
      with "2.IH"(2) [OF False refl no] "2.prems" False obtain j where
        j: "j \<in> set (ko_parents m k) \<union> set stack" "(j, a) \<in> (injections m)\<^sup>+" by auto
      have "(k, j) \<in> injections m" if "j \<in> set (ko_parents m k)" using that by (simp add: injections_def)
      with j show ?thesis by (auto intro: trancl_into_trancl2)
    qed
  qed (use 2 in simp)
qed simp

lemma descends_loop_closed:
  assumes "\<not> ko_descends_loop m a seen stack"
    and "\<forall>k\<in>set seen. a \<notin> set (ko_parents m k) \<and> set (ko_parents m k) \<subseteq> set seen \<union> set stack"
  shows "\<exists>T. set seen \<union> set stack \<subseteq> T \<and> (\<forall>k\<in>T. a \<notin> set (ko_parents m k) \<and> set (ko_parents m k) \<subseteq> T)"
  using assms
proof (induction m a seen stack rule: ko_descends_loop.induct)
  case (2 m a seen k stack)
  show ?case
  proof (cases "k \<in> set seen")
    case True
    with 2 show ?thesis by (simp add: insert_absorb)
  next
    case False
    with 2 have no: "a \<notin> set (ko_parents m k)" by (auto simp: Let_def)
    have "\<exists>T. set (k # seen) \<union> set (rev (ko_parents m k) @ stack) \<subseteq> T
        \<and> (\<forall>j\<in>T. a \<notin> set (ko_parents m j) \<and> set (ko_parents m j) \<subseteq> T)"
      using "2.prems" False no by (intro "2.IH"(2) [OF False refl no]) (auto simp: Let_def)
    then show ?thesis by auto
  qed
qed auto

lemma descends_iff: "ko_descends_from s k a \<longleftrightarrow> (k, a) \<in> (injections (ko_injected_by s))\<^sup>+"
proof
  assume "ko_descends_from s k a"
  then show "(k, a) \<in> (injections (ko_injected_by s))\<^sup>+"
    unfolding ko_descends_from_def by (rule descends_loop_sound [THEN bexE]) simp
next
  let ?m = "ko_injected_by s"
  assume r: "(k, a) \<in> (injections ?m)\<^sup>+"
  show "ko_descends_from s k a"
  proof (rule ccontr)
    assume "\<not> ko_descends_from s k a"
    then obtain T where k: "k \<in> T"
      and T: "\<And>j. j \<in> T \<Longrightarrow> a \<notin> set (ko_parents ?m j) \<and> set (ko_parents ?m j) \<subseteq> T"
      using descends_loop_closed [of ?m a "[]" "[k]"] by (auto simp: ko_descends_from_def)
    have "x \<in> T \<Longrightarrow> y \<noteq> a \<and> y \<in> T" if "(x, y) \<in> (injections ?m)\<^sup>+" for x y
      using that by (induction rule: trancl_induct) (use T in \<open>auto simp: injections_def\<close>)
    with r k show False by blast
  qed
qed

section \<open>Slots\<close>

abbreviation slots :: "'k keep_order_state \<Rightarrow> 'k list" where
  "slots s \<equiv> map fst (ko_buffers s)"

text \<open>One slot lies before another one.\<close>

definition before :: "'k list \<Rightarrow> 'k \<Rightarrow> 'k \<Rightarrow> bool" where
  "before ks a b \<longleftrightarrow> subseq [a, b] ks"

lemma before_mono: "before ks a b \<Longrightarrow> subseq ks ks' \<Longrightarrow> before ks' a b"
  unfolding before_def by (rule subseq_order.trans)

lemma before_insert: "a \<in> set (take i ks) \<Longrightarrow> before (take i ks @ k # drop i ks) a k"
proof -
  assume "a \<in> set (take i ks)"
  then have "subseq ([a] @ [k]) (take i ks @ k # drop i ks)"
    by (intro list_emb_append_mono) (simp_all add: subseq_singleton_left)
  then show ?thesis by (simp add: before_def)
qed

lemma subseq_insert: "subseq ks (take i ks @ k # drop i ks)"
proof -
  have "subseq (take i ks @ drop i ks) (take i ks @ k # drop i ks)"
    by (intro list_emb_append_mono) auto
  then show ?thesis by simp
qed

lemma index_of_nth: "index_of k m = Some i \<Longrightarrow> i < length m \<and> map fst m ! i = k"
  by (induction k m arbitrary: i rule: index_of.induct) (auto split: if_splits)

lemma adopt_buffers [simp]: "ko_buffers (ko_adopt p k s) = ko_buffers s"
  by (simp add: ko_adopt_def Let_def)

lemma group_end_foldl:
  fixes P :: "nat \<Rightarrow> bool" and a n :: nat
  assumes "a \<le> n"
  shows "a \<le> foldl (\<lambda>e i. if P i then i + 1 else e) a [a ..< n]
    \<and> foldl (\<lambda>e i. if P i then i + 1 else e) a [a ..< n] \<le> n
    \<and> (\<forall>j. a \<le> j \<and> j < n \<and> P j \<longrightarrow> j < foldl (\<lambda>e i. if P i then i + 1 else e) a [a ..< n])"
  using assms by (induction n rule: dec_induct) (auto simp: less_Suc_eq)

lemma group_end:
  assumes "i < length (ko_buffers s)"
  shows "i < ko_group_end s p i" "ko_group_end s p i \<le> length (ko_buffers s)"
    and "\<And>k. k \<in> set (slots s) \<Longrightarrow> ko_descends_from s k p \<Longrightarrow> k \<in> set (take (ko_group_end s p i) (slots s))"
proof -
  let ?P = "\<lambda>j. ko_descends_from s (fst (ko_buffers s ! j)) p"
  let ?e = "ko_group_end s p i"
  have e: "i + 1 \<le> ?e \<and> ?e \<le> length (ko_buffers s) \<and> (\<forall>j. i + 1 \<le> j \<and> j < length (ko_buffers s) \<and> ?P j \<longrightarrow> j < ?e)"
    unfolding ko_group_end_def by (rule group_end_foldl) (use assms in simp)
  then show "i < ?e" "?e \<le> length (ko_buffers s)" by simp_all
  show "k \<in> set (take ?e (slots s))" if k: "k \<in> set (slots s)" "ko_descends_from s k p" for k
  proof -
    obtain j where j: "j < length (slots s)" "slots s ! j = k" using k(1) by (metis in_set_conv_nth)
    with k(2) e have "j < ?e" by (cases "i + 1 \<le> j") auto
    with j show ?thesis by (metis in_set_conv_nth length_take min_less_iff_conj nth_take)
  qed
qed

section \<open>The loop over the tasks of a run entry\<close>

lemma inject_step_new:
  assumes "index_of k (ko_buffers s) = None"
  shows "ko_inject_loop after p idx (k # ks) s = ko_inject_loop after p (idx + 1) ks
    (s\<lparr>ko_buffers := shift_insert idx k [] (ko_buffers s), ko_injected_by := imap_insert k [p] (ko_injected_by s)\<rparr>)"
  using assms by simp

lemma inject_step_known:
  assumes "index_of k (ko_buffers s) = Some e"
  shows "ko_inject_loop after p idx (k # ks) s =
    ko_inject_loop after p (if after \<and> e \<ge> idx then e + 1 else idx) ks (ko_adopt p k s)"
  using assms by simp

lemma inject_subseq: "subseq (slots s) (slots (ko_inject_loop after p idx ks s))"
proof (induction ks arbitrary: s idx)
  case (Cons k ks)
  show ?case
  proof (cases "index_of k (ko_buffers s)")
    case None
    have "subseq (slots s) (take idx (slots s) @ k # drop idx (slots s))" by (rule subseq_insert)
    with Cons show ?thesis
      unfolding inject_step_new [OF None]
      by (elim subseq_order.trans) (metis keep_order_state.select_convs(2) keep_order_state.surjective
          keep_order_state.update_convs(2,4) shift_insert_keys)
  next
    case (Some e)
    show ?thesis unfolding inject_step_known [OF Some] using Cons by (metis adopt_buffers)
  qed
qed simp

lemma inject_set: "set (slots (ko_inject_loop after p idx ks s)) = set (slots s) \<union> set ks"
proof (induction ks arbitrary: s idx)
  case (Cons k ks)
  show ?case
  proof (cases "index_of k (ko_buffers s)")
    case None
    have "set (take idx (slots s)) \<union> set (drop idx (slots s)) = set (slots s)"
      by (metis append_take_drop_id set_append)
    then show ?thesis
      unfolding inject_step_new [OF None] Cons by (auto simp: shift_insert_keys)
  next
    case (Some e)
    then have "k \<in> fst ` set (ko_buffers s)" using index_of_None [of k "ko_buffers s"] by simp
    then show ?thesis unfolding inject_step_known [OF Some] Cons by auto
  qed
qed simp

text \<open>The tasks of the run entry that have no slot yet, in its order.\<close>

fun news :: "'k set \<Rightarrow> 'k list \<Rightarrow> 'k list" where
  "news known [] = []"
| "news known (k # ks) = (if k \<in> known then news known ks else k # news (insert k known) ks)"

lemma inject_before_parent:
  "idx \<le> length (slots s) \<Longrightarrow>
   slots (ko_inject_loop False p idx ks s) = take idx (slots s) @ news (set (slots s)) ks @ drop idx (slots s)"
proof (induction ks arbitrary: s idx)
  case (Cons k ks)
  show ?case
  proof (cases "index_of k (ko_buffers s)")
    case None
    then have k: "k \<notin> set (slots s)" by (simp add: index_of_None)
    let ?t = "s\<lparr>ko_buffers := shift_insert idx k [] (ko_buffers s), ko_injected_by := imap_insert k [p] (ko_injected_by s)\<rparr>"
    have t: "slots ?t = take idx (slots s) @ k # drop idx (slots s)" by (simp add: shift_insert_keys)
    have "set (take idx (slots s)) \<union> set (drop idx (slots s)) = set (slots s)"
      by (metis append_take_drop_id set_append)
    then have st: "set (slots ?t) = insert k (set (slots s))" unfolding t by auto
    have len: "idx + 1 \<le> length (slots ?t)" unfolding t using Cons.prems by simp
    have "take (idx + 1) (slots ?t) = take idx (slots s) @ [k]" "drop (idx + 1) (slots ?t) = drop idx (slots s)"
      unfolding t using Cons.prems by (simp_all add: min_absorb2)
    with Cons.IH [OF len] k show ?thesis unfolding inject_step_new [OF None] st by simp
  next
    case (Some e)
    then have "k \<in> set (slots s)" using index_of_None [of k "ko_buffers s"] by simp
    with Cons show ?thesis unfolding inject_step_known [OF Some] by simp
  qed
qed simp

lemma inject_after_parent:
  assumes "idx \<le> length (slots s)" and "ks = xs @ k # ys" and "k \<notin> set (slots s)" and "k \<notin> set xs"
    and "a \<in> set (take idx (slots s)) \<union> set xs"
  shows "before (slots (ko_inject_loop True p idx ks s)) a k"
  using assms
proof (induction ks arbitrary: s idx xs)
  case (Cons j ks)
  show ?case
  proof (cases "index_of j (ko_buffers s)")
    case None
    let ?t = "s\<lparr>ko_buffers := shift_insert idx j [] (ko_buffers s), ko_injected_by := imap_insert j [p] (ko_injected_by s)\<rparr>"
    have t: "slots ?t = take idx (slots s) @ j # drop idx (slots s)" by (simp add: shift_insert_keys)
    have sub: "subseq (slots ?t) (slots (ko_inject_loop True p (idx + 1) ks ?t))" by (rule inject_subseq)
    show ?thesis
    proof (cases xs)
      case Nil
      with Cons.prems have "j = k" "a \<in> set (take idx (slots s))" by simp_all
      then have "before (slots ?t) a k" unfolding t by (simp add: before_insert)
      then show ?thesis unfolding inject_step_new [OF None] by (rule before_mono [OF _ sub])
    next
      case (Cons x xs')
      have "take (idx + 1) (slots ?t) = take idx (slots s) @ [j]"
        unfolding t using Cons.prems(1) by (simp add: min_absorb2)
      moreover have "set (slots ?t) \<subseteq> insert j (set (slots s))"
        unfolding t using set_take_subset set_drop_subset by fastforce
      moreover have "idx + 1 \<le> length (slots ?t)" unfolding t using Cons.prems(1) by simp
      ultimately show ?thesis
        unfolding inject_step_new [OF None]
        using Cons.prems Cons by (intro Cons.IH [of _ _ xs']) auto
    qed
  next
    case (Some e)
    let ?i = "if e \<ge> idx then e + 1 else idx"
    have e: "e < length (slots s)" "slots s ! e = j" using index_of_nth [OF Some] by auto
    then have j: "j \<in> set (take ?i (slots s))"
      by (auto simp: in_set_conv_nth intro!: exI [of _ e])
    have i: "?i \<le> length (slots s)" using e Cons.prems(1) by auto
    have "set (take idx (slots s)) \<subseteq> set (take ?i (slots s))" by (rule set_take_subset_set_take) simp
    moreover have "j \<noteq> k" using Cons.prems(3) e nth_mem [of e "slots s"] by auto
    ultimately obtain xs' where x: "xs = j # xs'" "ks = xs' @ k # ys" "k \<notin> set xs'"
      "a \<in> set (take ?i (slots s)) \<union> set xs'"
      using Cons.prems(2,4,5) j by (cases xs) auto
    have "before (slots (ko_inject_loop True p ?i ks (ko_adopt p j s))) a k"
      by (rule Cons.IH [OF _ x(2) _ x(3)]) (use i Cons.prems(3) x(4) in simp_all)
    then show ?thesis unfolding inject_step_known [OF Some] by simp
  qed
qed simp

section \<open>The record after an injection\<close>

text \<open>Only tasks with a slot are on record.\<close>

definition on_record :: "'k keep_order_state \<Rightarrow> bool" where
  "on_record s \<longleftrightarrow> (\<forall>(k, p)\<in>injections (ko_injected_by s). k \<in> set (slots s) \<and> p \<in> set (slots s))"

lemma parents_insert: "ko_parents (imap_insert k ps m) j = (if j = k then ps else ko_parents m j)"
  by (simp add: ko_parents_def)

lemma injections_insert:
  "injections (imap_insert k ps m) = {(j, p)\<in>injections m. j \<noteq> k} \<union> {k} \<times> set ps"
  by (auto simp: injections_def parents_insert split: if_splits)

lemma injections_adopt:
  "injections (ko_injected_by (ko_adopt p k s)) =
     (if ko_descends_from s p k then injections (ko_injected_by s) else insert (k, p) (injections (ko_injected_by s)))"
  by (auto simp: ko_adopt_def Let_def injections_insert) (auto simp: injections_def)

lemma injections_new:
  assumes "on_record s" and "k \<notin> set (slots s)"
  shows "injections (imap_insert k [p] (ko_injected_by s)) = insert (k, p) (injections (ko_injected_by s))"
  using assms by (auto simp: injections_insert on_record_def)

lemma acyclic_step:
  assumes "acyclic r" and "(p, k) \<notin> r\<^sup>+" and "p \<noteq> k"
  shows "acyclic (insert (k, p) r)"
  using assms by (simp add: acyclic_insert rtrancl_eq_or_trancl)

text \<open>One task of the run entry: what its step leaves.\<close>

lemma inject_step_record:
  assumes rec: "on_record s" and p: "p \<in> set (slots s)" and "p \<noteq> k"
    and t: "t = (case index_of k (ko_buffers s) of Some e \<Rightarrow> ko_adopt p k s
      | None \<Rightarrow> s\<lparr>ko_buffers := shift_insert idx k [] (ko_buffers s), ko_injected_by := imap_insert k [p] (ko_injected_by s)\<rparr>)"
  shows "on_record t" "set (slots t) = insert k (set (slots s))"
    and "injections (ko_injected_by s) \<subseteq> injections (ko_injected_by t)"
    and "(k, p) \<in> injections (ko_injected_by t) \<or> (p, k) \<in> (injections (ko_injected_by t))\<^sup>+"
    and "acyclic (injections (ko_injected_by s)) \<Longrightarrow> acyclic (injections (ko_injected_by t))"
proof -
  let ?E = "injections (ko_injected_by s)"
  have "on_record t \<and> set (slots t) = insert k (set (slots s)) \<and> ?E \<subseteq> injections (ko_injected_by t)
    \<and> ((k, p) \<in> injections (ko_injected_by t) \<or> (p, k) \<in> (injections (ko_injected_by t))\<^sup>+)
    \<and> (acyclic ?E \<longrightarrow> acyclic (injections (ko_injected_by t)))"
  proof (cases "index_of k (ko_buffers s)")
    case None
    then have k: "k \<notin> set (slots s)" by (simp add: index_of_None)
    have E: "injections (ko_injected_by t) = insert (k, p) ?E" using None t injections_new [OF rec k] by simp
    have "set (take idx (slots s)) \<union> set (drop idx (slots s)) = set (slots s)"
      by (metis append_take_drop_id set_append)
    then have st: "set (slots t) = insert k (set (slots s))" using None t by (auto simp: shift_insert_keys)
    have "y \<in> set (slots s)" if "(x, y) \<in> ?E\<^sup>+" for x y
      using that by (induction rule: trancl_induct) (use rec in \<open>auto simp: on_record_def\<close>)
    then have "(p, k) \<notin> ?E\<^sup>+" using k by blast
    then have "acyclic ?E \<longrightarrow> acyclic (injections (ko_injected_by t))" unfolding E using acyclic_step assms(3) by metis
    moreover have "on_record t" unfolding on_record_def E st using rec p by (auto simp: on_record_def)
    ultimately show ?thesis using st unfolding E by blast
  next
    case (Some e)
    then have tt: "t = ko_adopt p k s" using t by simp
    have k: "k \<in> set (slots s)" using Some index_of_None [of k "ko_buffers s"] by simp
    show ?thesis
    proof (cases "ko_descends_from s p k")
      case True
      then have E: "injections (ko_injected_by t) = ?E" by (simp add: tt injections_adopt)
      have "(p, k) \<in> ?E\<^sup>+" using True by (simp add: descends_iff)
      moreover have "on_record t" using rec unfolding on_record_def E by (simp add: tt)
      ultimately show ?thesis unfolding E using k by (auto simp: tt)
    next
      case False
      then have E: "injections (ko_injected_by t) = insert (k, p) ?E" by (simp add: tt injections_adopt)
      have "acyclic ?E \<longrightarrow> acyclic (injections (ko_injected_by t))"
        unfolding E using False assms(3) by (metis acyclic_step descends_iff)
      moreover have "on_record t" using rec k p unfolding on_record_def E by (simp add: tt)
      ultimately show ?thesis unfolding E using k by (auto simp: tt)
    qed
  qed
  then show "on_record t" "set (slots t) = insert k (set (slots s))"
    "?E \<subseteq> injections (ko_injected_by t)"
    "(k, p) \<in> injections (ko_injected_by t) \<or> (p, k) \<in> (injections (ko_injected_by t))\<^sup>+"
    "acyclic ?E \<Longrightarrow> acyclic (injections (ko_injected_by t))" by blast+
qed

lemma inject_record:
  assumes "on_record s" and "p \<in> set (slots s)" and "p \<notin> set ks"
  shows "on_record (ko_inject_loop after p idx ks s)
    \<and> injections (ko_injected_by s) \<subseteq> injections (ko_injected_by (ko_inject_loop after p idx ks s))
    \<and> (\<forall>k\<in>set ks. (k, p) \<in> (injections (ko_injected_by (ko_inject_loop after p idx ks s)))\<^sup>+
        \<or> (p, k) \<in> (injections (ko_injected_by (ko_inject_loop after p idx ks s)))\<^sup>+)
    \<and> (acyclic (injections (ko_injected_by s)) \<longrightarrow> acyclic (injections (ko_injected_by (ko_inject_loop after p idx ks s))))"
  using assms
proof (induction ks arbitrary: s idx)
  case (Cons k ks)
  define t where "t = (case index_of k (ko_buffers s) of Some e \<Rightarrow> ko_adopt p k s
      | None \<Rightarrow> s\<lparr>ko_buffers := shift_insert idx k [] (ko_buffers s), ko_injected_by := imap_insert k [p] (ko_injected_by s)\<rparr>)"
  obtain i where loop: "ko_inject_loop after p idx (k # ks) s = ko_inject_loop after p i ks t"
    by (cases "index_of k (ko_buffers s)") (simp_all add: t_def)
  have pk: "p \<noteq> k" using Cons.prems(3) by simp
  note step = inject_step_record [OF Cons.prems(1,2) pk t_def]
  have "p \<in> set (slots t)" "p \<notin> set ks" using step(2) Cons.prems(2,3) by auto
  note ih = Cons.IH [OF step(1) this, of i]
  let ?F = "injections (ko_injected_by (ko_inject_loop after p i ks t))"
  have sub: "injections (ko_injected_by t) \<subseteq> ?F" using ih by blast
  have "(k, p) \<in> ?F\<^sup>+ \<or> (p, k) \<in> ?F\<^sup>+"
    using step(4) sub trancl_mono [OF _ sub] by blast
  with ih step(3,5) show ?case unfolding loop by auto
qed simp

section \<open>Where the slots are\<close>



end
