(* ===== verification/Output_Handler.thy ===== *)
theory Output_Handler
  imports Task_Output
begin

text \<open>
  The rest of \<^verbatim>\<open>src/task/task_output_handler.rs\<close>: which output style a task gets, and where its lines go in
  that style.  The terminal is the log of the keep-order state; a line without a label has an
  empty label.  Progress bars are their messages, one per task.
\<close>

section \<open>Styles\<close>

datatype task_output = Interleave | KeepOrder | Prefix | Replacing | Summary | Timed | Quiet | Silent

datatype task_silent = SilentOff | SilentBool bool | SilentStdout | SilentStderr

fun silent_is_silent :: "task_silent \<Rightarrow> bool" where
  "silent_is_silent (SilentBool b) = b"
| "silent_is_silent SilentStdout = True"
| "silent_is_silent SilentStderr = True"
| "silent_is_silent SilentOff = False"

fun suppresses_stdout :: "task_silent \<Rightarrow> bool" where
  "suppresses_stdout (SilentBool b) = b"
| "suppresses_stdout SilentStdout = True"
| "suppresses_stdout _ = False"

fun suppresses_stderr :: "task_silent \<Rightarrow> bool" where
  "suppresses_stderr (SilentBool b) = b"
| "suppresses_stderr SilentStderr = True"
| "suppresses_stderr _ = False"

datatype run_entry = Script ustr | SingleTask ustr "ustr list" "(ustr \<times> ustr) list" | TaskGroup "ustr list"

text \<open>What the handler reads of a task; \<open>it_key\<close> is what tells tasks apart.\<close>

record 'k io_task =
  it_key :: 'k
  it_prefix :: ustr
  it_silent :: task_silent
  it_output :: "task_output option"
  it_quiet :: bool
  it_raw :: bool
  it_interactive :: bool
  it_file :: "ustr option"
  it_run :: "run_entry list"

fun is_script :: "run_entry \<Rightarrow> bool" where
  "is_script (Script _) = True"
| "is_script _ = False"

definition task_needs_permit :: "'k io_task \<Rightarrow> bool" where
  "task_needs_permit t \<longleftrightarrow> it_file t \<noteq> None \<or> filter is_script (it_run t) \<noteq> []"

definition task_runs_task_references :: "'k io_task \<Rightarrow> bool" where
  "task_runs_task_references t \<longleftrightarrow> (\<exists>e\<in>set (it_run t). \<not> is_script e)"

definition task_gets_keep_order_slot :: "'k io_task \<Rightarrow> bool" where
  "task_gets_keep_order_slot t \<longleftrightarrow> task_needs_permit t \<or> task_runs_task_references t"

record output_settings =
  st_silent :: bool
  st_quiet :: bool
  st_raw :: bool
  st_jobs :: nat
  st_task_quiet :: bool
  st_task_output :: "task_output option"

record 'k summary_state =
  ss_buffers :: "('k, ustr \<times> summary_buffer) imap"
  ss_durations :: "('k, ustr option) imap"
  ss_replayed :: "'k set"
  ss_up_to_date :: "'k set"
  ss_finished :: "'k set"

record 'k output_handler =
  oh_output :: "task_output option"
  oh_silent :: bool
  oh_quiet :: bool
  oh_raw :: bool
  oh_is_linear :: bool
  oh_jobs :: "nat option"
  oh_keep_order :: "'k keep_order_state"
  oh_task_prs :: "('k, ustr) imap"
  oh_timed :: "(ustr, nat \<times> 'k \<times> ustr list) imap"
  oh_summary :: "'k summary_state"

definition output_handler_new ::
    "task_output option \<Rightarrow> bool \<Rightarrow> bool \<Rightarrow> bool \<Rightarrow> bool \<Rightarrow> nat option \<Rightarrow> 'k output_handler" where
  "output_handler_new out sil qui raw lin jobs =
     \<lparr> oh_output = out, oh_silent = sil, oh_quiet = qui, oh_raw = raw, oh_is_linear = lin, oh_jobs = jobs,
       oh_keep_order = ko_new, oh_task_prs = [], oh_timed = [],
       oh_summary = \<lparr> ss_buffers = [], ss_durations = [], ss_replayed = {}, ss_up_to_date = {}, ss_finished = {} \<rparr> \<rparr>"

definition style_only :: "task_output \<Rightarrow> task_output" where
  "style_only o' = (if o' = Quiet then Interleave else o')"

definition style_with_raw :: "bool \<Rightarrow> task_output \<Rightarrow> task_output" where
  "style_with_raw raw o' = (if raw \<and> style_only o' \<noteq> Silent then Interleave else style_only o')"

abbreviation is_some_and :: "('a \<Rightarrow> bool) \<Rightarrow> 'a option \<Rightarrow> bool" where
  "is_some_and P x \<equiv> (case x of Some a \<Rightarrow> P a | None \<Rightarrow> False)"

definition jobs_normalize :: "nat \<Rightarrow> nat" where "jobs_normalize jobs = max jobs 1"

definition jobs_resolve :: "nat \<Rightarrow> nat option \<Rightarrow> nat" where
  "jobs_resolve configured override = jobs_normalize (case override of Some j \<Rightarrow> j | None \<Rightarrow> configured)"

definition oh_raw_for :: "output_settings \<Rightarrow> 'k output_handler \<Rightarrow> 'k io_task option \<Rightarrow> bool" where
  "oh_raw_for st h t \<longleftrightarrow> oh_raw h \<or> st_raw st \<or> is_some_and (\<lambda>t. it_raw t \<or> it_interactive t) t"

definition oh_jobs_for :: "output_settings \<Rightarrow> 'k output_handler \<Rightarrow> nat" where
  "oh_jobs_for st h = (if oh_raw h then 1 else jobs_resolve (st_jobs st) (oh_jobs h))"

definition oh_full_silent :: "output_settings \<Rightarrow> 'k output_handler \<Rightarrow> 'k io_task option \<Rightarrow> bool" where
  "oh_full_silent st h t \<longleftrightarrow> oh_silent h \<or> st_silent st \<or> is_some_and (\<lambda>o'. o' = Silent) (oh_output h)
     \<or> is_some_and (\<lambda>t. it_silent t = SilentBool True) t \<or> is_some_and (\<lambda>t. it_output t = Some Silent) t"

definition oh_output_for :: "output_settings \<Rightarrow> 'k output_handler \<Rightarrow> 'k io_task option \<Rightarrow> task_output" where
  "oh_output_for st h t =
     (if oh_full_silent st h t then Silent
      else
        case oh_output h of
          Some o' \<Rightarrow> style_with_raw (oh_raw_for st h t) o'
        | None \<Rightarrow>
            (case Option.bind t it_output of
               Some o' \<Rightarrow> style_with_raw (oh_raw_for st h t) o'
             | None \<Rightarrow>
                 (case st_task_output st of
                    Some o' \<Rightarrow> style_with_raw (oh_raw_for st h t) o'
                  | None \<Rightarrow>
                      if oh_raw_for st h t \<or> oh_jobs_for st h = 1 \<or> oh_is_linear h then Interleave else Prefix)))"

definition silent_bool :: "output_settings \<Rightarrow> 'k output_handler \<Rightarrow> bool" where
  "silent_bool st h \<longleftrightarrow> oh_silent h \<or> st_silent st \<or> is_some_and (\<lambda>o'. o' = Silent) (oh_output h)
     \<or> is_some_and (\<lambda>o'. o' = Silent) (st_task_output st)"

definition oh_silent_for :: "output_settings \<Rightarrow> 'k output_handler \<Rightarrow> 'k io_task option \<Rightarrow> bool" where
  "oh_silent_for st h t \<longleftrightarrow> silent_bool st h \<or> is_some_and (\<lambda>t. silent_is_silent (it_silent t)) t
     \<or> is_some_and (\<lambda>t. is_some_and (\<lambda>o'. o' = Silent) (it_output t)) t"

definition oh_quiet_for :: "output_settings \<Rightarrow> 'k output_handler \<Rightarrow> 'k io_task option \<Rightarrow> bool" where
  "oh_quiet_for st h t \<longleftrightarrow> oh_quiet h \<or> st_quiet st \<or> st_task_quiet st
     \<or> is_some_and (\<lambda>o'. o' = Quiet) (oh_output h) \<or> is_some_and (\<lambda>o'. o' = Quiet) (st_task_output st)
     \<or> is_some_and it_quiet t \<or> is_some_and (\<lambda>t. is_some_and (\<lambda>o'. o' = Quiet) (it_output t)) t
     \<or> oh_silent_for st h t"

section \<open>Where lines go\<close>

abbreviation terminal :: "'k output_handler \<Rightarrow> ('k \<times> keep_order_line) list" where
  "terminal h \<equiv> ko_out (oh_keep_order h)"

definition on_keep_order :: "('k keep_order_state \<Rightarrow> 'k keep_order_state) \<Rightarrow> 'k output_handler \<Rightarrow> 'k output_handler" where
  "on_keep_order f h = h\<lparr>oh_keep_order := f (oh_keep_order h)\<rparr>"

definition oh_print :: "'k \<Rightarrow> keep_order_line list \<Rightarrow> 'k output_handler \<Rightarrow> 'k output_handler" where
  "oh_print k ls = on_keep_order (ko_print k ls)"

definition on_summary :: "('k summary_state \<Rightarrow> 'k summary_state) \<Rightarrow> 'k output_handler \<Rightarrow> 'k output_handler" where
  "on_summary f h = h\<lparr>oh_summary := f (oh_summary h)\<rparr>"

definition get_or_init_task_pr :: "'k io_task \<Rightarrow> 'k output_handler \<Rightarrow> 'k output_handler" where
  "get_or_init_task_pr t h =
     (if it_key t \<in> fst ` set (oh_task_prs h) then h else h\<lparr>oh_task_prs := oh_task_prs h @ [(it_key t, [])]\<rparr>)"

definition pr_set_message :: "'k io_task \<Rightarrow> ustr \<Rightarrow> 'k output_handler \<Rightarrow> 'k output_handler" where
  "pr_set_message t msg h =
     (let h = get_or_init_task_pr t h in h\<lparr>oh_task_prs := imap_insert (it_key t) msg (oh_task_prs h)\<rparr>)"

definition oh_init_task :: "output_settings \<Rightarrow> 'k io_task \<Rightarrow> 'k output_handler \<Rightarrow> 'k output_handler" where
  "oh_init_task st t h =
     (case oh_output_for st h (Some t) of
        KeepOrder \<Rightarrow> if task_gets_keep_order_slot t then on_keep_order (ko_init_task (it_key t)) h else h
      | Replacing \<Rightarrow> get_or_init_task_pr t h
      | _ \<Rightarrow> h)"

subsection \<open>Summary\<close>

definition ss_push :: "'k io_task \<Rightarrow> keep_order_line \<Rightarrow> 'k summary_state \<Rightarrow> 'k summary_state" where
  "ss_push t l s =
     (case map_of (ss_buffers s) (it_key t) of
        None \<Rightarrow> s\<lparr>ss_buffers := imap_insert (it_key t) (it_prefix t, sb_push l sb_default) (ss_buffers s)\<rparr>
      | Some (p, b) \<Rightarrow> s\<lparr>ss_buffers := imap_insert (it_key t) (p, sb_push l b) (ss_buffers s)\<rparr>)"

definition summary_stdout :: "'k io_task \<Rightarrow> ustr \<Rightarrow> ustr \<Rightarrow> 'k output_handler \<Rightarrow> 'k output_handler" where
  "summary_stdout t prefix line = on_summary (ss_push t (Stdout prefix line))"

definition summary_stderr :: "'k io_task \<Rightarrow> ustr \<Rightarrow> ustr \<Rightarrow> 'k output_handler \<Rightarrow> 'k output_handler" where
  "summary_stderr t prefix line h =
     (if it_key t \<in> ss_finished (oh_summary h) then oh_print (it_key t) [Stderr prefix line] h
      else on_summary (ss_push t (Stderr prefix line)) h)"

definition summary_up_to_date :: "'k io_task \<Rightarrow> 'k output_handler \<Rightarrow> 'k output_handler" where
  "summary_up_to_date t = on_summary (\<lambda>s. s\<lparr>ss_up_to_date := insert (it_key t) (ss_up_to_date s)\<rparr>)"

text \<open>A duration is what \<^verbatim>\<open>format_duration\<close> makes of it.\<close>

definition summary_duration :: "'k io_task \<Rightarrow> ustr option \<Rightarrow> 'k output_handler \<Rightarrow> 'k output_handler" where
  "summary_duration t d = on_summary (\<lambda>s. s\<lparr>ss_durations := imap_insert (it_key t) d (ss_durations s)\<rparr>)"

datatype summary_outcome = Passed | Failed | Cancelled

definition finish_summary ::
    "output_settings \<Rightarrow> 'k io_task \<Rightarrow> summary_outcome \<Rightarrow> 'k output_handler \<Rightarrow> 'k output_handler" where
  "finish_summary st t outcome h =
     (let k = it_key t;
          s = oh_summary h;
          ls = (case map_of (ss_buffers s) k of Some (_, b) \<Rightarrow> sb_into_lines (it_prefix t) b | None \<Rightarrow> []);
          dur = map_of (ss_durations s) k;
          h = on_summary (\<lambda>s. s\<lparr>ss_buffers := filter (\<lambda>(k', _). k' \<noteq> k) (ss_buffers s),
                ss_durations := filter (\<lambda>(k', _). k' \<noteq> k) (ss_durations s), ss_replayed := ss_replayed s - {k},
                ss_up_to_date := ss_up_to_date s - {k}, ss_finished := insert k (ss_finished s)\<rparr>) h;
          message = (\<lambda>m. [Stderr (it_prefix t) m])
      in oh_print k
           (case outcome of
              Failed \<Rightarrow> ls
            | Passed \<Rightarrow>
                if oh_quiet_for st h (Some t) then []
                else
                  (case dur of
                     Some (Some d) \<Rightarrow> message (lit ''passed in '' @ d)
                   | Some None \<Rightarrow> message (lit ''passed'')
                   | None \<Rightarrow>
                       if k \<in> ss_up_to_date s then message (lit ''sources up-to-date, skipping'')
                       else if k \<in> ss_replayed s then message (lit ''passed (cached)'')
                       else ls)
            | Cancelled \<Rightarrow> if oh_quiet_for st h (Some t) then [] else message (lit ''cancelled'')) h)"

definition flush_summaries :: "'k output_handler \<Rightarrow> 'k output_handler" where
  "flush_summaries h =
     (let buffers = ss_buffers (oh_summary h)
      in fold (\<lambda>(k, p, b). oh_print k (sb_into_lines p b)) buffers (on_summary (\<lambda>s. s\<lparr>ss_buffers := []\<rparr>) h))"

subsection \<open>Messages, replayed output and lines of a process\<close>

definition oh_eprint :: "output_settings \<Rightarrow> 'k io_task \<Rightarrow> ustr \<Rightarrow> ustr \<Rightarrow> 'k output_handler \<Rightarrow> 'k output_handler" where
  "oh_eprint st t prefix line h =
     (case oh_output_for st h (Some t) of
        KeepOrder \<Rightarrow> on_keep_order (ko_on_stderr (it_key t) prefix line) h
      | Replacing \<Rightarrow> pr_set_message t (prefix @ lit '' '' @ line) h
      | Summary \<Rightarrow> summary_stderr t prefix line h
      | _ \<Rightarrow> oh_print (it_key t) [Stderr prefix line] h)"

datatype cache_output = CacheStdout ustr | CacheStderr ustr

fun cache_stdout :: "cache_output \<Rightarrow> ustr option" where
  "cache_stdout (CacheStdout l) = Some l"
| "cache_stdout (CacheStderr l) = None"

fun replay_line ::
    "task_output \<Rightarrow> 'k io_task \<Rightarrow> ustr \<Rightarrow> cache_output \<Rightarrow> 'k output_handler \<Rightarrow> 'k output_handler" where
  "replay_line mode t prefix (CacheStdout line) h =
     (if suppresses_stdout (it_silent t) then h
      else
        case mode of
          Silent \<Rightarrow> h
        | Prefix \<Rightarrow> oh_print (it_key t) [Stdout prefix line] h
        | KeepOrder \<Rightarrow> on_keep_order (ko_on_stdout (it_key t) prefix line) h
        | Replacing \<Rightarrow> if str_trim line \<noteq> [] then pr_set_message t line h else h
        | Timed \<Rightarrow> h
        | Summary \<Rightarrow> summary_stdout t prefix line h
        | _ \<Rightarrow> oh_print (it_key t) [Stdout [] line] h)"
| "replay_line mode t prefix (CacheStderr line) h =
     (if suppresses_stderr (it_silent t) then h
      else
        case mode of
          Silent \<Rightarrow> h
        | Prefix \<Rightarrow> oh_print (it_key t) [Stderr prefix line] h
        | Timed \<Rightarrow> oh_print (it_key t) [Stderr prefix line] h
        | KeepOrder \<Rightarrow> on_keep_order (ko_on_stderr (it_key t) prefix line) h
        | Replacing \<Rightarrow>
            if str_trim line \<noteq> [] then oh_print (it_key t) [Stderr [] line] (get_or_init_task_pr t h) else h
        | Summary \<Rightarrow> summary_stderr t prefix line h
        | _ \<Rightarrow> oh_print (it_key t) [Stderr [] line] h)"

definition set_timed :: "nat \<Rightarrow> 'k \<Rightarrow> ustr \<Rightarrow> ustr list \<Rightarrow> 'k output_handler \<Rightarrow> 'k output_handler" where
  "set_timed now k prefix ls h = h\<lparr>oh_timed := imap_insert prefix (now, k, ls) (oh_timed h)\<rparr>"

definition replay_cached_output ::
    "output_settings \<Rightarrow> nat \<Rightarrow> 'k io_task \<Rightarrow> ustr \<Rightarrow> cache_output list \<Rightarrow> 'k output_handler \<Rightarrow> 'k output_handler" where
  "replay_cached_output st now t prefix output h =
     (let mode = oh_output_for st h (Some t);
          h = (if mode = Summary
               then on_summary (\<lambda>s. s\<lparr>ss_replayed := insert (it_key t) (ss_replayed s)\<rparr>) h else h);
          ls = List.map_filter cache_stdout output;
          h = (if mode = Timed \<and> \<not> suppresses_stdout (it_silent t) \<and> ls \<noteq> []
               then set_timed now (it_key t) prefix ls h else h)
      in fold (replay_line mode t prefix) output h)"

text \<open>
  What the executor has the handler do with a line of the process.  With the remaining styles the
  line reaches the terminal or a progress bar without the handler.
\<close>

definition process_line ::
    "output_settings \<Rightarrow> nat \<Rightarrow> 'k io_task \<Rightarrow> keep_order_line \<Rightarrow> 'k output_handler \<Rightarrow> 'k output_handler" where
  "process_line st now t l h =
     (case l of
        Stdout prefix line \<Rightarrow>
          if suppresses_stdout (it_silent t) then h
          else
            (case oh_output_for st h (Some t) of
               Prefix \<Rightarrow> oh_print (it_key t) [Stdout prefix line] h
             | Summary \<Rightarrow> summary_stdout t prefix line h
             | KeepOrder \<Rightarrow> on_keep_order (ko_on_stdout (it_key t) prefix line) h
             | Timed \<Rightarrow> set_timed now (it_key t) prefix [line] h
             | _ \<Rightarrow> h)
      | Stderr prefix line \<Rightarrow>
          if suppresses_stderr (it_silent t) then h
          else
            (case oh_output_for st h (Some t) of
               Prefix \<Rightarrow> oh_eprint st t prefix line h
             | Summary \<Rightarrow> summary_stderr t prefix line h
             | KeepOrder \<Rightarrow> on_keep_order (ko_on_stderr (it_key t) prefix line) h
             | Timed \<Rightarrow> oh_eprint st t prefix line h
             | _ \<Rightarrow> h))"

section \<open>The end of a task, and of the run\<close>

definition retire_keep_order_slot :: "output_settings \<Rightarrow> 'k io_task \<Rightarrow> 'k output_handler \<Rightarrow> 'k output_handler" where
  "retire_keep_order_slot st t h =
     (if oh_output_for st h (Some t) = KeepOrder then on_keep_order (ko_on_task_finished (it_key t)) h else h)"

text \<open>
  The end of a task as the runner reports it: whether it succeeded, whether the run was
  interrupted or timed out, and whether it was cancelled because another task failed.
\<close>

definition task_ended ::
    "output_settings \<Rightarrow> 'k io_task \<Rightarrow> bool \<Rightarrow> bool \<Rightarrow> bool \<Rightarrow> 'k output_handler \<Rightarrow> 'k output_handler" where
  "task_ended st t ok interrupted cancelled h =
     (let h = retire_keep_order_slot st t h
      in if oh_output_for st h (Some t) = Summary
         then finish_summary st t
                (if ok then Passed else if interrupted then Failed else if cancelled then Cancelled else Failed) h
         else h)"

definition display_keep_order_output :: "'k output_handler \<Rightarrow> 'k output_handler" where
  "display_keep_order_output h = flush_summaries (on_keep_order ko_flush_all h)"

text \<open>
  One round of the printer of the \<^verbatim>\<open>timed\<close> style, with times in nanoseconds; \<open>None\<close> is its panic
  when the clock went back.
\<close>

fun timed_loop ::
    "nat \<Rightarrow> (ustr \<times> nat \<times> 'k \<times> ustr list) list \<Rightarrow> 'k output_handler \<Rightarrow> 'k output_handler option" where
  "timed_loop now [] h = Some h"
| "timed_loop now ((prefix, time, k, ls) # outputs) h =
     (if now < time then None
      else if now - time \<ge> 1000000000 then
        timed_loop now outputs
          ((oh_print k (map (Stdout prefix) ls) h)\<lparr>oh_timed := filter (\<lambda>(p, _). p \<noteq> prefix) (oh_timed h)\<rparr>)
      else timed_loop now outputs h)"

definition timed_round :: "nat \<Rightarrow> 'k output_handler \<Rightarrow> 'k output_handler option" where
  "timed_round now h = timed_loop now (oh_timed h) h"

section \<open>Runs\<close>

datatype 'k oh_op =
    OhInit "'k io_task"
  | OhInjected "'k io_task" "'k io_task list"
  | OhEprint "'k io_task" ustr ustr
  | OhLine nat "'k io_task" keep_order_line
  | OhReplay nat "'k io_task" ustr "cache_output list"
  | OhUpToDate "'k io_task"
  | OhDuration "'k io_task" "ustr option"
  | OhRetire "'k io_task"
  | OhAbandoned "'k io_task"
  | OhEnded "'k io_task" bool bool bool
  | OhDisplay

text \<open>The tasks that a run entry injects: those with a slot, in creation order.\<close>

definition oh_injected :: "output_settings \<Rightarrow> 'k io_task \<Rightarrow> 'k io_task list \<Rightarrow> 'k output_handler \<Rightarrow> 'k output_handler" where
  "oh_injected st parent tasks h =
     (let children = filter (\<lambda>t. oh_output_for st h (Some t) = KeepOrder \<and> task_gets_keep_order_slot t) tasks
      in if children \<noteq> []
         then on_keep_order (ko_insert_injected_tasks (\<lambda>_. task_needs_permit parent) (it_key parent) (map it_key children)) h
         else h)"

fun oh_step :: "output_settings \<Rightarrow> 'k oh_op \<Rightarrow> 'k output_handler \<Rightarrow> 'k output_handler" where
  "oh_step st (OhInit t) h = oh_init_task st t h"
| "oh_step st (OhInjected p ts) h = oh_injected st p ts h"
| "oh_step st (OhEprint t p l) h = oh_eprint st t p l h"
| "oh_step st (OhLine now t l) h = process_line st now t l h"
| "oh_step st (OhReplay now t p ls) h = replay_cached_output st now t p ls h"
| "oh_step st (OhUpToDate t) h = summary_up_to_date t h"
| "oh_step st (OhDuration t d) h = summary_duration t d h"
| "oh_step st (OhRetire t) h = retire_keep_order_slot st t h"
| "oh_step st (OhAbandoned t) h = on_keep_order (ko_retire_unused_slot (it_key t)) h"
| "oh_step st (OhEnded t ok i c) h = task_ended st t ok i c h"
| "oh_step st OhDisplay h = display_keep_order_output h"

end
