(* ===== verification/Summary_Buffer_Correct.thy ===== *)
theory Summary_Buffer_Correct
  imports Task_Output "HOL-Library.Sublist"
begin

text \<open>The summary buffer holds a bounded tail of what a task printed.\<close>

definition size_of :: "keep_order_line list \<Rightarrow> nat" where
  "size_of ls = sum_list (map (\<lambda>l. byte_len (line_text l) + 1) ls)"

lemma size_of_simps [simp]: "size_of [] = 0" "size_of (l # ls) = byte_len (line_text l) + 1 + size_of ls"
  "size_of (a @ b) = size_of a + size_of b"
  by (simp_all add: size_of_def)

lemma line_text_set [simp]: "line_text (set_text t l) = t"
  by (cases l) simp_all

lemma set_text_same [simp]: "set_text (line_text l) l = l"
  by (cases l) simp_all

lemma set_text_twice [simp]: "set_text a (set_text b l) = set_text a l"
  by (cases l) simp_all

text \<open>
  The end of some lines: the lines after a point, the first of which may have lost the front of
  its text.
\<close>

definition tail_of :: "keep_order_line list \<Rightarrow> keep_order_line list \<Rightarrow> bool" where
  "tail_of kept ls \<longleftrightarrow> suffix kept ls
     \<or> (\<exists>l rest s. kept = set_text s l # rest \<and> suffix (l # rest) ls \<and> suffix s (line_text l))"

lemma suffix_drain: "suffix (drain_to n s) s"
  by (induction n s rule: drain_to.induct) (auto intro: suffix_ConsI)

lemma tail_of_refl: "tail_of ls ls"
  by (simp add: tail_of_def)

lemma tail_of_Cons: "tail_of (l # kept) ls \<Longrightarrow> tail_of kept ls"
  by (auto simp: tail_of_def dest: suffix_ConsD)

lemma tail_of_cut:
  assumes "tail_of (l # kept) ls" and "suffix s (line_text l)"
  shows "tail_of (set_text s l # kept) ls"
proof -
  consider "suffix (l # kept) ls" | j t where "l = set_text t j" "suffix (j # kept) ls" "suffix t (line_text j)"
    using assms(1) by (auto simp: tail_of_def)
  then show ?thesis
  proof cases
    case 1
    with assms(2) show ?thesis unfolding tail_of_def by blast
  next
    case 2
    then have "set_text s l = set_text s j" by simp
    moreover have "suffix s (line_text j)" using 2 assms(2) suffix_order.trans [of s t "line_text j"] by simp
    ultimately have "set_text s l = set_text s j" "suffix s (line_text j)" .
    with 2(2) show ?thesis unfolding tail_of_def by metis
  qed
qed

lemma tail_of_snoc: "tail_of kept ls \<Longrightarrow> tail_of (kept @ [l]) (ls @ [l])"
  unfolding tail_of_def suffix_def by fastforce

text \<open>What the loop of \<open>push\<close> leaves.\<close>

lemma sb_trim_spec:
  assumes "bytes = size_of lines" and "truncated \<longrightarrow> SUMMARY_TAIL_BYTES \<le> bytes + 3"
    and "sb_trim lines bytes truncated = (lines', bytes', truncated')" and "tail_of lines ls"
  shows "bytes' = size_of lines' \<and> bytes' \<le> SUMMARY_TAIL_BYTES \<and> (truncated' \<longrightarrow> SUMMARY_TAIL_BYTES \<le> bytes' + 3)
    \<and> tail_of lines' ls \<and> (truncated' \<longleftrightarrow> truncated \<or> SUMMARY_TAIL_BYTES < bytes)
    \<and> (\<not> truncated' \<longrightarrow> lines' = lines)"
  using assms
proof (induction lines bytes truncated rule: sb_trim.induct)
  case (1 lines bytes truncated)
  show ?case
  proof (cases "bytes > SUMMARY_TAIL_BYTES")
    case False
    then have "sb_trim lines bytes truncated = (lines, bytes, truncated)" by (subst sb_trim.simps) simp
    with "1.prems" False show ?thesis by auto
  next
    case True
    then obtain l rest where lines: "lines = l # rest" using "1.prems"(1) by (cases lines) auto
    let ?excess = "bytes - SUMMARY_TAIL_BYTES" and ?len = "byte_len (line_text l)"
    show ?thesis
    proof (cases "?len \<le> ?excess")
      case drop: True
      have "sb_trim rest (bytes - (?len + 1)) True = (lines', bytes', truncated')"
        using "1.prems"(3) True drop lines by (subst (asm) sb_trim.simps) simp
      moreover have "bytes - (?len + 1) = size_of rest" using "1.prems"(1) lines by simp
      moreover have "SUMMARY_TAIL_BYTES \<le> bytes - (?len + 1) + 3" using drop True by linarith
      moreover have "tail_of rest ls" using "1.prems"(4) lines tail_of_Cons by blast
      ultimately show ?thesis using 1(1) [OF True lines refl refl drop] True by auto
    next
      case cut: False
      let ?kept = "drain_to ?excess (line_text l)"
      have b: "byte_len ?kept + ?excess \<le> ?len" "?len \<le> byte_len ?kept + ?excess + 3"
        using drain_to_bounds [of ?excess "line_text l"] cut by simp_all
      have "sb_trim (set_text ?kept l # rest) (bytes - (?len - byte_len ?kept)) True = (lines', bytes', truncated')"
        using "1.prems"(3) True cut lines by (subst (asm) sb_trim.simps) (simp add: Let_def)
      moreover have "tail_of (set_text ?kept l # rest) ls"
        using "1.prems"(4) lines suffix_drain by (intro tail_of_cut) simp_all
      moreover have "bytes - (?len - byte_len ?kept) = size_of (set_text ?kept l # rest)"
        using "1.prems"(1) lines b by simp
      moreover have "SUMMARY_TAIL_BYTES \<le> bytes - (?len - byte_len ?kept) + 3" using b True by linarith
      ultimately show ?thesis using 1(2) [OF True lines refl refl cut refl] True by auto
    qed
  qed
qed

text \<open>The buffer after some lines; \<open>rest\<close> are those that are not held apart.\<close>

definition first_apart :: "keep_order_line list \<Rightarrow> bool" where
  "first_apart ls \<longleftrightarrow> ls \<noteq> [] \<and> byte_len (line_text (hd ls)) \<le> SUMMARY_FIRST_LINE_BYTES"

definition tail_lines :: "keep_order_line list \<Rightarrow> keep_order_line list" where
  "tail_lines ls = (if first_apart ls then tl ls else ls)"

definition sb_of :: "keep_order_line list \<Rightarrow> summary_buffer" where
  "sb_of ls = fold sb_push ls sb_default"

lemma sb_of_snoc: "sb_of (ls @ [l]) = sb_push l (sb_of ls)"
  by (simp add: sb_of_def)

lemma sb_of_spec:
  "sb_first (sb_of ls) = (if first_apart ls then Some (hd ls) else None)
   \<and> sb_bytes (sb_of ls) = size_of (sb_lines (sb_of ls)) \<and> sb_bytes (sb_of ls) \<le> SUMMARY_TAIL_BYTES
   \<and> (sb_truncated (sb_of ls) \<longrightarrow> SUMMARY_TAIL_BYTES \<le> sb_bytes (sb_of ls) + 3)
   \<and> tail_of (sb_lines (sb_of ls)) (tail_lines ls)
   \<and> (sb_truncated (sb_of ls) \<longleftrightarrow> SUMMARY_TAIL_BYTES < size_of (tail_lines ls))
   \<and> (\<not> sb_truncated (sb_of ls) \<longrightarrow> sb_lines (sb_of ls) = tail_lines ls)"
proof (induction ls rule: rev_induct)
  case Nil
  show ?case by (simp add: sb_of_def sb_default_def first_apart_def tail_lines_def tail_of_def)
next
  case (snoc l ls)
  let ?b = "sb_of ls"
  show ?case
  proof (cases "sb_first ?b = None \<and> sb_lines ?b = [] \<and> byte_len (line_text l) \<le> SUMMARY_FIRST_LINE_BYTES")
    case True
    have "tail_lines ls = [] \<and> \<not> first_apart ls"
    proof -
      have f: "\<not> first_apart ls" using snoc True by (auto split: if_splits)
      moreover have "\<not> sb_truncated ?b" using snoc True by (auto simp: SUMMARY_TAIL_BYTES_def)
      ultimately show ?thesis using snoc True by simp
    qed
    then have "ls = []" by (auto simp: tail_lines_def)
    with True show ?thesis
      by (simp add: sb_of_def sb_push_def sb_default_def first_apart_def tail_lines_def tail_of_def)
  next
    case False
    obtain lines bytes truncated where t:
      "sb_trim (sb_lines ?b @ [l]) (sb_bytes ?b + (byte_len (line_text l) + 1)) (sb_truncated ?b) = (lines, bytes, truncated)"
      by (metis prod_cases3)
    have b: "sb_of (ls @ [l]) = ?b\<lparr>sb_lines := lines, sb_bytes := bytes, sb_truncated := truncated\<rparr>"
      unfolding sb_of_snoc sb_push_def using t by (simp only: False if_False prod.case)
    have fa: "first_apart (ls @ [l]) = first_apart ls \<and> tail_lines (ls @ [l]) = tail_lines ls @ [l]"
    proof (cases "ls = []")
      case True
      with False show ?thesis by (auto simp: sb_of_def sb_default_def first_apart_def tail_lines_def)
    qed (simp add: first_apart_def tail_lines_def)
    have spec: "bytes = size_of lines \<and> bytes \<le> SUMMARY_TAIL_BYTES \<and> (truncated \<longrightarrow> SUMMARY_TAIL_BYTES \<le> bytes + 3)
      \<and> tail_of lines (tail_lines ls @ [l])
      \<and> (truncated \<longleftrightarrow> sb_truncated ?b \<or> SUMMARY_TAIL_BYTES < sb_bytes ?b + (byte_len (line_text l) + 1))
      \<and> (\<not> truncated \<longrightarrow> lines = sb_lines ?b @ [l])"
      by (rule sb_trim_spec [OF _ _ t]) (use snoc in \<open>auto intro: tail_of_snoc\<close>)
    have "hd (ls @ [l]) = hd ls" if "first_apart ls" using that by (simp add: first_apart_def)
    moreover have "truncated \<longleftrightarrow> SUMMARY_TAIL_BYTES < size_of (tail_lines ls @ [l])"
    proof (cases "sb_truncated ?b")
      case True
      then show ?thesis using spec snoc by simp
    next
      case nt: False
      then show ?thesis using spec snoc by simp
    qed
    ultimately show ?thesis unfolding b using spec fa snoc by (cases truncated; cases "first_apart ls") auto
  qed
qed

text \<open>What is printed of a buffer.\<close>

lemma sb_into_lines_of:
  "sb_into_lines p (sb_of ls) =
     (if sb_truncated (sb_of ls)
      then (if first_apart ls then [hd ls] else []) @ Stderr p (lit ''[output truncated; showing last 64 KiB]'')
        # sb_lines (sb_of ls)
      else ls)"
proof -
  have "first_apart ls \<Longrightarrow> hd ls # tail_lines ls = ls" "\<not> first_apart ls \<Longrightarrow> tail_lines ls = ls"
    by (auto simp: first_apart_def tail_lines_def)
  with sb_of_spec [of ls] show ?thesis by (auto simp: sb_into_lines_def)
qed

lemma sb_push_fold_default [simp]: "fold sb_push ls sb_default = sb_of ls"
  by (simp add: sb_of_def)

text \<open>
  \<^bold>\<open>C38.\<close> What the summary keeps of a task's lines is bounded.  When its lines, not counting a
  short first one that is held apart, fit in 64 KiB, all of them are printed; otherwise the
  short first line, a notice, and the end of the others: whole lines after one that may have
  lost the front of its text at a character boundary, and of 64 KiB at most three bytes unused.
\<close>

theorem summary_tail:
  "let b = fold sb_push ls sb_default
   in size_of (sb_lines b) \<le> 65536
      \<and> (if size_of (tail_lines ls) \<le> 65536 then sb_into_lines p b = ls
         else sb_into_lines p b = (if first_apart ls then [hd ls] else [])
                @ Stderr p (lit ''[output truncated; showing last 64 KiB]'') # sb_lines b
           \<and> tail_of (sb_lines b) (tail_lines ls) \<and> 65533 \<le> size_of (sb_lines b))"
  using sb_of_spec [of ls] sb_into_lines_of [of p ls] by (auto simp: SUMMARY_TAIL_BYTES_def Let_def)

end
