(* ===== verification/Output_Handler_Correct.thy ===== *)
theory Output_Handler_Correct
  imports Output_Handler Task_Output_Correct Summary_Buffer_Correct
begin

text \<open>
  Which style a task gets, and what of a task reaches the terminal when tasks with different
  styles run at the same time.
\<close>

section \<open>Styles\<close>

lemma style_with_raw_simps [simp]:
  "style_with_raw raw o' \<noteq> Quiet" "style_with_raw raw o' = Silent \<longleftrightarrow> o' = Silent"
  "style_with_raw True o' = (if o' = Silent then Silent else Interleave)"
  "style_with_raw False o' = (if o' = Quiet then Interleave else o')"
  by (auto simp: style_with_raw_def style_only_def)

lemma output_not_quiet: "oh_output_for st h t \<noteq> Quiet"
  by (simp add: oh_output_for_def split: option.split)

lemma output_raw: "oh_raw_for st h t \<Longrightarrow> oh_output_for st h t \<in> {Interleave, Silent}"
  by (simp add: oh_output_for_def split: option.split)

lemma output_silent_iff:
  "oh_output_for st h t = Silent \<longleftrightarrow> oh_full_silent st h t
     \<or> oh_output h = None \<and> Option.bind t it_output = None \<and> st_task_output st = Some Silent"
  by (cases t) (auto simp: oh_output_for_def oh_full_silent_def split: option.split)

lemma output_silent_quiet:
  assumes "oh_output_for st h t = Silent"
  shows "oh_silent_for st h t \<and> oh_quiet_for st h t"
proof -
  have "oh_silent_for st h t"
    using assms unfolding output_silent_iff
    by (auto simp: oh_silent_for_def silent_bool_def oh_full_silent_def split: option.splits)
  then show ?thesis by (simp add: oh_quiet_for_def)
qed

section \<open>What an operation does for one task\<close>

definition oh_config :: "'k output_handler \<Rightarrow> task_output option \<times> bool \<times> bool \<times> bool \<times> bool \<times> nat option" where
  "oh_config h = (oh_output h, oh_silent h, oh_quiet h, oh_raw h, oh_is_linear h, oh_jobs h)"

lemma config_output:
  assumes "oh_config h' = oh_config h"
  shows "oh_output_for st h' t = oh_output_for st h t" "oh_quiet_for st h' t = oh_quiet_for st h t"
proof -
  have c: "oh_output h' = oh_output h" "oh_silent h' = oh_silent h" "oh_quiet h' = oh_quiet h"
    "oh_raw h' = oh_raw h" "oh_is_linear h' = oh_is_linear h" "oh_jobs h' = oh_jobs h"
    using assms by (simp_all add: oh_config_def)
  show "oh_output_for st h' t = oh_output_for st h t"
    unfolding oh_output_for_def oh_full_silent_def oh_raw_for_def oh_jobs_for_def c ..
  show "oh_quiet_for st h' t = oh_quiet_for st h t"
    unfolding oh_quiet_for_def oh_silent_for_def silent_bool_def c ..
qed

type_synonym ss_view = "(ustr \<times> summary_buffer) option \<times> ustr option option \<times> bool \<times> bool \<times> bool"

definition view_of :: "'k \<Rightarrow> 'k summary_state \<Rightarrow> ss_view" where
  "view_of k s = (map_of (ss_buffers s) k, map_of (ss_durations s) k, k \<in> ss_replayed s,
     k \<in> ss_up_to_date s, k \<in> ss_finished s)"

definition oh_lines :: "'k output_handler \<Rightarrow> 'k \<Rightarrow> keep_order_line list" where
  "oh_lines h k = ko_lines (oh_keep_order h) k"

abbreviation oh_held :: "'k output_handler \<Rightarrow> 'k \<Rightarrow> keep_order_line list" where
  "oh_held h \<equiv> held (ko_buffers (oh_keep_order h))"

abbreviation oh_wf :: "'k output_handler \<Rightarrow> bool" where
  "oh_wf h \<equiv> ko_wf (oh_keep_order h)"

text \<open>
  An operation that adds these lines of a task, and leaves its summary as it is.  Lines are only
  held back for a task when \<open>hold\<close> allows it.
\<close>

definition oh_effect :: "'k \<Rightarrow> bool \<Rightarrow> keep_order_line list \<Rightarrow> 'k output_handler \<Rightarrow> 'k output_handler \<Rightarrow> bool" where
  "oh_effect k hold e h h' \<longleftrightarrow> oh_config h' = oh_config h \<and> view_of k (oh_summary h') = view_of k (oh_summary h)
     \<and> (oh_wf h \<longrightarrow> oh_wf h' \<and> oh_lines h' k = oh_lines h k @ e \<and> (\<not> hold \<and> oh_held h k = [] \<longrightarrow> oh_held h' k = []))"

named_theorems effect

lemma effect_refl [effect]: "oh_effect k hold [] h h"
  by (simp add: oh_effect_def)

lemma effect_trans: "oh_effect k hold a h h' \<Longrightarrow> oh_effect k hold b h' h'' \<Longrightarrow> oh_effect k hold (a @ b) h h''"
  by (simp add: oh_effect_def)

lemma effect_keep_order [effect]:
  assumes "ko_adds [] (oh_keep_order h) (f (oh_keep_order h))"
  shows "oh_effect k hold [] h (on_keep_order f h)"
  using assms ko_adds_held [OF assms]
  by (simp add: oh_effect_def on_keep_order_def oh_config_def oh_lines_def ko_adds_def)

lemma effect_line: "oh_effect k (hold \<or> j = k) (if j = k then [l] else []) h (on_keep_order (ko_on_line j l) h)"
  using adds_line [of j l "oh_keep_order h"] ko_adds_held [OF adds_line, of "oh_keep_order h" k j l]
  by (simp add: oh_effect_def on_keep_order_def oh_config_def oh_lines_def ko_adds_def)

lemma effect_print:
  "oh_held h k = [] \<or> j \<noteq> k \<Longrightarrow> oh_effect k hold (if j = k then ls else []) h (oh_print j ls h)"
  by (auto simp: oh_effect_def oh_print_def on_keep_order_def oh_config_def oh_lines_def ko_print_def ko_wf_def ko_lines_def)

lemma effect_prs [effect]: "oh_effect k hold [] h (h\<lparr>oh_task_prs := x\<rparr>)"
  by (simp add: oh_effect_def oh_config_def oh_lines_def)

lemma effect_timed [effect]: "oh_effect k hold [] h (set_timed now j p ls h)"
  by (simp add: oh_effect_def oh_config_def oh_lines_def set_timed_def)

lemma effect_summary:
  "view_of k (f (oh_summary h)) = view_of k (oh_summary h) \<Longrightarrow> oh_effect k hold [] h (on_summary f h)"
  by (simp add: oh_effect_def oh_config_def oh_lines_def on_summary_def)

lemma effect_pr [effect]: "oh_effect k hold [] h (get_or_init_task_pr t h)"
  by (simp add: get_or_init_task_pr_def effect)

lemma effect_message [effect]: "oh_effect k hold [] h (pr_set_message t m h)"
  using effect_trans [OF effect_pr effect_prs] by (fastforce simp: pr_set_message_def Let_def)

text \<open>Operations that only touch the slots.\<close>

lemma effect_init [effect]: "oh_effect k hold [] h (oh_init_task st t h)"
  by (simp add: oh_init_task_def effect adds_init split: task_output.split)

lemma effect_injected [effect]: "oh_effect k hold [] h (oh_injected st p ts h)"
  by (simp add: oh_injected_def Let_def effect adds_inject)

lemma effect_retire [effect]: "oh_effect k hold [] h (retire_keep_order_slot st t h)"
  by (simp add: retire_keep_order_slot_def effect adds_finished)

lemma effect_abandoned [effect]: "oh_effect k hold [] h (on_keep_order (ko_retire_unused_slot j) h)"
  by (simp add: effect adds_retire)

section \<open>Operations on another task\<close>

lemma view_push: "it_key t \<noteq> k \<Longrightarrow> view_of k (ss_push t l s) = view_of k s"
  by (simp add: ss_push_def view_of_def split: option.split prod.split)

lemma view_filter: "map_of (filter (\<lambda>(k', _). k' \<noteq> j) m) k = (if k = j then None else map_of m k)"
  by (induction m) auto

lemma other_print: "j \<noteq> k \<Longrightarrow> oh_effect k hold [] h (oh_print j ls h)"
  using effect_print [of h k j hold ls] by simp

lemma other_line: "j \<noteq> k \<Longrightarrow> oh_effect k hold [] h (on_keep_order (ko_on_line j l) h)"
  using effect_line [of k hold j l h] by simp

lemmas on_line_defs = ko_on_stdout_def ko_on_stderr_def

lemma other_stdout: "it_key t \<noteq> k \<Longrightarrow> oh_effect k hold [] h (summary_stdout t p l h)"
  by (simp add: summary_stdout_def effect_summary view_push)

lemma other_stderr: "it_key t \<noteq> k \<Longrightarrow> oh_effect k hold [] h (summary_stderr t p l h)"
  by (simp add: summary_stderr_def effect_summary view_push other_print)

lemma other_eprint: "it_key t \<noteq> k \<Longrightarrow> oh_effect k hold [] h (oh_eprint st t p l h)"
  by (simp add: oh_eprint_def on_line_defs other_line other_print other_stderr effect split: task_output.split)

lemma other_replay_line: "it_key t \<noteq> k \<Longrightarrow> oh_effect k hold [] h (replay_line m t p c h)"
  using effect_trans [OF effect_pr other_print, of "it_key t" k]
  by (cases c; cases m) (simp_all add: on_line_defs other_line other_print other_stdout other_stderr effect)

lemma effect_fold:
  assumes "\<And>x h. x \<in> set xs \<Longrightarrow> oh_effect k hold [] h (f x h)"
  shows "oh_effect k hold [] h (fold f xs h)"
  using assms
proof (induction xs arbitrary: h)
  case (Cons x xs)
  then have "oh_effect k hold ([] @ []) h (fold f xs (f x h))" by (intro effect_trans [of _ _ _ _ "f x h"]) simp_all
  then show ?case by simp
qed (simp add: effect)

lemma effect_none: "oh_effect k hold [] h h' \<Longrightarrow> oh_effect k hold b h' h'' \<Longrightarrow> oh_effect k hold b h h''"
  using effect_trans by fastforce

text \<open>The parts of a replay before its lines.\<close>

definition replay_start ::
    "task_output \<Rightarrow> nat \<Rightarrow> 'k io_task \<Rightarrow> ustr \<Rightarrow> cache_output list \<Rightarrow> 'k output_handler \<Rightarrow> 'k output_handler" where
  "replay_start mode now t p ls h =
     (let h = (if mode = Summary then on_summary (\<lambda>s. s\<lparr>ss_replayed := insert (it_key t) (ss_replayed s)\<rparr>) h else h);
          out = List.map_filter cache_stdout ls
      in if mode = Timed \<and> \<not> suppresses_stdout (it_silent t) \<and> out \<noteq> [] then set_timed now (it_key t) p out h else h)"

lemma replay_eq:
  "replay_cached_output st now t p ls h =
     fold (replay_line (oh_output_for st h (Some t)) t p) ls (replay_start (oh_output_for st h (Some t)) now t p ls h)"
  by (simp add: replay_cached_output_def replay_start_def Let_def)

lemma replay_start_effect:
  "mode \<noteq> Summary \<or> it_key t \<noteq> k \<Longrightarrow> oh_effect k hold [] h (replay_start mode now t p ls h)"
  by (auto simp: replay_start_def Let_def view_of_def effect intro!: effect_summary)

lemma other_replay: "it_key t \<noteq> k \<Longrightarrow> oh_effect k hold [] h (replay_cached_output st now t p ls h)"
  unfolding replay_eq by (rule effect_none [OF replay_start_effect effect_fold]) (simp_all add: other_replay_line)

lemma other_process: "it_key t \<noteq> k \<Longrightarrow> oh_effect k hold [] h (process_line st now t l h)"
  by (cases l; cases "oh_output_for st h (Some t)")
    (simp_all add: process_line_def on_line_defs other_line other_print other_stdout other_stderr other_eprint effect)

lemma other_finish: "it_key t \<noteq> k \<Longrightarrow> oh_effect k hold [] h (finish_summary st t oc h)"
  unfolding finish_summary_def Let_def
  by (rule effect_none [OF effect_summary other_print]) (simp_all add: view_of_def view_filter)

lemma other_ended: "it_key t \<noteq> k \<Longrightarrow> oh_effect k hold [] h (task_ended st t ok i c h)"
  unfolding task_ended_def Let_def
  by (rule effect_none [OF effect_retire [of k hold h st t]]) (simp add: other_finish effect)

text \<open>The task of an operation, except for those that are for all tasks.\<close>

fun op_task :: "'k oh_op \<Rightarrow> 'k io_task option" where
  "op_task (OhInit t) = None"
| "op_task (OhInjected p ts) = None"
| "op_task (OhEprint t p l) = Some t"
| "op_task (OhLine now t l) = Some t"
| "op_task (OhReplay now t p ls) = Some t"
| "op_task (OhUpToDate t) = Some t"
| "op_task (OhDuration t d) = Some t"
| "op_task (OhRetire t) = None"
| "op_task (OhAbandoned t) = None"
| "op_task (OhEnded t ok i c) = Some t"
| "op_task OhDisplay = None"

lemma other_step:
  assumes "op \<noteq> OhDisplay" and "op_task op = None \<or> it_key (the (op_task op)) \<noteq> k"
  shows "oh_effect k hold [] h (oh_step st op h)"
  using assms
  by (cases op) (simp_all add: effect other_eprint other_process other_replay other_ended effect_summary
      summary_up_to_date_def summary_duration_def view_of_def)

section \<open>Lines of a task\<close>

fun suppressed :: "task_silent \<Rightarrow> keep_order_line \<Rightarrow> bool" where
  "suppressed s (Stdout p l) = suppresses_stdout s"
| "suppressed s (Stderr p l) = suppresses_stderr s"

fun cache_line :: "ustr \<Rightarrow> cache_output \<Rightarrow> keep_order_line" where
  "cache_line p (CacheStdout l) = Stdout p l"
| "cache_line p (CacheStderr l) = Stderr p l"

text \<open>The lines that an operation has to print for a task, with their labels.\<close>

fun op_lines :: "'k \<Rightarrow> 'k oh_op \<Rightarrow> keep_order_line list" where
  "op_lines k (OhEprint t p l) = (if it_key t = k then [Stderr p l] else [])"
| "op_lines k (OhLine now t l) = (if it_key t = k \<and> \<not> suppressed (it_silent t) l then [l] else [])"
| "op_lines k (OhReplay now t p ls) =
     (if it_key t = k then filter (\<lambda>l. \<not> suppressed (it_silent t) l) (map (cache_line p) ls) else [])"
| "op_lines k op = []"

definition lines_for :: "'k \<Rightarrow> 'k oh_op list \<Rightarrow> keep_order_line list" where
  "lines_for k ops = concat (map (op_lines k) ops)"

lemma lines_for_simps [simp]: "lines_for k [] = []" "lines_for k (op # ops) = op_lines k op @ lines_for k ops"
  by (simp_all add: lines_for_def)

lemma op_lines_other: "op_task op = None \<or> it_key (the (op_task op)) \<noteq> k \<Longrightarrow> op_lines k op = []"
  by (cases op) simp_all

text \<open>Operations on a task that prints its lines in order.\<close>

definition line_mode :: "task_output \<Rightarrow> bool" where
  "line_mode m \<longleftrightarrow> m = KeepOrder \<or> m = Prefix"

lemma own_eprint:
  assumes "oh_output_for st h (Some t) = m" and "line_mode m" and "m = Prefix \<longrightarrow> oh_held h (it_key t) = []"
  shows "oh_effect (it_key t) (m = KeepOrder) [Stderr p l] h (oh_eprint st t p l h)"
  using assms effect_line [of "it_key t" True "it_key t" "Stderr p l" h]
    effect_print [of h "it_key t" "it_key t" False "[Stderr p l]"]
  by (auto simp: oh_eprint_def line_mode_def on_line_defs)

lemma own_process:
  assumes "oh_output_for st h (Some t) = m" and "line_mode m" and "m = Prefix \<longrightarrow> oh_held h (it_key t) = []"
  shows "oh_effect (it_key t) (m = KeepOrder) (if suppressed (it_silent t) l then [] else [l]) h (process_line st now t l h)"
  using assms own_eprint [OF assms] effect_line [of "it_key t" True "it_key t" l h]
    effect_print [of h "it_key t" "it_key t" False "[l]"]
  by (cases l) (auto simp: process_line_def line_mode_def on_line_defs effect)

lemma own_replay_line:
  assumes "line_mode m" and "m = Prefix \<longrightarrow> oh_held h (it_key t) = []"
  shows "oh_effect (it_key t) (m = KeepOrder)
    (if suppressed (it_silent t) (cache_line p c) then [] else [cache_line p c]) h (replay_line m t p c h)"
  using assms effect_line [of "it_key t" True "it_key t" "cache_line p c" h]
    effect_print [of h "it_key t" "it_key t" False "[cache_line p c]"]
  by (cases c) (auto simp: line_mode_def on_line_defs effect)

lemma own_replay_lines:
  assumes "line_mode m" and "oh_wf h" and "m = Prefix \<longrightarrow> oh_held h (it_key t) = []"
  shows "oh_effect (it_key t) (m = KeepOrder) (filter (\<lambda>l. \<not> suppressed (it_silent t) l) (map (cache_line p) cs)) h
    (fold (replay_line m t p) cs h)"
  using assms
proof (induction cs arbitrary: h)
  case (Cons c cs)
  let ?h = "replay_line m t p c h"
  note one = own_replay_line [OF Cons.prems(1,3), of p c]
  then have "oh_wf ?h" "m = Prefix \<longrightarrow> oh_held ?h (it_key t) = []"
    using Cons.prems(2,3) by (auto simp: oh_effect_def)
  from effect_trans [OF one Cons.IH [OF Cons.prems(1) this]] show ?case by (simp split: if_splits)
qed (simp add: effect)

lemma own_step:
  assumes "oh_output_for st h (Some t) = m" and "line_mode m" and "oh_wf h"
    and "m = Prefix \<longrightarrow> oh_held h (it_key t) = []" and "op_task op = Some t"
    and "\<And>d. op \<noteq> OhDuration t d" and "op \<noteq> OhUpToDate t"
  shows "oh_effect (it_key t) (m = KeepOrder) (op_lines (it_key t) op) h (oh_step st op h)"
proof (cases op)
  case (OhEprint u p l)
  with assms own_eprint [OF assms(1,2,4), of p l] show ?thesis by simp
next
  case (OhLine now u l)
  with assms own_process [OF assms(1,2,4), of l now] show ?thesis by (simp split: if_splits)
next
  case (OhReplay now u p ls)
  let ?h = "replay_start m now t p ls h"
  have start: "oh_effect (it_key t) (m = KeepOrder) [] h ?h"
    using assms(2) by (intro replay_start_effect) (auto simp: line_mode_def)
  then have "oh_wf ?h" "m = Prefix \<longrightarrow> oh_held ?h (it_key t) = []"
    using assms(3,4) by (auto simp: oh_effect_def)
  from effect_none [OF start own_replay_lines [OF assms(2) this]] show ?thesis
    using OhReplay assms(1,5) by (simp add: replay_eq)
next
  case (OhEnded u ok i c)
  have "oh_output_for st (retire_keep_order_slot st t h) (Some t) \<noteq> Summary"
    using assms(1,2) effect_retire [of "it_key t" False h st t] config_output(1) by (metis line_mode_def oh_effect_def task_output.distinct)
  then show ?thesis using OhEnded assms(5) by (simp add: task_ended_def Let_def effect)
qed (use assms(5-7) in \<open>auto simp: effect\<close>)

text \<open>The state of the handler as a task with such a style sees it after the lines \<open>ls\<close>.\<close>

definition line_state :: "'k output_handler \<Rightarrow> task_output \<Rightarrow> 'k \<Rightarrow> keep_order_line list \<Rightarrow> 'k output_handler \<Rightarrow> bool" where
  "line_state h0 m k ls h \<longleftrightarrow> oh_config h = oh_config h0 \<and> oh_wf h \<and> oh_lines h k = ls
     \<and> (m = Prefix \<longrightarrow> oh_held h k = []) \<and> map_of (ss_buffers (oh_summary h)) k = None"

lemma line_state_effect:
  "line_state h0 m k ls h \<Longrightarrow> oh_effect k (m = KeepOrder) e h h' \<Longrightarrow> line_mode m \<Longrightarrow> line_state h0 m k (ls @ e) h'"
  by (auto simp: line_state_def oh_effect_def view_of_def line_mode_def)

lemma line_state_step:
  assumes inv: "line_state h0 m (it_key t) ls h" and m: "oh_output_for st h0 (Some t) = m" "line_mode m"
    and op: "op \<noteq> OhDisplay" "\<And>u. op_task op = Some u \<Longrightarrow> it_key u = it_key t \<Longrightarrow> u = t"
  shows "line_state h0 m (it_key t) (ls @ op_lines (it_key t) op) (oh_step st op h)"
proof (cases "op_task op = None \<or> it_key (the (op_task op)) \<noteq> it_key t")
  case True
  from line_state_effect [OF inv other_step [OF op(1) True] m(2)] op_lines_other [OF True] show ?thesis by simp
next
  case False
  then have own: "op_task op = Some t" using op(2) by auto
  have h: "oh_output_for st h (Some t) = m" "oh_wf h" "m = Prefix \<longrightarrow> oh_held h (it_key t) = []"
    using inv m(1) config_output(1) by (auto simp: line_state_def)
  show ?thesis
  proof (cases "(\<exists>d. op = OhDuration t d) \<or> op = OhUpToDate t")
    case True
    have "line_state h0 m (it_key t) ls (on_summary f h)"
      if "\<And>s. ss_buffers (f s) = ss_buffers s" for f
      using inv that by (simp add: line_state_def on_summary_def oh_config_def oh_lines_def)
    then have "line_state h0 m (it_key t) ls (summary_duration t d h)" "line_state h0 m (it_key t) ls (summary_up_to_date t h)"
      for d unfolding summary_duration_def summary_up_to_date_def by simp_all
    with True show ?thesis by auto
  next
    case rest: False
    show ?thesis
      by (rule line_state_effect [OF inv _ m(2)], rule own_step [OF h(1) m(2) h(2,3) own]) (use rest in auto)
  qed
qed

lemma line_state_run:
  assumes "line_state h0 m (it_key t) ls h" and "oh_output_for st h0 (Some t) = m" and "line_mode m"
    and "\<forall>op\<in>set ops. op \<noteq> OhDisplay \<and> (\<forall>u. op_task op = Some u \<and> it_key u = it_key t \<longrightarrow> u = t)"
  shows "line_state h0 m (it_key t) (ls @ lines_for (it_key t) ops) (fold (oh_step st) ops h)"
  using assms
proof (induction ops arbitrary: ls h)
  case (Cons op ops)
  have "line_state h0 m (it_key t) (ls @ op_lines (it_key t) op) (oh_step st op h)"
    by (rule line_state_step [OF Cons.prems(1-3)]) (use Cons.prems(4) in auto)
  from Cons.IH [OF this Cons.prems(2,3)] Cons.prems(4) show ?case by simp
qed simp

lemma line_state_new: "line_state (output_handler_new a b c d e f) m k [] (output_handler_new a b c d e f)"
  by (simp add: line_state_def output_handler_new_def ko_new_def ko_wf_def oh_lines_def ko_lines_def)

text \<open>The end of the run.\<close>

lemma flush_prints:
  "terminal (fold (\<lambda>(k, p, b). oh_print k (sb_into_lines p b)) buffers h) =
     terminal h @ concat (map (\<lambda>(k, p, b). map (Pair k) (sb_into_lines p b)) buffers)"
  by (induction buffers arbitrary: h) (auto simp: oh_print_def on_keep_order_def ko_print_def)

lemma display_terminal:
  "terminal (display_keep_order_output h) = ko_out (ko_flush_all (oh_keep_order h))
     @ concat (map (\<lambda>(k, p, b). map (Pair k) (sb_into_lines p b)) (ss_buffers (oh_summary h)))"
  by (simp add: display_keep_order_output_def flush_summaries_def Let_def flush_prints on_summary_def on_keep_order_def)

lemma log_of_buffers:
  "distinct (map fst m) \<Longrightarrow>
   log_of k (concat (map (\<lambda>(k, p, b). map (Pair k) (sb_into_lines p b)) m)) =
     (case map_of m k of Some (p, b) \<Rightarrow> sb_into_lines p b | None \<Rightarrow> [])"
proof (induction m)
  case (Cons x m)
  obtain j p b where x: "x = (j, p, b)" by (cases x)
  have "map_of m j = None" using Cons.prems x by (simp add: map_of_eq_None_iff)
  with Cons x show ?case by auto
qed simp

lemma display_log:
  assumes "oh_wf h" and "distinct (map fst (ss_buffers (oh_summary h)))"
  shows "log_of k (terminal (display_keep_order_output h)) = oh_lines h k
    @ (case map_of (ss_buffers (oh_summary h)) k of Some (p, b) \<Rightarrow> sb_into_lines p b | None \<Rightarrow> [])"
proof -
  have "ko_lines (ko_flush_all (oh_keep_order h)) k = ko_lines (oh_keep_order h) k"
    using adds_flush_all assms(1) unfolding ko_adds_def by fastforce
  then have "log_of k (ko_out (ko_flush_all (oh_keep_order h))) = oh_lines h k"
    by (simp add: ko_lines_def oh_lines_def flush_all_buffers)
  with log_of_buffers [OF assms(2)] show ?thesis by (simp add: display_terminal)
qed

text \<open>The buffers of the summary have different tasks.\<close>

definition ss_wf :: "'k output_handler \<Rightarrow> bool" where
  "ss_wf h \<longleftrightarrow> distinct (map fst (ss_buffers (oh_summary h)))"

lemma ss_wf_simps [simp]:
  "ss_wf (on_keep_order f h) = ss_wf h" "ss_wf (oh_print k ls h) = ss_wf h" "ss_wf (set_timed now k p out h) = ss_wf h"
  "ss_wf (h\<lparr>oh_task_prs := x\<rparr>) = ss_wf h" "ss_wf (get_or_init_task_pr t h) = ss_wf h" "ss_wf (pr_set_message t m h) = ss_wf h"
  by (simp_all add: ss_wf_def on_keep_order_def oh_print_def set_timed_def get_or_init_task_pr_def pr_set_message_def Let_def)

lemma ss_wf_push: "ss_wf h \<Longrightarrow> ss_wf (on_summary (ss_push t l) h)"
  by (auto simp: ss_wf_def on_summary_def ss_push_def distinct_imap_insert split: option.split prod.split)

lemma ss_wf_stderr: "ss_wf h \<Longrightarrow> ss_wf (summary_stderr t p l h)"
  by (simp add: summary_stderr_def ss_wf_push)

lemma ss_wf_eprint: "ss_wf h \<Longrightarrow> ss_wf (oh_eprint st t p l h)"
  by (simp add: oh_eprint_def ss_wf_stderr split: task_output.split)

lemma ss_wf_replay_line: "ss_wf h \<Longrightarrow> ss_wf (replay_line m t p c h)"
  by (cases c; cases m) (simp_all add: ss_wf_stderr summary_stdout_def ss_wf_push)

lemma ss_wf_fold: "(\<And>x h. ss_wf h \<Longrightarrow> ss_wf (f x h)) \<Longrightarrow> ss_wf h \<Longrightarrow> ss_wf (fold f xs h)"
  by (induction xs arbitrary: h) simp_all

lemma ss_wf_step: "op \<noteq> OhDisplay \<Longrightarrow> ss_wf h \<Longrightarrow> ss_wf (oh_step st op h)"
proof (cases op)
  case (OhReplay now t p ls)
  assume "ss_wf h"
  then have "ss_wf (replay_start m now t p ls h)" for m
    by (auto simp: replay_start_def Let_def) (simp_all add: ss_wf_def on_summary_def)
  with OhReplay show ?thesis by (simp add: replay_eq ss_wf_fold ss_wf_replay_line)
next
  case (OhLine now t l)
  assume "ss_wf h"
  with OhLine show ?thesis
    by (cases l; cases "oh_output_for st h (Some t)")
      (simp_all add: process_line_def ss_wf_stderr ss_wf_eprint summary_stdout_def ss_wf_push)
next
  case (OhEnded t ok i c)
  assume wf: "ss_wf h"
  have "ss_wf (finish_summary st t oc h')" if "ss_wf h'" for oc h'
    using that unfolding finish_summary_def Let_def ss_wf_simps
    by (simp add: ss_wf_def on_summary_def filter_keys)
  with OhEnded wf show ?thesis by (simp add: task_ended_def retire_keep_order_slot_def Let_def)
next
  case (OhUpToDate t)
  assume "ss_wf h"
  with OhUpToDate show ?thesis by (simp add: summary_up_to_date_def ss_wf_def on_summary_def)
next
  case (OhDuration t d)
  assume "ss_wf h"
  with OhDuration show ?thesis by (simp add: summary_duration_def ss_wf_def on_summary_def)
qed (simp_all add: oh_init_task_def oh_injected_def retire_keep_order_slot_def Let_def ss_wf_eprint split: task_output.split)

lemma ss_wf_run: "ss_wf h \<Longrightarrow> OhDisplay \<notin> set ops \<Longrightarrow> ss_wf (fold (oh_step st) ops h)"
proof (induction ops arbitrary: h)
  case (Cons op ops)
  then have "ss_wf (oh_step st op h)" by (intro ss_wf_step) auto
  with Cons show ?case by simp
qed simp

lemma ss_wf_new: "ss_wf (output_handler_new a b c d e f)"
  by (simp add: ss_wf_def output_handler_new_def)

text \<open>A round of the printer of the \<^verbatim>\<open>timed\<close> style panics when some line was stored at a later time.\<close>

lemma timed_round_panics: "timed_round now h = None \<longleftrightarrow> (\<exists>(p, time, k, ls)\<in>set (oh_timed h). now < time)"
proof -
  have "timed_loop now outputs h' = None \<longleftrightarrow> (\<exists>(p, time, k, ls)\<in>set outputs. now < time)" for outputs h'
    by (induction now outputs h' rule: timed_loop.induct) auto
  then show ?thesis by (simp add: timed_round_def)
qed

text \<open>
  \<^bold>\<open>C39.\<close> Every line of a task with the style \<^verbatim>\<open>prefix\<close> or \<^verbatim>\<open>keep-order\<close> is printed, in order and
  exactly once, whatever the other tasks do and whatever their styles are: its lines that are
  not silenced, what mise says about it and its replayed output, at the latest when the results
  are shown, and at once with the style \<^verbatim>\<open>prefix\<close>.  In contrast, the printer of the style \<^verbatim>\<open>timed\<close>
  panics in a round in which the clock shows less than when some line was stored.
\<close>

theorem handler_prints_all:
  assumes "h0 = output_handler_new out sil qui raw lin jobs"
    and mode: "oh_output_for st h0 (Some t) \<in> {KeepOrder, Prefix}"
    and "\<forall>op\<in>set ops. op \<noteq> OhDisplay \<and> (\<forall>u. op_task op = Some u \<and> it_key u = it_key t \<longrightarrow> u = t)"
  shows "log_of (it_key t) (terminal (fold (oh_step st) (ops @ [OhDisplay]) h0)) = lines_for (it_key t) ops
    \<and> (oh_output_for st h0 (Some t) = Prefix \<longrightarrow>
         log_of (it_key t) (terminal (fold (oh_step st) ops h0)) = lines_for (it_key t) ops)
    \<and> (\<forall>now h. timed_round now h = None \<longleftrightarrow> (\<exists>(p, time, k, ls)\<in>set (oh_timed h). now < time))"
proof -
  let ?h = "fold (oh_step st) ops h0" and ?m = "oh_output_for st h0 (Some t)"
  have m: "line_mode ?m" using mode by (auto simp: line_mode_def)
  have "line_state h0 ?m (it_key t) ([] @ lines_for (it_key t) ops) ?h"
    by (rule line_state_run [OF _ refl m assms(3)]) (simp add: assms(1) line_state_new)
  then have h: "oh_wf ?h" "oh_lines ?h (it_key t) = lines_for (it_key t) ops"
    "map_of (ss_buffers (oh_summary ?h)) (it_key t) = None" "?m = Prefix \<longrightarrow> oh_held ?h (it_key t) = []"
    by (simp_all add: line_state_def)
  have "ss_wf ?h" using assms(1,3) by (intro ss_wf_run) (auto simp: ss_wf_new)
  then have "log_of (it_key t) (terminal (fold (oh_step st) (ops @ [OhDisplay]) h0)) = lines_for (it_key t) ops"
    using display_log [OF h(1), of "it_key t"] h(2,3) by (simp add: ss_wf_def)
  moreover have "?m = Prefix \<longrightarrow> log_of (it_key t) (terminal ?h) = lines_for (it_key t) ops"
    using h(2,4) by (auto simp: oh_lines_def ko_lines_def)
  ultimately show ?thesis using timed_round_panics by blast
qed

definition demo_io_task :: "nat \<Rightarrow> task_output \<Rightarrow> nat io_task" where
  "demo_io_task k m = \<lparr> it_key = k, it_prefix = lit ''['' @ [48 + k] @ lit '']'', it_silent = SilentOff, it_output = Some m,
     it_quiet = False, it_raw = False, it_interactive = False, it_file = None, it_run = [Script (lit ''make'')] \<rparr>"

definition demo_settings :: output_settings where
  "demo_settings = \<lparr> st_silent = False, st_quiet = False, st_raw = False, st_jobs = 4, st_task_quiet = False,
     st_task_output = None \<rparr>"

theorem handler_prints_all_witness:
  "let t = demo_io_task 2 KeepOrder; u = demo_io_task 3 Prefix; v = demo_io_task 4 Summary;
       ops = [OhInit u, OhInit t, OhLine 0 v (Stdout (lit ''[4]'') (lit ''w'')), OhLine 0 u (Stdout (lit ''[3]'') (lit ''x'')),
         OhLine 0 t (Stdout (lit ''[2]'') (lit ''y'')), OhEnded v True False False,
         OhReplay 0 t (lit ''[2]'') [CacheStderr (lit ''z'')], OhEnded t True False False]
   in oh_output_for demo_settings (output_handler_new None False False False False None) (Some t) = KeepOrder
      \<and> log_of 2 (terminal (fold (oh_step demo_settings) (ops @ [OhDisplay])
          (output_handler_new None False False False False None))) =
        [Stdout (lit ''[2]'') (lit ''y''), Stderr (lit ''[2]'') (lit ''z'')]"
proof -
  let ?t = "demo_io_task 2 KeepOrder" and ?u = "demo_io_task 3 Prefix" and ?v = "demo_io_task 4 Summary"
  let ?h = "output_handler_new None False False False False None"
  let ?ops = "[OhInit ?u, OhInit ?t, OhLine 0 ?v (Stdout (lit ''[4]'') (lit ''w'')), OhLine 0 ?u (Stdout (lit ''[3]'') (lit ''x'')),
    OhLine 0 ?t (Stdout (lit ''[2]'') (lit ''y'')), OhEnded ?v True False False,
    OhReplay 0 ?t (lit ''[2]'') [CacheStderr (lit ''z'')], OhEnded ?t True False False]"
  have m: "oh_output_for demo_settings ?h (Some ?t) = KeepOrder"
    by (simp add: oh_output_for_def oh_full_silent_def oh_raw_for_def demo_settings_def demo_io_task_def output_handler_new_def)
  then have m': "oh_output_for demo_settings ?h (Some ?t) \<in> {KeepOrder, Prefix}" by simp
  have ops: "\<forall>op\<in>set ?ops. op \<noteq> OhDisplay \<and> (\<forall>u. op_task op = Some u \<and> it_key u = it_key ?t \<longrightarrow> u = ?t)"
    by (simp add: demo_io_task_def)
  have "lines_for (it_key ?t) ?ops = [Stdout (lit ''[2]'') (lit ''y''), Stderr (lit ''[2]'') (lit ''z'')]"
    by (simp add: demo_io_task_def)
  with handler_prints_all [OF refl m' ops, THEN conjunct1] m show ?thesis unfolding Let_def by (simp add: demo_io_task_def)
qed

end
