(* ===== verification/Output_Handler_Summary.thy ===== *)
theory Output_Handler_Summary
  imports Output_Handler_Correct
begin

text \<open>What the \<^verbatim>\<open>summary\<close> style prints for a task, whatever the other tasks do meanwhile.\<close>

section \<open>The history of a task\<close>

text \<open>The duration that was noted last, and whether cached output was replayed or the task was up to date.\<close>

definition last_duration :: "'k \<Rightarrow> 'k oh_op list \<Rightarrow> ustr option option" where
  "last_duration k ops =
     fold (\<lambda>op d. case op of OhDuration t x \<Rightarrow> if it_key t = k then Some x else d | _ \<Rightarrow> d) ops None"

definition was_replayed :: "'k \<Rightarrow> 'k oh_op list \<Rightarrow> bool" where
  "was_replayed k ops \<longleftrightarrow> list_ex (\<lambda>op. case op of OhReplay now t p ls \<Rightarrow> it_key t = k | _ \<Rightarrow> False) ops"

definition was_up_to_date :: "'k \<Rightarrow> 'k oh_op list \<Rightarrow> bool" where
  "was_up_to_date k ops \<longleftrightarrow> list_ex (\<lambda>op. case op of OhUpToDate t \<Rightarrow> it_key t = k | _ \<Rightarrow> False) ops"

lemma history_snoc:
  "lines_for k (ops @ [op]) = lines_for k ops @ op_lines k op"
  "last_duration k (ops @ [op]) = (case op of OhDuration t x \<Rightarrow> if it_key t = k then Some x else last_duration k ops
     | _ \<Rightarrow> last_duration k ops)"
  "was_replayed k (ops @ [op]) \<longleftrightarrow> was_replayed k ops \<or> (case op of OhReplay now t p ls \<Rightarrow> it_key t = k | _ \<Rightarrow> False)"
  "was_up_to_date k (ops @ [op]) \<longleftrightarrow> was_up_to_date k ops \<or> (case op of OhUpToDate t \<Rightarrow> it_key t = k | _ \<Rightarrow> False)"
  by (simp_all add: lines_for_def last_duration_def was_replayed_def was_up_to_date_def split: oh_op.split)

definition buffer_of :: "ustr \<Rightarrow> keep_order_line list \<Rightarrow> (ustr \<times> summary_buffer) option" where
  "buffer_of p ls = (if ls = [] then None else Some (p, sb_of ls))"

text \<open>What the state of the summary says of a task with this history.\<close>

definition history_view :: "'k io_task \<Rightarrow> 'k oh_op list \<Rightarrow> ss_view" where
  "history_view t ops = (buffer_of (it_prefix t) (lines_for (it_key t) ops), last_duration (it_key t) ops,
     was_replayed (it_key t) ops, was_up_to_date (it_key t) ops, False)"

text \<open>Nothing is printed for the task before it ends.\<close>

definition summary_state_of :: "'k output_handler \<Rightarrow> 'k \<Rightarrow> ss_view \<Rightarrow> 'k output_handler \<Rightarrow> bool" where
  "summary_state_of h0 k v h \<longleftrightarrow> oh_config h = oh_config h0 \<and> oh_wf h \<and> oh_lines h k = [] \<and> view_of k (oh_summary h) = v"

lemma summary_state_effect:
  "summary_state_of h0 k v h \<Longrightarrow> oh_effect k hold [] h h' \<Longrightarrow> summary_state_of h0 k v h'"
  by (simp add: summary_state_of_def oh_effect_def)

lemma summary_state_on:
  assumes "summary_state_of h0 k v h" and "view_of k (f (oh_summary h)) = v'"
  shows "summary_state_of h0 k v' (on_summary f h)"
  using assms by (simp add: summary_state_of_def on_summary_def oh_config_def oh_lines_def)

lemma summary_state_push:
  assumes "summary_state_of h0 (it_key t) (buffer_of (it_prefix t) ls, d, r, u, False) h"
  shows "summary_state_of h0 (it_key t) (buffer_of (it_prefix t) (ls @ [l]), d, r, u, False) (on_summary (ss_push t l) h)"
proof (rule summary_state_on [OF assms])
  have "map_of (ss_buffers (oh_summary h)) (it_key t) = buffer_of (it_prefix t) ls"
    using assms by (simp add: summary_state_of_def view_of_def)
  moreover have "sb_of (ls @ [l]) = sb_push l (sb_of ls)" by (rule sb_of_snoc)
  moreover have "sb_of [l] = sb_push l sb_default" by (simp add: sb_of_def)
  ultimately show "view_of (it_key t) (ss_push t l (oh_summary h)) = (buffer_of (it_prefix t) (ls @ [l]), d, r, u, False)"
    using assms by (cases "ls = []") (simp_all add: buffer_of_def ss_push_def summary_state_of_def view_of_def)
qed

lemma summary_state_stderr:
  assumes "summary_state_of h0 (it_key t) (buffer_of (it_prefix t) ls, d, r, u, False) h"
  shows "summary_state_of h0 (it_key t) (buffer_of (it_prefix t) (ls @ [Stderr p l]), d, r, u, False) (summary_stderr t p l h)"
proof -
  have "it_key t \<notin> ss_finished (oh_summary h)" using assms by (simp add: summary_state_of_def view_of_def)
  with summary_state_push [OF assms] show ?thesis by (simp add: summary_stderr_def)
qed

lemmas summary_state_lines = summary_state_push [folded summary_stdout_def] summary_state_stderr

lemma summary_state_stdout:
  assumes "summary_state_of h0 (it_key t) (buffer_of (it_prefix t) ls, d, r, u, False) h"
  shows "summary_state_of h0 (it_key t) (buffer_of (it_prefix t) (ls @ [Stdout p l]), d, r, u, False) (summary_stdout t p l h)"
  unfolding summary_stdout_def by (rule summary_state_push [OF assms])

lemma summary_state_replay:
  assumes "summary_state_of h0 (it_key t) (buffer_of (it_prefix t) ls, d, r, u, False) h"
  shows "summary_state_of h0 (it_key t)
    (buffer_of (it_prefix t) (ls @ filter (\<lambda>l. \<not> suppressed (it_silent t) l) (map (cache_line p) cs)), d, r, u, False)
    (fold (replay_line Summary t p) cs h)"
  using assms
proof (induction cs arbitrary: ls h)
  case (Cons c cs)
  let ?x = "if suppressed (it_silent t) (cache_line p c) then [] else [cache_line p c]"
  have "summary_state_of h0 (it_key t) (buffer_of (it_prefix t) (ls @ ?x), d, r, u, False) (replay_line Summary t p c h)"
    using Cons.prems summary_state_stdout [OF Cons.prems] summary_state_stderr [OF Cons.prems] by (cases c) simp_all
  from Cons.IH [OF this] show ?case by (simp split: if_splits)
qed simp

lemma summary_state_step:
  assumes inv: "summary_state_of h0 (it_key t) (history_view t ops) h" and m: "oh_output_for st h0 (Some t) = Summary"
    and op: "op \<noteq> OhDisplay" "\<And>ok i c. op \<noteq> OhEnded t ok i c" "\<And>u. op_task op = Some u \<Longrightarrow> it_key u = it_key t \<Longrightarrow> u = t"
  shows "summary_state_of h0 (it_key t) (history_view t (ops @ [op])) (oh_step st op h)"
proof (cases "op_task op = None \<or> it_key (the (op_task op)) \<noteq> it_key t")
  case True
  have "history_view t (ops @ [op]) = history_view t ops"
    using True op_lines_other [OF True] by (cases op) (auto simp: history_view_def history_snoc)
  with summary_state_effect [OF inv other_step [OF op(1) True]] show ?thesis by simp
next
  case False
  then have own: "op_task op = Some t" using op(3) by auto
  have mode: "oh_output_for st h (Some t) = Summary"
    using inv m config_output(1) [of h h0 st "Some t"] by (simp add: summary_state_of_def)
  note inv' = inv [unfolded history_view_def]
  note view = inv' [unfolded summary_state_of_def, THEN conjunct2, THEN conjunct2, THEN conjunct2, unfolded view_of_def]
  show ?thesis
  proof (cases op)
    case (OhEprint u p l)
    with own mode summary_state_stderr [OF inv'] show ?thesis
      by (simp add: history_view_def history_snoc oh_eprint_def)
  next
    case (OhLine now u l)
    with own mode inv' summary_state_stderr [OF inv'] summary_state_stdout [OF inv'] show ?thesis
      by (cases l) (simp_all add: history_view_def history_snoc process_line_def)
  next
    case (OhReplay now u p ls)
    have "summary_state_of h0 (it_key t) (buffer_of (it_prefix t) (lines_for (it_key t) ops), last_duration (it_key t) ops,
        True, was_up_to_date (it_key t) ops, False) (replay_start Summary now t p ls h)"
      unfolding replay_start_def Let_def
      by (simp, rule summary_state_on [OF inv']) (use view in \<open>simp add: view_of_def\<close>)
    from summary_state_replay [OF this] own mode OhReplay show ?thesis
      by (simp add: history_view_def history_snoc replay_eq)
  next
    case (OhUpToDate u)
    with own show ?thesis unfolding history_view_def history_snoc OhUpToDate
      by (simp add: summary_up_to_date_def, intro summary_state_on [OF inv']) (use view in \<open>simp add: view_of_def\<close>)
  next
    case (OhDuration u d)
    with own show ?thesis unfolding history_view_def history_snoc OhDuration
      by (simp add: summary_duration_def, intro summary_state_on [OF inv']) (use view in \<open>simp add: view_of_def\<close>)
  qed (use own op in auto)
qed

lemma summary_state_run:
  assumes "h0 = output_handler_new a b c d e f" and "oh_output_for st h0 (Some t) = Summary"
    and "\<forall>op\<in>set ops. op \<noteq> OhDisplay \<and> (\<forall>ok i c. op \<noteq> OhEnded t ok i c)
      \<and> (\<forall>u. op_task op = Some u \<and> it_key u = it_key t \<longrightarrow> u = t)"
  shows "summary_state_of h0 (it_key t) (history_view t ops) (fold (oh_step st) ops h0)"
  using assms(3)
proof (induction ops rule: rev_induct)
  case Nil
  show ?case
    by (simp add: assms(1) summary_state_of_def history_view_def last_duration_def was_replayed_def was_up_to_date_def
        buffer_of_def output_handler_new_def view_of_def ko_new_def ko_wf_def oh_lines_def ko_lines_def)
next
  case (snoc op ops)
  then have "summary_state_of h0 (it_key t) (history_view t ops) (fold (oh_step st) ops h0)" by simp
  from summary_state_step [OF this assms(2), of op] snoc.prems show ?case by simp
qed

section \<open>The end of a task\<close>

text \<open>The report of a task with this history: its output when it failed or ran nothing, and one line otherwise.\<close>

definition summary_report :: "bool \<Rightarrow> 'k io_task \<Rightarrow> 'k oh_op list \<Rightarrow> bool \<Rightarrow> bool \<Rightarrow> bool \<Rightarrow> keep_order_line list" where
  "summary_report quiet t ops ok interrupted cancelled =
     (let k = it_key t; held_text = sb_into_lines (it_prefix t) (sb_of (lines_for k ops)); say = (\<lambda>m. [Stderr (it_prefix t) m])
      in if \<not> ok \<and> (interrupted \<or> \<not> cancelled) then held_text
         else if quiet then []
         else if \<not> ok then say (lit ''cancelled'')
         else
           case last_duration k ops of
             Some (Some d) \<Rightarrow> say (lit ''passed in '' @ d)
           | Some None \<Rightarrow> say (lit ''passed'')
           | None \<Rightarrow>
               if was_up_to_date k ops then say (lit ''sources up-to-date, skipping'')
               else if was_replayed k ops then say (lit ''passed (cached)'')
               else held_text)"

lemma sb_empty [simp]: "sb_into_lines p (sb_of []) = []"
  by (simp add: sb_of_def sb_default_def sb_into_lines_def)

lemma print_log: "log_of k (terminal (oh_print k ls h)) = log_of k (terminal h) @ ls"
  by (simp add: oh_print_def on_keep_order_def ko_print_def)

lemma terminal_summary [simp]: "terminal (on_summary f h) = terminal h"
  by (simp add: on_summary_def)

lemma summary_ended:
  assumes "summary_state_of h0 (it_key t) (history_view t ops) h" and "oh_output_for st h0 (Some t) = Summary"
  shows "log_of (it_key t) (terminal (task_ended st t ok i c h)) = summary_report (oh_quiet_for st h0 (Some t)) t ops ok i c"
    and "log_of (it_key t) (terminal (oh_eprint st t p l (task_ended st t ok i c h)))
      = summary_report (oh_quiet_for st h0 (Some t)) t ops ok i c @ [Stderr p l]"
proof -
  have cfg: "oh_config h = oh_config h0" using assms(1) by (simp add: summary_state_of_def)
  have mode: "oh_output_for st h (Some t) = Summary" using config_output(1) [OF cfg] assms(2) by simp
  then have ended: "task_ended st t ok i c h = finish_summary st t
      (if ok then Passed else if i then Failed else if c then Cancelled else Failed) h"
    by (simp add: task_ended_def retire_keep_order_slot_def)
  have log: "log_of (it_key t) (terminal h) = []"
    using assms(1) by (simp add: summary_state_of_def oh_lines_def ko_lines_def)
  have q: "oh_quiet_for st (on_summary f h) (Some t) = oh_quiet_for st h0 (Some t)" for f
    using cfg by (intro config_output(2)) (simp add: on_summary_def oh_config_def)
  have v: "map_of (ss_buffers (oh_summary h)) (it_key t) = buffer_of (it_prefix t) (lines_for (it_key t) ops)"
    "map_of (ss_durations (oh_summary h)) (it_key t) = last_duration (it_key t) ops"
    "it_key t \<in> ss_replayed (oh_summary h) \<longleftrightarrow> was_replayed (it_key t) ops"
    "it_key t \<in> ss_up_to_date (oh_summary h) \<longleftrightarrow> was_up_to_date (it_key t) ops"
    using assms(1) by (simp_all add: summary_state_of_def history_view_def view_of_def)
  have held_text: "(case buffer_of (it_prefix t) (lines_for (it_key t) ops) of Some (p, b) \<Rightarrow> sb_into_lines (it_prefix t) b
      | None \<Rightarrow> []) = sb_into_lines (it_prefix t) (sb_of (lines_for (it_key t) ops))"
    by (simp add: buffer_of_def)
  show report: "log_of (it_key t) (terminal (task_ended st t ok i c h))
      = summary_report (oh_quiet_for st h0 (Some t)) t ops ok i c"
    unfolding ended finish_summary_def Let_def print_log terminal_summary log q v held_text summary_report_def
    by (cases ok; cases i; cases c) (simp_all split: option.split)
  let ?h = "task_ended st t ok i c h"
  have "oh_config ?h = oh_config h"
    unfolding ended finish_summary_def Let_def by (simp add: oh_print_def on_keep_order_def on_summary_def oh_config_def)
  then have "oh_output_for st ?h (Some t) = Summary" using mode config_output(1) by metis
  moreover have "it_key t \<in> ss_finished (oh_summary ?h)"
    unfolding ended finish_summary_def Let_def by (simp add: oh_print_def on_keep_order_def on_summary_def)
  ultimately show "log_of (it_key t) (terminal (oh_eprint st t p l ?h))
      = summary_report (oh_quiet_for st h0 (Some t)) t ops ok i c @ [Stderr p l]"
    by (simp add: oh_eprint_def summary_stderr_def print_log report)
qed

lemma summary_displayed:
  assumes "summary_state_of h0 (it_key t) (history_view t ops) h" and "ss_wf h"
  shows "log_of (it_key t) (terminal (display_keep_order_output h))
    = sb_into_lines (it_prefix t) (sb_of (lines_for (it_key t) ops))"
  using assms display_log [of h "it_key t"]
  by (simp add: summary_state_of_def history_view_def view_of_def ss_wf_def buffer_of_def)

text \<open>
  \<^bold>\<open>C40.\<close> A task with the style \<^verbatim>\<open>summary\<close> prints nothing before it ends, whatever the other tasks do
  meanwhile.  Then it prints its report, which depends on its own history only: the end of its
  output when it failed, or was interrupted; nothing more when mise is quiet; that it was
  cancelled, how long it took, that it was up to date or that it passed from the cache; and its
  output when it ran nothing.  What mise says about it afterwards is printed at once, and a task
  that never ends has its output shown with the results.
\<close>

theorem summary_reports:
  assumes "h0 = output_handler_new out sil qui raw lin jobs" and "oh_output_for st h0 (Some t) = Summary"
    and "\<forall>op\<in>set ops. op \<noteq> OhDisplay \<and> (\<forall>ok i c. op \<noteq> OhEnded t ok i c)
      \<and> (\<forall>u. op_task op = Some u \<and> it_key u = it_key t \<longrightarrow> u = t)"
  shows "let h = fold (oh_step st) ops h0;
             ended = oh_step st (OhEnded t ok i c) h;
             report = summary_report (oh_quiet_for st h0 (Some t)) t ops ok i c
         in log_of (it_key t) (terminal h) = []
            \<and> log_of (it_key t) (terminal ended) = report
            \<and> log_of (it_key t) (terminal (oh_step st (OhEprint t p l) ended)) = report @ [Stderr p l]
            \<and> log_of (it_key t) (terminal (oh_step st OhDisplay h))
                = sb_into_lines (it_prefix t) (sb_of (lines_for (it_key t) ops))"
proof -
  let ?h = "fold (oh_step st) ops h0"
  note inv = summary_state_run [OF assms]
  have "log_of (it_key t) (terminal ?h) = []"
    using inv by (simp add: summary_state_of_def oh_lines_def ko_lines_def)
  moreover have "ss_wf ?h" using assms(1,3) by (intro ss_wf_run) (auto simp: ss_wf_new)
  ultimately show ?thesis
    using summary_ended [OF inv assms(2)] summary_displayed [OF inv] by (simp add: Let_def)
qed

theorem summary_reports_witness:
  "let t = demo_io_task 2 Summary; u = demo_io_task 3 Prefix; h0 = output_handler_new None False False False False None;
       ops = [OhLine 0 t (Stdout (lit ''[2]'') (lit ''x'')), OhLine 0 u (Stdout (lit ''[3]'') (lit ''y'')),
         OhDuration t (Some (lit ''2s''))]
   in log_of 2 (terminal (oh_step demo_settings (OhEnded t True False False) (fold (oh_step demo_settings) ops h0))) =
        [Stderr (lit ''[2]'') (lit ''passed in 2s'')]
      \<and> log_of 2 (terminal (oh_step demo_settings (OhEnded t False False False) (fold (oh_step demo_settings) ops h0))) =
        [Stdout (lit ''[2]'') (lit ''x'')]"
proof -
  let ?t = "demo_io_task 2 Summary" and ?u = "demo_io_task 3 Prefix"
  let ?h = "output_handler_new None False False False False None"
  let ?ops = "[OhLine 0 ?t (Stdout (lit ''[2]'') (lit ''x'')), OhLine 0 ?u (Stdout (lit ''[3]'') (lit ''y'')),
    OhDuration ?t (Some (lit ''2s''))]"
  have m: "oh_output_for demo_settings ?h (Some ?t) = Summary"
    by (simp add: oh_output_for_def oh_full_silent_def oh_raw_for_def demo_settings_def demo_io_task_def output_handler_new_def)
  have q: "\<not> oh_quiet_for demo_settings ?h (Some ?t)"
    by (simp add: oh_quiet_for_def oh_silent_for_def silent_bool_def demo_settings_def demo_io_task_def output_handler_new_def)
  have ops: "\<forall>op\<in>set ?ops. op \<noteq> OhDisplay \<and> (\<forall>ok i c. op \<noteq> OhEnded ?t ok i c)
      \<and> (\<forall>u. op_task op = Some u \<and> it_key u = it_key ?t \<longrightarrow> u = ?t)"
    by (simp add: demo_io_task_def)
  have k: "it_key ?t = 2" and p: "it_prefix ?t = lit ''[2]''" by (simp_all add: demo_io_task_def lit_def)
  have ls: "lines_for 2 ?ops = [Stdout (lit ''[2]'') (lit ''x'')]"
    by (simp add: demo_io_task_def)
  have d: "last_duration 2 ?ops = Some (Some (lit ''2s''))"
    by (simp add: last_duration_def demo_io_task_def)
  have "sb_into_lines (lit ''[2]'') (sb_of [Stdout (lit ''[2]'') (lit ''x'')]) = [Stdout (lit ''[2]'') (lit ''x'')]"
    by (simp add: sb_of_def sb_push_def sb_default_def sb_into_lines_def SUMMARY_FIRST_LINE_BYTES_def lit_def byte_len_def
        len_utf8_def)
  then have r: "summary_report False ?t ?ops True False False = [Stderr (lit ''[2]'') (lit ''passed in 2s'')]"
    "summary_report False ?t ?ops False False False = [Stdout (lit ''[2]'') (lit ''x'')]"
    unfolding summary_report_def Let_def k p ls d by (simp_all add: lit_def)
  show ?thesis
    using summary_reports [OF refl m ops, of True False False] summary_reports [OF refl m ops, of False False False] q
    unfolding Let_def k by (simp add: r)
qed

end
