(* ===== verification/Spec2Isabelle.thy ===== *)
theory Spec2Isabelle
  imports Deps_Clients Dotenv_Errors Dotenv_Precedence Wildcard Path_Env Env_Source Env_Pristine
    Hook_Path Task_Prune Redactions_Correct Redactions_Url Cache_Client_Run Task_Output_Order
    Task_Output_Inject Output_Handler_Summary
begin

text \<open>
  \<^bold>\<open>A verification library for mise\<close>

  mise installs development tools, sets up the environment of a shell for a directory and runs
  tasks.  This library models the parts of it that decide in which order work is done, what
  the environment of a shell becomes, and what is shown of tasks and of secrets; paths below
  are relative to the repository.  Every definition is a translation of the named source, and every
  theorem is about those definitions.

  \<^bold>\<open>Scheduling.\<close>  \<^verbatim>\<open>crates/mise-util/src/deps_graph.rs\<close> is a scheduler over a dependency graph: it
  hands out nodes whose dependencies are done and blocks the dependents of a failed node.
  \<open>Graph_Interface\<close> states the interface of petgraph's \<^verbatim>\<open>StableDiGraph\<close> as a locale with a reference
  implementation; \<open>Deps_Graph\<close> holds the record \<open>deps_graph\<close> and one definition per method
  (\<^verbatim>\<open>new\<close>, \<^verbatim>\<open>subscribe\<close>, \<^verbatim>\<open>complete_success\<close>, \<^verbatim>\<open>complete_failure\<close>, \dots); \<open>Sched_Spec\<close> is the abstract
  scheduler on keys alone, and \<open>Deps_Graph_Correct\<close> proves the refinement, that every run
  completes or blocks each node, that there is no deadlock, and that a node is handed out only
  after its dependencies.  \<open>Deps_Clients\<close> models the two users of the scheduler,
  \<^verbatim>\<open>src/deps/deps_ordering.rs\<close> and \<^verbatim>\<open>src/toolset/tool_deps.rs\<close>.

  \<^bold>\<open>Tasks.\<close>  \<^verbatim>\<open>src/task/deps.rs\<close> is the graph behind \<^verbatim>\<open>mise run\<close>.  \<open>Task_Graph\<close> is the interface of
  petgraph's \<^verbatim>\<open>DiGraph\<close> (removal moves the last node) with a reference implementation, \<open>Task_Cycles\<close>
  the search for cycles, \<open>Task_Deps\<close> the construction of the graph and all operations on it.
  \<open>Task_Run\<close> has the states that \<^verbatim>\<open>mise run\<close> drives a graph through, as an inductive relation, and their
  safety and liveness, \<open>Task_Build\<close> shows that construction ends and builds what was declared,
  \<open>Task_Prune\<close> adds the graph of a nested run.  Fetching remote task files, rendering templates
  and resolving dependency patterns are the record \<open>task_env\<close>; what the theorems use of it are
  the named hypotheses \<open>render_keeps_key\<close> and \<open>resolves_into\<close>.

  \<^bold>\<open>Output of tasks.\<close>  \<^verbatim>\<open>src/task/task_output_handler.rs\<close> shows what tasks print that run at the same
  time.  \<open>Task_Output\<close> has the state of the \<^verbatim>\<open>keep-order\<close> style with its operations, including the slots
  of tasks that a run entry injects, and the bounded buffer of the \<^verbatim>\<open>summary\<close> style;
  \<open>Output_Handler\<close> the choice of a style and where lines go in each (\<^verbatim>\<open>src/task/task_output.rs\<close>,
  \<^verbatim>\<open>src/cli/run.rs\<close>, \<^verbatim>\<open>src/task/task_executor.rs\<close>).  What is printed is a log of lines with their tasks.
  \<open>Task_Output_Correct\<close> states what it means to keep such a log as a locale and shows that no
  operation loses a line, \<open>Task_Output_Order\<close> that the output is that of a sequential run,
  \<open>Task_Output_Inject\<close> where injected tasks get their slots, \<open>Summary_Buffer_Correct\<close> how much the
  summary keeps, \<open>Output_Handler_Correct\<close> and \<open>Output_Handler_Summary\<close> what of one task is shown
  when tasks with different styles run together.

  \<^bold>\<open>Dotenv files.\<close>  \<^verbatim>\<open>crates/mise-dotenv\<close> reads and writes \<^verbatim>\<open>.env\<close> files.  \<open>Dotenv_Lex\<close>, \<open>Dotenv_Expand\<close> and
  \<open>Dotenv_Parse\<close> are the parser (\<^verbatim>\<open>parse.rs\<close>, \<^verbatim>\<open>key.rs\<close>), \<open>Dotenv_Render\<close> the writer, \<open>Dotenv_Load\<close> the loader
  (\<^verbatim>\<open>iter.rs\<close>, \<^verbatim>\<open>lib.rs\<close>).  \<open>Dotenv_Roundtrip\<close> shows that parsing undoes writing, \<open>Dotenv_Errors\<close> where
  errors are reported and when writing fails, \<open>Dotenv_Precedence\<close> which value wins.

  \<^bold>\<open>The environment of a shell.\<close>  \<open>Path_Buf\<close> and \<open>Path_Env\<close> model the computed \<^verbatim>\<open>PATH\<close>
  (\<^verbatim>\<open>crates/mise-util/src/path_env.rs\<close>, \<^verbatim>\<open>file.rs\<close>), \<open>Env_Diff\<close> and \<open>Env_Source\<close> the difference of two
  environments and sourcing a script (\<^verbatim>\<open>env_diff.rs\<close>), \<open>Env_Pristine\<close> the undoing of a diff and inherited
  secrets (\<^verbatim>\<open>env.rs\<close>), \<open>Hook_Env\<close> the shell hook (\<^verbatim>\<open>src/hook_env.rs\<close>, \<^verbatim>\<open>src/cli/hook_env.rs\<close>,
  \<^verbatim>\<open>src/direnv.rs\<close>, \<^verbatim>\<open>src/shims.rs\<close>).  \<open>Env_Diff_Correct\<close>, \<open>Hook_Env_Correct\<close> and \<open>Hook_Path\<close> hold the
  theorems: patches turn one environment into the other and back, values the user changed
  survive, deactivation restores the counts of \<^verbatim>\<open>PATH\<close> entries, and what the next prompt
  changes.  The hash of values and the file system are parameters.

  \<^bold>\<open>Secrets in output.\<close>  \<open>Redactions\<close> models \<^verbatim>\<open>crates/mise-util/src/redactions.rs\<close>; \<open>Redactions_Correct\<close> shows
  that redaction hides exactly the occurrences of secrets, \<open>Redactions_Url\<close> that no URL keeps
  its credentials.

  \<^bold>\<open>The remote cache.\<close>  \<^verbatim>\<open>crates/mise-cache-core\<close> is the client of a cache of task results.  \<open>Result_State\<close>
  has fallible operations on a state, the retry loop and two small program logics for them;
  \<open>Blob_Pack\<close> the digests and the packs of objects (\<^verbatim>\<open>blob_pack.rs\<close>, \<^verbatim>\<open>protocol.rs\<close>), \<open>Cache_Client\<close> the
  credentials and every operation of the client (\<^verbatim>\<open>credentials.rs\<close>, \<^verbatim>\<open>retry.rs\<close>, \<^verbatim>\<open>client.rs\<close>).  Integers
  are words of their width.  The record \<open>world\<close> holds what lies outside: a server that may answer
  anything, the clock, files, hashes, and the URL, base64 and JSON libraries; the theorems use
  of it only \<open>join_ok\<close>, that joining a relative path keeps scheme and host.  \<open>Blob_Pack_Correct\<close>
  shows which responses are accepted, \<open>Cache_Client_Correct\<close> that every operation keeps the state
  well formed and returns verified objects, \<open>Cache_Client_Bounds\<close> counts the requests, and
  \<open>Cache_Client_Run\<close> has the properties of whole runs.

  \<^bold>\<open>Patterns.\<close>  \<open>Wildcard\<close> models \<^verbatim>\<open>crates/mise-util/src/wildcard.rs\<close> and compares its greedy scan with
  the meaning of patterns.

  \<^bold>\<open>Conventions.\<close>  \<open>Mise_Prelude\<close> has the types and lemmas all parts share.  A string is the list
  of its Unicode scalar values, positions count characters, and a byte length is the sum of
  the UTF-8 lengths; where the code can slice inside a character the model has the panic.  A
  hash map is a map, an insertion-ordered map an association list, iteration over a hash map
  takes the order of insertion where the model has to choose one.  A channel is the list of
  messages sent.  A \<^verbatim>\<open>Result\<close> is a sum with the error on the left, an operation that may panic
  returns an option or the type \<open>outcome\<close>.  Nothing uses fuel: loops are structural or have a
  termination proof, and where ending depends on a parameter the loop is a
  \<^theory_text>\<open>partial_function\<close> in the option monad and a theorem shows that it returns (\<open>dg_run_complete\<close>,
  \<open>find_cycles_correct\<close>, \<open>task_graph_built\<close>).

  \<^bold>\<open>Not modelled.\<close>  The command line and the user interface, the backends and plugins that
  download and build tools, lock files, the configuration files and their templates, the
  packages of the host system, the local task cache, daemons, signatures and the language
  server: they are mostly calls to other programs, to the network and to parsers of
  other crates, whose results would all be parameters.  Of the modelled files, concurrency is
  seen as the order of calls: locks and asynchronous waiting are not in the model.  In the
  cache client, writing to the staging directory does not fail, and a deadline that passes
  ends a download between its attempts.  Of the output of tasks, colours, labels and the drawing
  of progress bars are left out, and so is what a process writes to the terminal itself.
\<close>

section \<open>A run from its tasks to its end\<close>


definition done_before :: task_completion_state where
  "done_before = \<lparr> cs_completed = {task_key (demo_task (lit ''a'') [])}, cs_did_work = {}, cs_cache_keys = Map.empty \<rparr>"


end
